(* ===== verification/Base_Prelude.thy ===== *)
theory Base_Prelude
  imports Main "HOL-Library.Word"
begin

text \<open>
  Shared vocabulary of the development: pointers, run-time faults of the C++ code as values,
  the sequencing of fallible steps, and the generic lemmas on lists that the component
  theories use.

  A pointer is a natural number and \<open>0\<close> is \<open>nullptr\<close>. A step that the C++ standard leaves
  undefined (dereferencing a null or freed pointer, running past an array) is not given a
  made-up value: it is the left injection of a \<open>fault\<close>. The collection \<open>res_simps\<close> holds the
  rules that push \<open>bnd\<close> through results.
\<close>

named_theorems res_simps "rules for sequencing fallible steps"

type_synonym ptr = nat

datatype fault =
    NullDeref
  | Dangling
  | Diverge
  | AssertFail
  | OutOfBounds
  | Undefined

type_synonym 'a res = "fault + 'a"

definition bnd :: "'a res \<Rightarrow> ('a \<Rightarrow> 'b res) \<Rightarrow> 'b res" where
  "bnd r k = (case r of Inl e \<Rightarrow> Inl e | Inr x \<Rightarrow> k x)"

lemma bnd_Inl [simp, res_simps]: "bnd (Inl e) k = Inl e"
  by (simp add: bnd_def)

lemma bnd_Inr [simp, res_simps]: "bnd (Inr x) k = k x"
  by (simp add: bnd_def)

lemma bnd_eq_Inr_iff [res_simps]: "bnd r k = Inr y \<longleftrightarrow> (\<exists>x. r = Inr x \<and> k x = Inr y)"
  by (cases r) simp_all

lemma bnd_eq_Inl_iff [res_simps]:
  "bnd r k = Inl e \<longleftrightarrow> r = Inl e \<or> (\<exists>x. r = Inr x \<and> k x = Inl e)"
  by (cases r) simp_all

lemma bnd_cong [fundef_cong]:
  "r = r' \<Longrightarrow> (\<And>x. r' = Inr x \<Longrightarrow> k x = k' x) \<Longrightarrow> bnd r k = bnd r' k'"
  by (cases r') simp_all

definition ok :: "'a res \<Rightarrow> bool" where
  "ok r \<longleftrightarrow> (case r of Inl _ \<Rightarrow> False | Inr _ \<Rightarrow> True)"

lemma ok_simps [simp, res_simps]: "\<not> ok (Inl e)" "ok (Inr x)"
  by (simp_all add: ok_def)

subsection \<open>Lists\<close>

lemma takeWhile_all_le:
  fixes d :: "'k::linorder"
  assumes "sorted (map f xs)" and "xs \<noteq> []" and "f (last xs) \<le> d"
  shows "takeWhile (\<lambda>a. f a \<le> d) xs = xs"
proof -
  have "f a \<le> f (last xs)" if "a \<in> set xs" for a
  proof -
    from that obtain i where "i < length xs" and "xs ! i = a"
      by (auto simp: in_set_conv_nth)
    with assms(1) assms(2) show ?thesis
      using sorted_nth_mono [of "map f xs" i "length xs - 1"] by (simp add: last_conv_nth)
  qed
  with assms(3) show ?thesis by (force simp: takeWhile_eq_all_conv)
qed

lemma sorted_takeWhile_snoc_dropWhile:
  fixes d :: "'k::linorder"
  assumes "sorted (map f xs)" and "f p = d"
  shows "sorted (map f (takeWhile (\<lambda>a. f a \<le> d) xs @ p # dropWhile (\<lambda>a. f a \<le> d) xs))"
  using assms
proof (induction xs)
  case Nil
  then show ?case by simp
next
  case (Cons x xs)
  show ?case
  proof (cases "f x \<le> d")
    case True
    with Cons have "sorted (map f (takeWhile (\<lambda>a. f a \<le> d) xs @ p # dropWhile (\<lambda>a. f a \<le> d) xs))"
      by simp
    moreover have "\<forall>y\<in>set (takeWhile (\<lambda>a. f a \<le> d) xs @ p # dropWhile (\<lambda>a. f a \<le> d) xs). f x \<le> f y"
      using Cons.prems True by (auto dest: set_takeWhileD set_dropWhileD)
    ultimately show ?thesis using True by auto
  next
    case False
    with Cons.prems show ?thesis by (auto intro: order_trans)
  qed
qed

lemma set_takeWhile_dropWhile: "set (takeWhile P xs) \<union> set (dropWhile P xs) = set xs"
  by (metis set_append takeWhile_dropWhile_id)

lemma distinct_takeWhile_insert:
  "distinct xs \<Longrightarrow> p \<notin> set xs \<Longrightarrow> distinct (takeWhile P xs @ p # dropWhile P xs)"
  by (induction xs) (auto dest: set_takeWhileD set_dropWhileD)

lemma length_takeWhile_insert:
  "length (takeWhile P xs @ p # dropWhile P xs) = Suc (length xs)"
  by (induction xs) auto

lemma card_bounded_distinct:
  "distinct xs \<Longrightarrow> \<forall>a\<in>set xs. 0 < a \<and> a < (n::nat) \<Longrightarrow> length xs \<le> n"
proof -
  assume d: "distinct xs" and b: "\<forall>a\<in>set xs. 0 < a \<and> a < n"
  from b have "set xs \<subseteq> {..<n}" by auto
  then have "card (set xs) \<le> card {..<n}" by (intro card_mono) auto
  with d show ?thesis by (simp add: distinct_card)
qed

end
