(* ===== verification/Msg_Heap.thy ===== *)
theory Msg_Heap
  imports Base_Prelude
begin

text \<open>
  Messages and the memory they live in (\<open>inc/looper/Message.h\<close>, \<open>src/looper/Message.cpp\<close>).

  A \<open>Message\<close> of the source is a \<open>std::unique_ptr<Msg>\<close>; the model passes the raw pointer and
  makes ownership explicit: moving a pointer out of a field leaves \<open>0\<close> behind, assigning to a
  field deletes what the field owned before, and a message that goes out of scope is deleted
  (\<open>Msg_reset\<close>), which runs the destructor and then deletes the chain its \<open>mNext\<close> owns.
  Deleted cells are never reused, so a later access is the fault \<open>Dangling\<close>. Calls of
  user-supplied parameter deleters are recorded in \<open>calls\<close>.

  The second half is the theory of list segments in this memory (\<open>lseg\<close>) with its update lemmas.
\<close>

unbundle bit_operations_syntax

subsection \<open>The message object\<close>

record Msg =
  mWhat :: int
  mArg1 :: int
  mArg2 :: int
  mCallback :: ptr
  mHandleCallback :: ptr
  mTarget :: ptr
  mWhen :: "64 word"
  mFlags :: "32 word"
  mNext :: ptr
  mParam :: ptr
  mParamBytes :: "64 word"
  mParamFreeFunc :: ptr

definition FLAGINUSE :: "32 word" where
  "FLAGINUSE = push_bit 0 1"

definition FLAGASYNC :: "32 word" where
  "FLAGASYNC = push_bit 1 1"

definition Msg_new :: Msg where
  "Msg_new = \<lparr>mWhat = 0, mArg1 = 0, mArg2 = 0, mCallback = 0, mHandleCallback = 0,
     mTarget = 0, mWhen = 0, mFlags = 0, mNext = 0, mParam = 0, mParamBytes = 0,
     mParamFreeFunc = 0\<rparr>"

definition setParam :: "ptr \<Rightarrow> 64 word \<Rightarrow> ptr \<Rightarrow> Msg \<Rightarrow> Msg" where
  "setParam param bytes freeFn m =
     m\<lparr>mParam := param, mParamBytes := bytes, mParamFreeFunc := freeFn\<rparr>"

definition getParam :: "Msg \<Rightarrow> ptr" where
  "getParam m = mParam m"

definition ParamSize :: "Msg \<Rightarrow> 64 word" where
  "ParamSize m = mParamBytes m"

definition getParamDeleter :: "Msg \<Rightarrow> ptr" where
  "getParamDeleter m = mParamFreeFunc m"

definition isInUse :: "Msg \<Rightarrow> bool" where
  "isInUse m \<longleftrightarrow> mFlags m AND FLAGINUSE = FLAGINUSE"

definition makeInUse :: "Msg \<Rightarrow> Msg" where
  "makeInUse m = m\<lparr>mFlags := mFlags m OR FLAGINUSE\<rparr>"

text \<open>
  \<open>recycleUnchecked\<close> on the object: the fields it resets. \<open>mParam\<close> is cleared only in the
  branch that calls the deleter, and \<open>mNext\<close> is left alone.
\<close>

definition recycled :: "Msg \<Rightarrow> Msg" where
  "recycled m =
     (let m = (if mParamFreeFunc m \<noteq> 0 then m\<lparr>mParam := 0\<rparr> else m)
      in m\<lparr>mWhat := 0, mArg1 := 0, mArg2 := 0, mCallback := 0, mHandleCallback := 0,
           mTarget := 0, mWhen := 0, mFlags := 0, mParamBytes := 0, mParamFreeFunc := 0\<rparr>)"

definition recycle_calls :: "Msg \<Rightarrow> (ptr \<times> ptr \<times> 64 word) list" where
  "recycle_calls m =
     (if mParamFreeFunc m \<noteq> 0 then [(mParamFreeFunc m, mParam m, mParamBytes m)] else [])"

subsection \<open>Memory\<close>

record mem =
  cells :: "ptr \<Rightarrow> Msg option"
  brk :: ptr
  calls :: "(ptr \<times> ptr \<times> 64 word) list"

definition ld :: "ptr \<Rightarrow> 'a mem_scheme \<Rightarrow> Msg res" where
  "ld p w =
     (if p = 0 then Inl NullDeref
      else case cells w p of None \<Rightarrow> Inl Dangling | Some m \<Rightarrow> Inr m)"

definition put :: "ptr \<Rightarrow> Msg \<Rightarrow> 'a mem_scheme \<Rightarrow> 'a mem_scheme" where
  "put p m w = w\<lparr>cells := (cells w)(p := Some m)\<rparr>"

definition upd :: "ptr \<Rightarrow> (Msg \<Rightarrow> Msg) \<Rightarrow> 'a mem_scheme \<Rightarrow> 'a mem_scheme res" where
  "upd p f w = bnd (ld p w) (\<lambda>m. Inr (put p (f m) w))"

definition kill :: "ptr \<Rightarrow> 'a mem_scheme \<Rightarrow> 'a mem_scheme" where
  "kill p w = w\<lparr>cells := (cells w)(p := None)\<rparr>"

definition new_Msg :: "'a mem_scheme \<Rightarrow> ptr \<times> 'a mem_scheme" where
  "new_Msg w = (brk w, w\<lparr>cells := (cells w)(brk w := Some Msg_new), brk := Suc (brk w)\<rparr>)"

definition Msg_recycleUnchecked :: "ptr \<Rightarrow> 'a mem_scheme \<Rightarrow> 'a mem_scheme res" where
  "Msg_recycleUnchecked p w =
     bnd (ld p w) (\<lambda>m. Inr ((put p (recycled m) w)\<lparr>calls := calls w @ recycle_calls m\<rparr>))"

definition Msg_recycle :: "ptr \<Rightarrow> 'a mem_scheme \<Rightarrow> 'a mem_scheme res" where
  "Msg_recycle p w =
     bnd (ld p w) (\<lambda>m. if isInUse m then Inr w else Msg_recycleUnchecked p w)"

text \<open>
  \<open>delete p\<close>: the destructor body recycles the message, then the member \<open>mNext\<close> deletes the
  message it owns, and so on along the chain. Each step removes a live cell, so the number of
  allocated addresses bounds the recursion (\<open>Msg_reset_not_Diverge\<close> below).
\<close>

primrec del_chain :: "nat \<Rightarrow> ptr \<Rightarrow> 'a mem_scheme \<Rightarrow> 'a mem_scheme res" where
  "del_chain 0 p w = (if p = 0 then Inr w else Inl Diverge)"
| "del_chain (Suc n) p w =
     (if p = 0 then Inr w
      else bnd (Msg_recycleUnchecked p w) (\<lambda>w.
           bnd (ld p w) (\<lambda>m. del_chain n (mNext m) (kill p w))))"

definition Msg_reset :: "ptr \<Rightarrow> 'a mem_scheme \<Rightarrow> 'a mem_scheme res" where
  "Msg_reset p w = del_chain (Suc (brk w)) p w"

text \<open>\<open>p->mNext = std::move(v)\<close>: store, then delete what \<open>p->mNext\<close> owned.\<close>

definition set_next :: "ptr \<Rightarrow> ptr \<Rightarrow> 'a mem_scheme \<Rightarrow> 'a mem_scheme res" where
  "set_next p v w =
     bnd (ld p w) (\<lambda>m. Msg_reset (mNext m) (put p (m\<lparr>mNext := v\<rparr>) w))"

text \<open>\<open>std::move(p->mNext)\<close>: the value, with \<open>0\<close> left in the field.\<close>

definition take_next :: "ptr \<Rightarrow> 'a mem_scheme \<Rightarrow> (ptr \<times> 'a mem_scheme) res" where
  "take_next p w = bnd (ld p w) (\<lambda>m. Inr (mNext m, put p (m\<lparr>mNext := 0\<rparr>) w))"

subsection \<open>The object operations\<close>

lemma recycled_simps [simp]:
  "mWhat (recycled m) = 0" "mArg1 (recycled m) = 0" "mArg2 (recycled m) = 0"
  "mCallback (recycled m) = 0" "mHandleCallback (recycled m) = 0" "mTarget (recycled m) = 0"
  "mWhen (recycled m) = 0" "mFlags (recycled m) = 0" "mNext (recycled m) = mNext m"
  "mParamBytes (recycled m) = 0" "mParamFreeFunc (recycled m) = 0"
  "mParam (recycled m) = (if mParamFreeFunc m \<noteq> 0 then 0 else mParam m)"
  by (simp_all add: recycled_def Let_def)

lemma recycled_eq:
  "recycled m = Msg_new\<lparr>mNext := mNext m,
     mParam := (if mParamFreeFunc m \<noteq> 0 then 0 else mParam m)\<rparr>"
  by (simp add: Msg_new_def)

lemma recycled_recycled [simp]: "recycled (recycled m) = recycled m"
  by (simp add: Msg_new_def)

lemma recycle_calls_recycled [simp]: "recycle_calls (recycled m) = []"
  by (simp add: recycle_calls_def)

lemma isInUse_simps [simp]:
  "isInUse (makeInUse m)" "\<not> isInUse (recycled m)" "\<not> isInUse Msg_new"
  "isInUse (m\<lparr>mWhen := t\<rparr>) = isInUse m" "isInUse (m\<lparr>mNext := n\<rparr>) = isInUse m"
  "isInUse (m\<lparr>mTarget := n\<rparr>) = isInUse m"
proof -
  show "isInUse (makeInUse m)"
    by (simp add: isInUse_def makeInUse_def FLAGINUSE_def bit_eq_iff bit_simps)
qed (simp_all add: isInUse_def FLAGINUSE_def Msg_new_def)

lemma makeInUse_simps [simp]:
  "mNext (makeInUse m) = mNext m" "mTarget (makeInUse m) = mTarget m"
  "mWhen (makeInUse m) = mWhen m" "mWhat (makeInUse m) = mWhat m"
  by (simp_all add: makeInUse_def)

subsection \<open>Memory primitives\<close>

lemma ld_eq_Inr_iff: "ld p w = Inr m \<longleftrightarrow> p \<noteq> 0 \<and> cells w p = Some m"
  by (auto simp: ld_def split: option.splits)

lemma ld_Inr [simp, res_simps]: "p \<noteq> 0 \<Longrightarrow> cells w p = Some m \<Longrightarrow> ld p w = Inr m"
  by (simp add: ld_def)

lemma ld_0 [simp]: "ld 0 w = Inl NullDeref"
  by (simp add: ld_def)

lemma ld_None: "p \<noteq> 0 \<Longrightarrow> cells w p = None \<Longrightarrow> ld p w = Inl Dangling"
  by (simp add: ld_def)

lemma put_simps [simp]:
  "cells (put p m w) = (cells w)(p := Some m)" "brk (put p m w) = brk w"
  "calls (put p m w) = calls w"
  by (simp_all add: put_def)

lemma kill_simps [simp]:
  "cells (kill p w) = (cells w)(p := None)" "brk (kill p w) = brk w"
  "calls (kill p w) = calls w"
  by (simp_all add: kill_def)

lemma kill_put [simp]: "kill p (put p m w) = kill p w"
  by (simp add: kill_def put_def)

lemma kill_put_calls [simp]: "kill p ((put p m w)\<lparr>calls := x\<rparr>) = (kill p w)\<lparr>calls := x\<rparr>"
  by (simp add: kill_def put_def)

lemma put_put [simp]: "put p m (put p m' w) = put p m w"
  by (simp add: put_def)

lemma upd_Inr [simp, res_simps]:
  "p \<noteq> 0 \<Longrightarrow> cells w p = Some m \<Longrightarrow> upd p f w = Inr (put p (f m) w)"
  by (simp add: upd_def)

lemma Msg_recycleUnchecked_Inr:
  assumes "p \<noteq> 0" and "cells w p = Some m"
  shows "Msg_recycleUnchecked p w =
    Inr ((put p (recycled m) w)\<lparr>calls := calls w @ recycle_calls m\<rparr>)"
  using assms by (simp add: Msg_recycleUnchecked_def)

lemma Msg_reset_0 [simp]: "Msg_reset 0 w = Inr w"
  by (simp add: Msg_reset_def)

lemma del_chain_0 [simp]: "del_chain n 0 w = Inr w"
  by (cases n) simp_all

lemma Msg_reset_single:
  assumes "p \<noteq> 0" and "cells w p = Some m" and "mNext m = 0"
  shows "Msg_reset p w = Inr ((kill p w)\<lparr>calls := calls w @ recycle_calls m\<rparr>)"
  using assms
  by (simp add: Msg_reset_def Msg_recycleUnchecked_Inr)

lemma set_next_Inr:
  assumes "p \<noteq> 0" and "cells w p = Some m" and "mNext m = 0"
  shows "set_next p v w = Inr (put p (m\<lparr>mNext := v\<rparr>) w)"
  using assms by (simp add: set_next_def)

lemma take_next_Inr:
  assumes "p \<noteq> 0" and "cells w p = Some m"
  shows "take_next p w = Inr (mNext m, put p (m\<lparr>mNext := 0\<rparr>) w)"
  using assms by (simp add: take_next_def)

subsection \<open>List segments\<close>

text \<open>\<open>lseg c p as e\<close>: following \<open>mNext\<close> from \<open>p\<close> visits exactly \<open>as\<close> and arrives at \<open>e\<close>.\<close>

primrec lseg :: "(ptr \<Rightarrow> Msg option) \<Rightarrow> ptr \<Rightarrow> ptr list \<Rightarrow> ptr \<Rightarrow> bool" where
  "lseg c p [] e \<longleftrightarrow> p = e"
| "lseg c p (a # as) e \<longleftrightarrow>
     p = a \<and> a \<noteq> 0 \<and> (case c a of None \<Rightarrow> False | Some m \<Rightarrow> lseg c (mNext m) as e)"

abbreviation chain :: "(ptr \<Rightarrow> Msg option) \<Rightarrow> ptr \<Rightarrow> ptr list \<Rightarrow> bool" where
  "chain c p as \<equiv> lseg c p as 0"

lemma lseg_append: "lseg c p (as @ bs) e \<longleftrightarrow> (\<exists>x. lseg c p as x \<and> lseg c x bs e)"
  by (induction as arbitrary: p) (auto split: option.splits)

lemma lseg_cong: "(\<And>a. a \<in> set as \<Longrightarrow> c a = d a) \<Longrightarrow> lseg c p as e = lseg d p as e"
  by (induction as arbitrary: p) (auto split: option.splits)

lemma lseg_fun_upd [simp]: "x \<notin> set as \<Longrightarrow> lseg (c(x := v)) p as e = lseg c p as e"
  by (rule lseg_cong) auto

lemma chain_Null [simp]: "chain c 0 as \<longleftrightarrow> as = []"
  by (cases as) auto

lemma chain_not_Null: "p \<noteq> 0 \<Longrightarrow> chain c p as \<Longrightarrow> \<exists>bs. as = p # bs"
  by (cases as) auto

lemma lseg_live: "lseg c p as e \<Longrightarrow> a \<in> set as \<Longrightarrow> a \<noteq> 0 \<and> (\<exists>m. c a = Some m)"
  by (induction as arbitrary: p) (auto split: option.splits)

lemma chain_Nil_iff: "chain c p as \<Longrightarrow> p = 0 \<longleftrightarrow> as = []"
  by (cases as) auto

lemma chain_hd: "chain c p as \<Longrightarrow> as \<noteq> [] \<Longrightarrow> hd as = p"
  by (cases as) auto

lemma lseg_unique: "chain c p as \<Longrightarrow> chain c p bs \<Longrightarrow> as = bs"
proof (induction as arbitrary: p bs)
  case Nil
  then show ?case by simp
next
  case (Cons a as)
  then show ?case by (cases bs) (auto split: option.splits)
qed

text \<open>Splitting a chain at its last element, the shape every insertion and removal uses.\<close>

lemma chain_snocD:
  assumes "chain c p (as @ b # bs)"
  obtains m where "b \<noteq> 0" and "c b = Some m" and "lseg c p as b" and "chain c (mNext m) bs"
  using assms by (auto simp: lseg_append split: option.splits)

lemma chain_insert_after:
  assumes ch: "chain c h (as @ b # bs)" and d: "distinct (as @ b # bs)"
    and p: "p \<noteq> 0" "p \<notin> set (as @ b # bs)" and b: "c b = Some mb" and m: "mNext m = mNext mb"
  shows "chain (c(p := Some m, b := Some (mb\<lparr>mNext := p\<rparr>))) h (as @ b # p # bs)"
proof -
  from ch b have 1: "lseg c h as b" and 2: "chain c (mNext mb) bs" and 3: "b \<noteq> 0"
    by (auto simp: lseg_append)
  have "lseg (c(p := Some m, b := Some (mb\<lparr>mNext := p\<rparr>))) h as b"
    using 1 d p by (auto simp: fun_upd_twist)
  moreover have "chain (c(p := Some m, b := Some (mb\<lparr>mNext := p\<rparr>))) (mNext mb) bs"
    using 2 d p by simp
  ultimately show ?thesis
    using 3 p m by (auto simp: lseg_append)
qed

lemma chain_remove_after:
  assumes ch: "chain c h (as @ b # x # bs)" and d: "distinct (as @ b # x # bs)"
    and b: "c b = Some mb" and x: "c x = Some mx"
  shows "chain (c(b := Some (mb\<lparr>mNext := mNext mx\<rparr>))) h (as @ b # bs)"
proof -
  from ch b x have 1: "lseg c h as b" and 2: "chain c (mNext mx) bs" and 3: "b \<noteq> 0"
    by (auto simp: lseg_append)
  with d show ?thesis by (auto simp: lseg_append)
qed

text \<open>
  Deleting a whole chain frees exactly its cells and calls every parameter deleter once, in
  list order.
\<close>

lemma del_chain_chain:
  assumes "chain (cells w) p as" and "distinct as" and "length as \<le> n"
  shows "del_chain n p w =
    Inr (w\<lparr>cells := (\<lambda>a. if a \<in> set as then None else cells w a),
           calls := calls w @ concat (map (\<lambda>a. recycle_calls (the (cells w a))) as)\<rparr>)"
  using assms
proof (induction as arbitrary: p w n)
  case Nil
  then show ?case by simp
next
  case (Cons a as)
  from Cons.prems obtain m where m: "p = a" "a \<noteq> 0" "cells w a = Some m"
    and ch: "chain (cells w) (mNext m) as" and a: "a \<notin> set as" and d: "distinct as"
    by (auto split: option.splits)
  from Cons.prems(3) obtain k where k: "n = Suc k" "length as \<le> k" by (cases n) auto
  let ?w = "(kill a w)\<lparr>calls := calls w @ recycle_calls m\<rparr>"
  have step: "del_chain n p w = del_chain k (mNext m) ?w"
    using m k by (simp add: Msg_recycleUnchecked_Inr)
  have "chain (cells ?w) (mNext m) as" using ch a by simp
  note ih = Cons.IH [OF this d k(2)]
  have cs: "(\<lambda>x. if x \<in> set as then None else cells ?w x) =
      (\<lambda>x. if x \<in> set (a # as) then None else cells w x)"
    by (auto simp: fun_eq_iff)
  have ls: "map (\<lambda>x. recycle_calls (the (cells ?w x))) as =
      map (\<lambda>x. recycle_calls (the (cells w x))) as"
    using a by (intro map_cong) auto
  show ?case
    unfolding step ih cs ls using m by (simp add: kill_def)
qed

definition wf_mem :: "'a mem_scheme \<Rightarrow> bool" where
  "wf_mem w \<longleftrightarrow> 0 < brk w \<and> (\<forall>a. cells w a \<noteq> None \<longrightarrow> a < brk w)"

lemma del_chain_fuel:
  assumes "wf_mem w" and "card {a. a < brk w \<and> cells w a \<noteq> None} < n"
  shows "del_chain n p w \<noteq> Inl Diverge"
  using assms
proof (induction n arbitrary: p w)
  case 0
  then show ?case by simp
next
  case (Suc n)
  show ?case
  proof (cases "p \<noteq> 0 \<and> cells w p \<noteq> None")
    case False
    then show ?thesis by (auto simp: Msg_recycleUnchecked_def ld_def)
  next
    case True
    then obtain m where m: "p \<noteq> 0" "cells w p = Some m" by auto
    let ?w = "(kill p w)\<lparr>calls := calls w @ recycle_calls m\<rparr>"
    have step: "del_chain (Suc n) p w = del_chain n (mNext m) ?w"
      using m by (simp add: Msg_recycleUnchecked_Inr)
    have "{a. a < brk ?w \<and> cells ?w a \<noteq> None} = {a. a < brk w \<and> cells w a \<noteq> None} - {p}"
      by auto
    moreover have "p \<in> {a. a < brk w \<and> cells w a \<noteq> None}"
      using m Suc.prems(1) by (auto simp: wf_mem_def)
    ultimately have "card {a. a < brk ?w \<and> cells ?w a \<noteq> None}
        < card {a. a < brk w \<and> cells w a \<noteq> None}"
      by (simp only:) (rule card_Diff1_less, auto)
    with Suc.prems(2) have "card {a. a < brk ?w \<and> cells ?w a \<noteq> None} < n" by simp
    moreover have "wf_mem ?w" using Suc.prems(1) by (auto simp: wf_mem_def)
    ultimately show ?thesis unfolding step by (intro Suc.IH)
  qed
qed

lemma Msg_reset_not_Diverge: "wf_mem w \<Longrightarrow> Msg_reset p w \<noteq> Inl Diverge"
proof -
  assume w: "wf_mem w"
  have "card {a. a < brk w \<and> cells w a \<noteq> None} \<le> card {..<brk w}"
    by (intro card_mono) auto
  with w show ?thesis unfolding Msg_reset_def by (intro del_chain_fuel) auto
qed

end
