(* ===== verification/Msg_Queue.thy ===== *)
theory Msg_Queue
  imports Msg_Heap
begin

text \<open>
  The message queue (\<open>inc/looper/MessageQueue.h\<close>, \<open>src/looper/MessageQueue.cpp\<close>), operation by
  operation, on the pointer structure the code keeps: a list of waiting messages
  (\<open>mMsgQueueHead\<close>, \<open>mMsgQueueTail\<close>) and a pool of recycled ones (\<open>mMsgPool\<close>), both threaded
  through \<open>mNext\<close>.

  Each definition is the body of one critical section of \<open>mLock\<close> (and of \<open>mMsgPoolMutex\<close> inside
  it), so an interleaving of threads is a sequence of these steps. The condition variable
  \<open>mWait\<close> is the number of broadcasts so far: a waiter remembers the number it started from.
  Logging has no effect on the state and is left out.

  Walks along \<open>mNext\<close> take a bound on the number of nodes. The heap does not change during a
  walk, so a walk that outlives the number of allocated addresses revisits a node and never
  ends: that is the fault \<open>Diverge\<close>.
\<close>

record mqueue = mem +
  mName :: string
  mMsgQueueHead :: ptr
  mMsgQueueTail :: ptr
  mMsgQueueSize :: int
  mWait :: nat
  mMsgPool :: ptr
  mMsgPoolSize :: int
  mMsgPoolMaxSize :: int
  mMsgPoolIsFull :: bool
  mIdleHandlerFunc :: ptr
  mBlocked :: bool
  mQuit :: bool
  mNotEnqueMsg :: bool
  mOutTimeTest :: int

definition MsgQueue_new :: "string \<Rightarrow> int \<Rightarrow> mqueue" where
  "MsgQueue_new name MaxMsgPoolSize =
     \<lparr>cells = (\<lambda>_. None), brk = 1, calls = [],
      mName = name, mMsgQueueHead = 0, mMsgQueueTail = 0, mMsgQueueSize = 0, mWait = 0,
      mMsgPool = 0, mMsgPoolSize = 0, mMsgPoolMaxSize = MaxMsgPoolSize,
      mMsgPoolIsFull = False, mIdleHandlerFunc = 0, mBlocked = True, mQuit = False,
      mNotEnqueMsg = False, mOutTimeTest = 0\<rparr>"

definition setQueueName :: "string \<Rightarrow> 'a mqueue_scheme \<Rightarrow> 'a mqueue_scheme" where
  "setQueueName name q = q\<lparr>mName := name\<rparr>"

definition getQueueName :: "'a mqueue_scheme \<Rightarrow> string" where
  "getQueueName q = mName q"

definition notifyAll_mWait :: "'a mqueue_scheme \<Rightarrow> 'a mqueue_scheme" where
  "notifyAll_mWait q = q\<lparr>mWait := Suc (mWait q)\<rparr>"

subsection \<open>The message pool\<close>

definition recycleMsg :: "ptr \<Rightarrow> 'a mqueue_scheme \<Rightarrow> 'a mqueue_scheme res" where
  "recycleMsg msg q =
     bnd (Msg_recycleUnchecked msg q) (\<lambda>q.
       if mQuit q \<or> mMsgPoolSize q = mMsgPoolMaxSize q then Msg_reset msg q
       else
         bnd (set_next msg (mMsgPool q) (q\<lparr>mMsgPool := 0\<rparr>)) (\<lambda>q.
           let q = q\<lparr>mMsgPool := msg, mMsgPoolSize := mMsgPoolSize q + 1\<rparr>
           in Inr (if mMsgPoolSize q = mMsgPoolMaxSize q then q\<lparr>mMsgPoolIsFull := True\<rparr> else q)))"

definition obtain_pool :: "'a mqueue_scheme \<Rightarrow> (ptr \<times> 'a mqueue_scheme) res" where
  "obtain_pool q =
     (if mMsgPoolSize q > 0 \<and> mMsgPoolSize q \<le> mMsgPoolMaxSize q \<and> mMsgPool q \<noteq> 0
         \<and> mMsgPoolIsFull q
      then
        let ret = mMsgPool q in
        bnd (take_next ret (q\<lparr>mMsgPool := 0\<rparr>)) (\<lambda>(n, q).
          let q = q\<lparr>mMsgPool := n, mMsgPoolSize := mMsgPoolSize q - 1\<rparr>
          in Inr (ret, if mMsgPoolSize q = 0 then q\<lparr>mMsgPoolIsFull := False\<rparr> else q))
      else Inr (0, q))"

text \<open>
  \<open>while (p) { pre = std::move(p); p = std::move(pre->mNext); pre.reset(); }\<close>: messages are
  deleted one at a time, so the destructor never recurses along the list.
\<close>

primrec free_each :: "nat \<Rightarrow> ptr \<Rightarrow> 'a mqueue_scheme \<Rightarrow> 'a mqueue_scheme res" where
  "free_each 0 p q = (if p = 0 then Inr q else Inl Diverge)"
| "free_each (Suc n) p q =
     (if p = 0 then Inr q
      else bnd (take_next p q) (\<lambda>(nxt, q). bnd (Msg_reset p q) (\<lambda>q. free_each n nxt q)))"

definition clearMsgPool :: "'a mqueue_scheme \<Rightarrow> 'a mqueue_scheme res" where
  "clearMsgPool q =
     bnd (free_each (brk q) (mMsgPool q) (q\<lparr>mMsgPool := 0\<rparr>)) (\<lambda>q. Inr (q\<lparr>mMsgPoolSize := 0\<rparr>))"

definition MsgQueue_delete :: "'a mqueue_scheme \<Rightarrow> 'a mqueue_scheme res" where
  "MsgQueue_delete q =
     bnd (free_each (brk q) (mMsgQueueHead q) (q\<lparr>mMsgQueueHead := 0\<rparr>)) (\<lambda>q.
       let q = q\<lparr>mName := [], mMsgQueueSize := 0, mIdleHandlerFunc := 0, mBlocked := False,
                 mQuit := True, mNotEnqueMsg := False\<rparr>
       in bnd (clearMsgPool q) (\<lambda>q. Inr (q\<lparr>mMsgPoolMaxSize := 0, mMsgQueueTail := 0\<rparr>)))"

subsection \<open>Enqueueing\<close>

primrec enq_walk :: "nat \<Rightarrow> 64 word \<Rightarrow> ptr \<Rightarrow> 'a mqueue_scheme \<Rightarrow> ptr res" where
  "enq_walk 0 d h q = Inl Diverge"
| "enq_walk (Suc n) d h q =
     bnd (ld h q) (\<lambda>m.
       if mNext m = 0 then Inr h
       else bnd (ld (mNext m) q) (\<lambda>m'.
         if d < mWhen m' then Inr h else enq_walk n d (mNext m) q))"

text \<open>The three ways \<open>enqueueMessage\<close> links a message: at the head, after the tail, in between.\<close>

definition enqueue_front :: "ptr \<Rightarrow> 'a mqueue_scheme \<Rightarrow> 'a mqueue_scheme res" where
  "enqueue_front msg q =
     bnd (set_next msg (mMsgQueueHead q) (q\<lparr>mMsgQueueHead := 0\<rparr>)) (\<lambda>q.
       let q = q\<lparr>mMsgQueueHead := msg\<rparr>
       in Inr (if mMsgQueueTail q = 0 then q\<lparr>mMsgQueueTail := mMsgQueueHead q\<rparr> else q))"

definition enqueue_back :: "ptr \<Rightarrow> 'a mqueue_scheme \<Rightarrow> 'a mqueue_scheme res" where
  "enqueue_back msg q =
     bnd (set_next (mMsgQueueTail q) msg q) (\<lambda>q.
     bnd (ld (mMsgQueueTail q) q) (\<lambda>t. Inr (q\<lparr>mMsgQueueTail := mNext t\<rparr>)))"

definition enqueue_middle :: "64 word \<Rightarrow> ptr \<Rightarrow> 'a mqueue_scheme \<Rightarrow> 'a mqueue_scheme res" where
  "enqueue_middle delayDoneTime msg q =
     bnd (enq_walk (brk q) delayDoneTime (mMsgQueueHead q) q) (\<lambda>prev.
     bnd (take_next prev q) (\<lambda>(n, q).
     bnd (set_next msg n q) (\<lambda>q. set_next prev msg q)))"

definition enqueueMessage ::
  "ptr \<Rightarrow> 64 word \<Rightarrow> 'a mqueue_scheme \<Rightarrow> (bool \<times> 'a mqueue_scheme) res" where
  "enqueueMessage msg delayDoneTime q =
     bnd (ld msg q) (\<lambda>m.
       if mTarget m = 0 then bnd (Msg_reset msg q) (\<lambda>q. Inr (False, q))
       else if isInUse m then bnd (Msg_reset msg q) (\<lambda>q. Inr (False, q))
       else if mQuit q \<or> mNotEnqueMsg q then bnd (recycleMsg msg q) (\<lambda>q. Inr (False, q))
       else
         bnd (upd msg (\<lambda>m. (makeInUse m)\<lparr>mWhen := delayDoneTime\<rparr>) q) (\<lambda>q.
         bnd (if mMsgQueueHead q = 0 \<or> delayDoneTime = 0 then Inr True
              else bnd (ld (mMsgQueueHead q) q) (\<lambda>h. Inr (delayDoneTime < mWhen h))) (\<lambda>front.
         bnd (if front then enqueue_front msg q
              else
                bnd (if mMsgQueueTail q = 0 then Inr False
                     else bnd (ld (mMsgQueueTail q) q) (\<lambda>t. Inr (mWhen t \<le> delayDoneTime))) (\<lambda>back.
                if back then enqueue_back msg q else enqueue_middle delayDoneTime msg q)) (\<lambda>q.
         Inr (True, notifyAll_mWait
                (q\<lparr>mMsgQueueSize := mMsgQueueSize q + 1, mBlocked := False\<rparr>))))))"

subsection \<open>Searching\<close>

primrec has_walk ::
  "nat \<Rightarrow> (ptr \<Rightarrow> Msg \<Rightarrow> bool) \<Rightarrow> ptr \<Rightarrow> ptr \<Rightarrow> 'a mqueue_scheme \<Rightarrow> bool res" where
  "has_walk 0 match handler h q = (if h = 0 then Inr False else Inl Diverge)"
| "has_walk (Suc n) match handler h q =
     (if h = 0 then Inr False
      else bnd (ld h q) (\<lambda>m.
        if match h m \<and> (if handler \<noteq> 0 then mTarget m = handler else True) then Inr True
        else has_walk n match handler (mNext m) q))"

definition has_loop ::
  "(ptr \<Rightarrow> Msg \<Rightarrow> bool) \<Rightarrow> ptr \<Rightarrow> 'a mqueue_scheme \<Rightarrow> bool res" where
  "has_loop match handler q =
     (if mMsgQueueHead q = 0 then Inr False
      else has_walk (brk q) match handler (mMsgQueueHead q) q)"

definition hasMessage_msg :: "ptr \<Rightarrow> ptr \<Rightarrow> 'a mqueue_scheme \<Rightarrow> bool res" where
  "hasMessage_msg message handler q =
     bnd (ld message q) (\<lambda>m.
       if mTarget m = 0 then Inr False
       else has_loop (\<lambda>h _. h = message) handler q)"

definition hasMessage_runnable :: "ptr \<Rightarrow> ptr \<Rightarrow> 'a mqueue_scheme \<Rightarrow> bool res" where
  "hasMessage_runnable r handler q =
     (if r = 0 then Inr False else has_loop (\<lambda>_ m. mCallback m = r) handler q)"

definition hasMessage_what :: "int \<Rightarrow> ptr \<Rightarrow> 'a mqueue_scheme \<Rightarrow> bool res" where
  "hasMessage_what what handler q = has_loop (\<lambda>_ m. mWhat m = what) handler q"

definition hasMessage_callback :: "ptr \<Rightarrow> ptr \<Rightarrow> 'a mqueue_scheme \<Rightarrow> bool res" where
  "hasMessage_callback callback handler q =
     has_loop (\<lambda>_ m. mHandleCallback m = callback) handler q"

subsection \<open>Removing\<close>

text \<open>
  The macro \<open>RECYCLEMIDDLE(p, prev, handler)\<close> in its taking branch: unlink \<open>p\<close>, repair the
  tail, recycle. The other branch advances the walk and is part of \<open>remove_walk\<close>.
\<close>

definition RECYCLEMIDDLE :: "ptr \<Rightarrow> ptr \<Rightarrow> 'a mqueue_scheme \<Rightarrow> 'a mqueue_scheme res" where
  "RECYCLEMIDDLE p prev q =
     bnd (if prev = p then
            let msg = mMsgQueueHead q in
            bnd (take_next p (q\<lparr>mMsgQueueHead := 0\<rparr>)) (\<lambda>(n, q).
              let q = q\<lparr>mMsgQueueHead := n\<rparr>
              in Inr (msg, if mMsgQueueTail q = p then q\<lparr>mMsgQueueTail := mMsgQueueHead q\<rparr> else q))
          else
            bnd (take_next prev q) (\<lambda>(msg, q).
            bnd (take_next p q) (\<lambda>(n, q).
            bnd (set_next prev n q) (\<lambda>q.
              Inr (msg, if mMsgQueueTail q = p then q\<lparr>mMsgQueueTail := prev\<rparr> else q)))))
       (\<lambda>(msg, q). bnd (recycleMsg msg q) (\<lambda>q. Inr (q\<lparr>mMsgQueueSize := mMsgQueueSize q - 1\<rparr>)))"

primrec remove_walk ::
  "nat \<Rightarrow> (ptr \<Rightarrow> Msg \<Rightarrow> bool) \<Rightarrow> ptr \<Rightarrow> ptr \<Rightarrow> ptr \<Rightarrow> 'a mqueue_scheme \<Rightarrow> 'a mqueue_scheme res" where
  "remove_walk 0 match handler prev h q = (if h = 0 then Inr q else Inl Diverge)"
| "remove_walk (Suc n) match handler prev h q =
     (if h = 0 then Inr q
      else bnd (ld h q) (\<lambda>m.
        if match h m then
          if handler = 0 \<or> (handler \<noteq> 0 \<and> mTarget m = handler) then RECYCLEMIDDLE h prev q
          else remove_walk n match handler h (mNext m) q
        else remove_walk n match handler h (mNext m) q))"

definition remove_loop ::
  "(ptr \<Rightarrow> Msg \<Rightarrow> bool) \<Rightarrow> ptr \<Rightarrow> 'a mqueue_scheme \<Rightarrow> 'a mqueue_scheme res" where
  "remove_loop match handler q =
     (if mMsgQueueHead q = 0 then Inr q
      else remove_walk (brk q) match handler (mMsgQueueHead q) (mMsgQueueHead q) q)"

definition removeMessage_msg :: "ptr \<Rightarrow> ptr \<Rightarrow> 'a mqueue_scheme \<Rightarrow> 'a mqueue_scheme res" where
  "removeMessage_msg message handler q =
     (if message = 0 then Inr q
      else if mMsgQueueHead q = 0 then recycleMsg message q
      else bnd (remove_loop (\<lambda>h _. h = message) handler q) (Msg_reset message))"

definition removeMessage_runnable :: "ptr \<Rightarrow> ptr \<Rightarrow> 'a mqueue_scheme \<Rightarrow> 'a mqueue_scheme res" where
  "removeMessage_runnable r handler q =
     (if r = 0 then Inr q else remove_loop (\<lambda>_ m. mCallback m = r) handler q)"

definition removeMessage_what :: "int \<Rightarrow> ptr \<Rightarrow> 'a mqueue_scheme \<Rightarrow> 'a mqueue_scheme res" where
  "removeMessage_what what handler q = remove_loop (\<lambda>_ m. mWhat m = what) handler q"

definition removeMessage_range_runnable ::
  "int \<Rightarrow> int \<Rightarrow> ptr \<Rightarrow> ptr \<Rightarrow> 'a mqueue_scheme \<Rightarrow> 'a mqueue_scheme res" where
  "removeMessage_range_runnable minWhat maxWhat r handler q =
     remove_loop (\<lambda>_ m. mWhat m \<ge> minWhat \<and> mWhat m \<le> maxWhat \<and> mCallback m = r) handler q"

definition removeMessage_args_runnable ::
  "int \<Rightarrow> int \<Rightarrow> int \<Rightarrow> ptr \<Rightarrow> ptr \<Rightarrow> 'a mqueue_scheme \<Rightarrow> 'a mqueue_scheme res" where
  "removeMessage_args_runnable what arg1 arg2 r handler q =
     remove_loop (\<lambda>_ m. mWhat m = what \<and> mArg1 m = arg1 \<and> mArg2 m = arg2 \<and> mCallback m = r)
       handler q"

definition removeMessage_callback :: "ptr \<Rightarrow> ptr \<Rightarrow> 'a mqueue_scheme \<Rightarrow> 'a mqueue_scheme res" where
  "removeMessage_callback callback handler q =
     remove_loop (\<lambda>_ m. mHandleCallback m = callback) handler q"

definition removeMessage_what_callback ::
  "int \<Rightarrow> ptr \<Rightarrow> ptr \<Rightarrow> 'a mqueue_scheme \<Rightarrow> 'a mqueue_scheme res" where
  "removeMessage_what_callback what callback handler q =
     remove_loop (\<lambda>_ m. mWhat m = what \<and> mHandleCallback m = callback) handler q"

definition removeMessage_range_callback ::
  "int \<Rightarrow> int \<Rightarrow> ptr \<Rightarrow> ptr \<Rightarrow> 'a mqueue_scheme \<Rightarrow> 'a mqueue_scheme res" where
  "removeMessage_range_callback minWhat maxWhat callback handler q =
     remove_loop (\<lambda>_ m. (mWhat m \<ge> minWhat \<and> mWhat m \<le> maxWhat) \<and> mHandleCallback m = callback)
       handler q"

definition removeMessage_args_callback ::
  "int \<Rightarrow> int \<Rightarrow> int \<Rightarrow> ptr \<Rightarrow> ptr \<Rightarrow> 'a mqueue_scheme \<Rightarrow> 'a mqueue_scheme res" where
  "removeMessage_args_callback what arg1 arg2 callback handler q =
     remove_loop
       (\<lambda>_ m. mWhat m = what \<and> mArg1 m = arg1 \<and> mArg2 m = arg2 \<and> mHandleCallback m = callback)
       handler q"

text \<open>
  \<open>removeAllMessages\<close>. With a handler, the loop keeps the raw pointers \<open>h\<close> and \<open>prev\<close> across the
  recycling of \<open>h\<close>, and continues from \<open>prev->mNext\<close>. Without a handler, it moves
  \<open>mMsgQueueHead\<close> into \<open>msg\<close> and then reads \<open>mMsgQueueHead->mNext\<close>.
\<close>

primrec removeAll_handler ::
  "nat \<Rightarrow> ptr \<Rightarrow> ptr \<Rightarrow> ptr \<Rightarrow> 'a mqueue_scheme \<Rightarrow> 'a mqueue_scheme res" where
  "removeAll_handler 0 handler prev h q = (if h = 0 then Inr q else Inl Diverge)"
| "removeAll_handler (Suc n) handler prev h q =
     (if h = 0 then Inr q
      else bnd (ld h q) (\<lambda>m.
        if mTarget m = handler then
          bnd (if h = mMsgQueueHead q then
                 let msg = mMsgQueueHead q in
                 bnd (take_next msg (q\<lparr>mMsgQueueHead := 0\<rparr>)) (\<lambda>(n, q).
                   Inr (msg, q\<lparr>mMsgQueueHead := n\<rparr>))
               else
                 bnd (take_next prev q) (\<lambda>(msg, q).
                 bnd (take_next h q) (\<lambda>(n, q).
                 bnd (set_next prev n q) (\<lambda>q. Inr (msg, q))))) (\<lambda>(msg, q).
          bnd (recycleMsg msg q) (\<lambda>q.
            let q = q\<lparr>mMsgQueueSize := mMsgQueueSize q - 1\<rparr>;
                q = (if h = mMsgQueueTail q
                     then q\<lparr>mMsgQueueTail := (if prev = h then 0 else prev)\<rparr> else q)
            in if prev \<noteq> 0
               then bnd (ld prev q) (\<lambda>pm. removeAll_handler n handler prev (mNext pm) q)
               else removeAll_handler n handler prev (mMsgQueueHead q) q))
        else removeAll_handler n handler h (mNext m) q))"

primrec removeAll_any :: "nat \<Rightarrow> 'a mqueue_scheme \<Rightarrow> 'a mqueue_scheme res" where
  "removeAll_any 0 q = (if mMsgQueueHead q = 0 then Inr q else Inl Diverge)"
| "removeAll_any (Suc n) q =
     (if mMsgQueueHead q = 0 then Inr q
      else
        let msg = mMsgQueueHead q; q = q\<lparr>mMsgQueueHead := 0\<rparr> in
        bnd (take_next (mMsgQueueHead q) q) (\<lambda>(nxt, q).
        let q = q\<lparr>mMsgQueueHead := nxt\<rparr> in
        bnd (recycleMsg msg q) (\<lambda>q.
        let q = q\<lparr>mMsgQueueSize := mMsgQueueSize q - 1\<rparr>;
            q = (if mMsgQueueSize q = 0 then q\<lparr>mMsgQueueTail := 0\<rparr> else q)
        in removeAll_any n q)))"

definition removeAllMessages :: "ptr \<Rightarrow> 'a mqueue_scheme \<Rightarrow> 'a mqueue_scheme res" where
  "removeAllMessages handler q =
     (if mMsgQueueHead q = 0 then Inr q
      else if handler \<noteq> 0
      then removeAll_handler (2 * brk q) handler (mMsgQueueHead q) (mMsgQueueHead q) q
      else removeAll_any (brk q) q)"

subsection \<open>State queries, quitting\<close>

definition isIdle :: "64 word \<Rightarrow> 'a mqueue_scheme \<Rightarrow> bool res" where
  "isIdle now q =
     (if mMsgQueueHead q = 0 then Inr True
      else bnd (ld (mMsgQueueHead q) q) (\<lambda>h. Inr (now < mWhen h)))"

definition getQueueSize :: "'a mqueue_scheme \<Rightarrow> int" where
  "getQueueSize q = mMsgQueueSize q"

definition getMsgPoolSize :: "'a mqueue_scheme \<Rightarrow> int" where
  "getMsgPoolSize q = mMsgPoolSize q"

definition quit :: "bool \<Rightarrow> 'a mqueue_scheme \<Rightarrow> 'a mqueue_scheme res" where
  "quit safely q =
     (if mQuit q then Inr q
      else if safely then Inr (notifyAll_mWait (q\<lparr>mNotEnqueMsg := True, mBlocked := False\<rparr>))
      else
        bnd (free_each (brk q) (mMsgQueueHead q) (q\<lparr>mMsgQueueHead := 0\<rparr>)) (\<lambda>q.
          Inr (notifyAll_mWait (q\<lparr>mMsgQueueTail := 0, mQuit := True, mBlocked := False\<rparr>))))"

definition setTestOutTimeMillisExit :: "int \<Rightarrow> 'a mqueue_scheme \<Rightarrow> 'a mqueue_scheme" where
  "setTestOutTimeMillisExit t q = q\<lparr>mOutTimeTest := t\<rparr>"

definition addIdleHandler :: "ptr \<Rightarrow> 'a mqueue_scheme \<Rightarrow> 'a mqueue_scheme" where
  "addIdleHandler handler q = q\<lparr>mIdleHandlerFunc := handler\<rparr>"

definition removeIdleHandler :: "'a mqueue_scheme \<Rightarrow> 'a mqueue_scheme" where
  "removeIdleHandler q = q\<lparr>mIdleHandlerFunc := 0\<rparr>"

text \<open>The two dump functions print one line per node; the model returns the printed fields.\<close>

primrec dump_walk ::
  "nat \<Rightarrow> ptr \<Rightarrow> 'a mqueue_scheme \<Rightarrow> (ptr \<times> int \<times> 64 word \<times> bool) list res" where
  "dump_walk 0 p q = (if p = 0 then Inr [] else Inl Diverge)"
| "dump_walk (Suc n) p q =
     (if p = 0 then Inr []
      else bnd (ld p q) (\<lambda>m.
        bnd (dump_walk n (mNext m) q) (\<lambda>rest. Inr ((p, mWhat m, mWhen m, isInUse m) # rest))))"

definition dumpQueueList ::
  "'a mqueue_scheme \<Rightarrow> (ptr \<times> int \<times> 64 word \<times> bool) list res" where
  "dumpQueueList q = dump_walk (brk q) (mMsgQueueHead q) q"

definition dumpQueuePool ::
  "'a mqueue_scheme \<Rightarrow> (ptr \<times> int \<times> 64 word \<times> bool) list res" where
  "dumpQueuePool q = dump_walk (brk q) (mMsgPool q) q"

subsection \<open>Taking the next message\<close>

text \<open>
  One turn of the loop of \<open>next\<close>, cut where the lock is released. \<open>next_begin\<close> is the entry of
  the critical section up to the wait; \<open>next_timed\<close> what follows a timed wait; \<open>next_scan\<close> the
  look at the head. The argument \<open>t\<close> is \<open>nextPollMsgTimeoutMillis\<close>. \<open>prev\<close> is null throughout in
  the code, so only the branch that takes the head exists.
\<close>

datatype next_ctl =
    NQuit
  | NWait
  | NPass int
  | NTimed int

definition next_begin :: "int \<Rightarrow> 'a mqueue_scheme \<Rightarrow> next_ctl" where
  "next_begin t q =
     (if mQuit q then NQuit
      else
        let t = (if mNotEnqueMsg q then 0 else t) in
        if t = -1 then (if mBlocked q then NWait else NPass t) else NTimed t)"

datatype next_out =
    NReturn ptr
  | NAgain int

definition next_scan ::
  "64 word \<Rightarrow> int \<Rightarrow> 'a mqueue_scheme \<Rightarrow> (next_out \<times> 'a mqueue_scheme) res" where
  "next_scan now t q =
     (if mMsgQueueHead q \<noteq> 0 then
        bnd (ld (mMsgQueueHead q) q) (\<lambda>h.
          if mWhen h \<le> now then
            let ret = mMsgQueueHead q in
            bnd (take_next ret (q\<lparr>mMsgQueueHead := 0\<rparr>)) (\<lambda>(n, q).
              let q = q\<lparr>mMsgQueueHead := n\<rparr>;
                  q = (if mMsgQueueHead q = 0 then q\<lparr>mMsgQueueTail := 0\<rparr> else q);
                  q = q\<lparr>mMsgQueueSize := mMsgQueueSize q - 1\<rparr>
              in Inr (NReturn ret, q))
          else Inr (NAgain (sint (mWhen h - now)), q))
      else if mQuit q \<or> mNotEnqueMsg q then Inr (NReturn 0, q)
      else if mOutTimeTest q > 0 then Inr (NAgain (mOutTimeTest q), q)
      else Inr (NAgain (-1), q\<lparr>mBlocked := True\<rparr>))"

definition next_timed ::
  "64 word \<Rightarrow> int \<Rightarrow> 'a mqueue_scheme \<Rightarrow> (next_out \<times> 'a mqueue_scheme) res" where
  "next_timed now t q =
     (if mOutTimeTest q > 0 \<and> t = mOutTimeTest q then Inr (NReturn 0, q)
      else next_scan now t q)"

end
