(* ===== verification/Msg_Queue_Inv.thy ===== *)
theory Msg_Queue_Inv
  imports Msg_Queue
begin

text \<open>
  What the pointer structure of the message queue represents, and that every operation keeps it.

  \<open>queue_rel q qs ps\<close> says that the queue list is exactly \<open>qs\<close> and the pool exactly \<open>ps\<close>, that
  they do not share a cell, that tail, sizes and flags agree with the lists, and that the
  waiting messages are ordered by time. \<open>msg_at\<close> is the content of a cell without its link, so
  that one equation on \<open>msg_at\<close> states everything an operation does to message contents and
  everything it leaves alone. Each operation has one refinement lemma: under \<open>queue_rel\<close> it does
  not fault and its effect on \<open>qs\<close>, \<open>ps\<close> and \<open>msg_at\<close> is a list operation.
\<close>

subsection \<open>Contents without links\<close>

definition strip :: "Msg \<Rightarrow> Msg" where
  "strip m = m\<lparr>mNext := 0\<rparr>"

definition msg_at :: "'a mem_scheme \<Rightarrow> ptr \<Rightarrow> Msg option" where
  "msg_at w a = map_option strip (cells w a)"

definition qwhen :: "'a mem_scheme \<Rightarrow> ptr \<Rightarrow> 64 word" where
  "qwhen w a = (case msg_at w a of None \<Rightarrow> 0 | Some m \<Rightarrow> mWhen m)"

lemma strip_simps [simp]:
  "mWhat (strip m) = mWhat m" "mArg1 (strip m) = mArg1 m" "mArg2 (strip m) = mArg2 m"
  "mCallback (strip m) = mCallback m" "mHandleCallback (strip m) = mHandleCallback m"
  "mTarget (strip m) = mTarget m" "mWhen (strip m) = mWhen m" "mFlags (strip m) = mFlags m"
  "mNext (strip m) = 0" "mParam (strip m) = mParam m" "mParamBytes (strip m) = mParamBytes m"
  "mParamFreeFunc (strip m) = mParamFreeFunc m"
  "strip (m\<lparr>mNext := n\<rparr>) = strip m" "strip (strip m) = strip m"
  "isInUse (strip m) = isInUse m" "recycle_calls (strip m) = recycle_calls m"
  by (simp_all add: strip_def isInUse_def recycle_calls_def)

lemma strip_recycled: "strip (recycled m) = recycled (strip m)"
  by (simp add: strip_def recycled_def Let_def)

lemma msg_at_eq_None [simp]: "msg_at w a = None \<longleftrightarrow> cells w a = None"
  by (simp add: msg_at_def)

lemma msg_at_Some: "cells w a = Some m \<Longrightarrow> msg_at w a = Some (strip m)"
  by (simp add: msg_at_def)

lemma msg_at_put [simp]: "msg_at (put p m w) = (msg_at w)(p := Some (strip m))"
  by (rule ext) (simp add: msg_at_def)

lemma msg_at_kill [simp]: "msg_at (kill p w) = (msg_at w)(p := None)"
  by (rule ext) (simp add: msg_at_def)

lemma msg_at_cong: "cells w = cells w' \<Longrightarrow> msg_at w = msg_at w'"
  by (rule ext) (simp add: msg_at_def)

lemma qwhen_cell: "cells w a = Some m \<Longrightarrow> qwhen w a = mWhen m"
  by (simp add: qwhen_def msg_at_def)

lemma qwhen_cong: "msg_at w a = msg_at w' a \<Longrightarrow> qwhen w a = qwhen w' a"
  by (simp add: qwhen_def)

lemma map_qwhen_upd:
  assumes "msg_at w' = (msg_at w)(p := x)" and "p \<notin> set as"
  shows "map (qwhen w') as = map (qwhen w) as"
  using assms by (auto simp: qwhen_def)

lemma put_mqueue_simps [simp]:
  fixes q :: "'a mqueue_scheme"
  shows "mMsgQueueHead (put p m q) = mMsgQueueHead q" "mMsgQueueTail (put p m q) = mMsgQueueTail q"
    "mMsgQueueSize (put p m q) = mMsgQueueSize q" "mWait (put p m q) = mWait q"
    "mMsgPool (put p m q) = mMsgPool q" "mMsgPoolSize (put p m q) = mMsgPoolSize q"
    "mMsgPoolMaxSize (put p m q) = mMsgPoolMaxSize q" "mMsgPoolIsFull (put p m q) = mMsgPoolIsFull q"
    "mBlocked (put p m q) = mBlocked q" "mQuit (put p m q) = mQuit q"
    "mNotEnqueMsg (put p m q) = mNotEnqueMsg q" "mOutTimeTest (put p m q) = mOutTimeTest q"
    "mIdleHandlerFunc (put p m q) = mIdleHandlerFunc q" "mName (put p m q) = mName q"
  by (simp_all add: put_def)

lemma notifyAll_mWait_simps [simp]:
  "cells (notifyAll_mWait q) = cells q" "brk (notifyAll_mWait q) = brk q"
  "calls (notifyAll_mWait q) = calls q" "mMsgQueueHead (notifyAll_mWait q) = mMsgQueueHead q"
  "mMsgQueueTail (notifyAll_mWait q) = mMsgQueueTail q"
  "mMsgQueueSize (notifyAll_mWait q) = mMsgQueueSize q" "mWait (notifyAll_mWait q) = Suc (mWait q)"
  "mMsgPool (notifyAll_mWait q) = mMsgPool q" "mMsgPoolSize (notifyAll_mWait q) = mMsgPoolSize q"
  "mMsgPoolMaxSize (notifyAll_mWait q) = mMsgPoolMaxSize q"
  "mMsgPoolIsFull (notifyAll_mWait q) = mMsgPoolIsFull q"
  "mBlocked (notifyAll_mWait q) = mBlocked q" "mQuit (notifyAll_mWait q) = mQuit q"
  "mNotEnqueMsg (notifyAll_mWait q) = mNotEnqueMsg q"
  "mOutTimeTest (notifyAll_mWait q) = mOutTimeTest q"
  by (simp_all add: notifyAll_mWait_def)

lemma kill_mqueue_simps [simp]:
  fixes q :: "'a mqueue_scheme"
  shows "mMsgQueueHead (kill p q) = mMsgQueueHead q" "mMsgQueueTail (kill p q) = mMsgQueueTail q"
    "mMsgQueueSize (kill p q) = mMsgQueueSize q" "mWait (kill p q) = mWait q"
    "mMsgPool (kill p q) = mMsgPool q" "mMsgPoolSize (kill p q) = mMsgPoolSize q"
    "mMsgPoolMaxSize (kill p q) = mMsgPoolMaxSize q" "mMsgPoolIsFull (kill p q) = mMsgPoolIsFull q"
    "mBlocked (kill p q) = mBlocked q" "mQuit (kill p q) = mQuit q"
    "mNotEnqueMsg (kill p q) = mNotEnqueMsg q" "mOutTimeTest (kill p q) = mOutTimeTest q"
    "mIdleHandlerFunc (kill p q) = mIdleHandlerFunc q" "mName (kill p q) = mName q"
  by (simp_all add: kill_def)

subsection \<open>The representation relation\<close>

definition queue_shape :: "'a mqueue_scheme \<Rightarrow> ptr list \<Rightarrow> ptr list \<Rightarrow> bool" where
  "queue_shape q qs ps \<longleftrightarrow>
     wf_mem q \<and>
     chain (cells q) (mMsgQueueHead q) qs \<and>
     chain (cells q) (mMsgPool q) ps \<and>
     distinct (qs @ ps) \<and>
     mMsgQueueTail q = (if qs = [] then 0 else last qs) \<and>
     (mQuit q \<longrightarrow> qs = []) \<and>
     mMsgPoolSize q = int (length ps) \<and>
     (0 \<le> mMsgPoolMaxSize q \<longrightarrow> mMsgPoolSize q \<le> mMsgPoolMaxSize q) \<and>
     (mBlocked q \<longrightarrow> qs = [] \<and> \<not> mQuit q \<and> \<not> mNotEnqueMsg q) \<and>
     (\<forall>a\<in>set qs. \<exists>m. msg_at q a = Some m \<and> isInUse m \<and> mTarget m \<noteq> 0) \<and>
     (\<forall>a\<in>set ps. \<exists>m. msg_at q a = Some m \<and> recycled m = m) \<and>
     sorted (map (qwhen q) qs)"

text \<open>
  \<open>queue_shape\<close> leaves \<open>mMsgQueueSize\<close> out, since removals recycle the message before they
  decrement it; \<open>quit\<close> without \<open>safely\<close> never resets it, so it counts the list only until then.
\<close>

definition queue_rel :: "'a mqueue_scheme \<Rightarrow> ptr list \<Rightarrow> ptr list \<Rightarrow> bool" where
  "queue_rel q qs ps \<longleftrightarrow>
     queue_shape q qs ps \<and> (\<not> mQuit q \<longrightarrow> mMsgQueueSize q = int (length qs))"

lemma queue_rel_shape: "queue_rel q qs ps \<Longrightarrow> queue_shape q qs ps"
  by (simp add: queue_rel_def)

lemma queue_rel_MsgQueue_new: "0 \<le> n \<Longrightarrow> queue_rel (MsgQueue_new name n) [] []"
  by (simp add: queue_rel_def queue_shape_def MsgQueue_new_def wf_mem_def)

lemma msg_at_mqueue_simps [simp]:
  fixes q :: "'a mqueue_scheme"
  shows "msg_at (q\<lparr>mMsgQueueSize := n\<rparr>) = msg_at q" "msg_at (q\<lparr>mBlocked := b\<rparr>) = msg_at q"
    "msg_at (notifyAll_mWait q) = msg_at q" "msg_at (q\<lparr>mQuit := b\<rparr>) = msg_at q"
    "msg_at (q\<lparr>mNotEnqueMsg := b\<rparr>) = msg_at q"
    "qwhen (q\<lparr>mMsgQueueSize := n\<rparr>) = qwhen q" "qwhen (q\<lparr>mBlocked := b\<rparr>) = qwhen q"
    "qwhen (notifyAll_mWait q) = qwhen q" "qwhen (q\<lparr>mQuit := b\<rparr>) = qwhen q"
    "qwhen (q\<lparr>mNotEnqueMsg := b\<rparr>) = qwhen q"
  by (auto simp: fun_eq_iff qwhen_def msg_at_def)

lemma queue_shape_size [simp]: "queue_shape (q\<lparr>mMsgQueueSize := n\<rparr>) qs ps = queue_shape q qs ps"
  by (simp add: queue_shape_def wf_mem_def)

lemma queue_shape_live:
  "queue_shape q qs ps \<Longrightarrow> a \<in> set qs \<union> set ps \<Longrightarrow>
    a \<noteq> 0 \<and> a < brk q \<and> (\<exists>m. cells q a = Some m)"
  unfolding queue_shape_def wf_mem_def by (metis Un_iff lseg_live option.distinct(1))

lemma queue_shape_length:
  assumes "queue_shape q qs ps"
  shows "length qs + length ps \<le> brk q"
proof -
  have "length (qs @ ps) \<le> brk q"
    using assms queue_shape_live [OF assms]
    by (intro card_bounded_distinct) (auto simp: queue_shape_def)
  then show ?thesis by simp
qed

text \<open>The fields that only some operations change, to state frames compactly.\<close>

definition ctl :: "'a mqueue_scheme \<Rightarrow> bool \<times> bool \<times> bool \<times> nat \<times> int \<times> int \<times> ptr" where
  "ctl q = (mQuit q, mNotEnqueMsg q, mBlocked q, mWait q, mOutTimeTest q, mMsgPoolMaxSize q, brk q)"

lemma ctl_eq_iff [simp]:
  "ctl q = ctl r \<longleftrightarrow>
     mQuit q = mQuit r \<and> mNotEnqueMsg q = mNotEnqueMsg r \<and> mBlocked q = mBlocked r \<and>
     mWait q = mWait r \<and> mOutTimeTest q = mOutTimeTest r \<and>
     mMsgPoolMaxSize q = mMsgPoolMaxSize r \<and> brk q = brk r"
  by (simp add: ctl_def)

text \<open>A message a client may hand over: a live cell outside both lists that owns no successor.\<close>

definition loose :: "'a mqueue_scheme \<Rightarrow> ptr list \<Rightarrow> ptr list \<Rightarrow> ptr \<Rightarrow> Msg \<Rightarrow> bool" where
  "loose q qs ps p m \<longleftrightarrow>
     p \<noteq> 0 \<and> cells q p = Some m \<and> mNext m = 0 \<and> p \<notin> set qs \<and> p \<notin> set ps"

text \<open>Where a message is inserted: before everything at time 0, otherwise after its equals.\<close>

definition ins_msg :: "(ptr \<Rightarrow> 64 word) \<Rightarrow> 64 word \<Rightarrow> ptr \<Rightarrow> ptr list \<Rightarrow> ptr list" where
  "ins_msg f d p xs =
     (if d = 0 then p # xs
      else takeWhile (\<lambda>a. f a \<le> d) xs @ p # dropWhile (\<lambda>a. f a \<le> d) xs)"

lemma set_ins_msg [simp]: "set (ins_msg f d p xs) = insert p (set xs)"
  unfolding ins_msg_def by simp (metis Un_insert_right set_takeWhile_dropWhile)

lemma length_ins_msg [simp]: "length (ins_msg f d p xs) = Suc (length xs)"
  unfolding ins_msg_def using length_takeWhile_insert by auto

lemma ins_msg_not_Nil [simp]: "ins_msg f d p xs \<noteq> []"
  by (simp add: ins_msg_def)

lemma distinct_ins_msg: "distinct xs \<Longrightarrow> p \<notin> set xs \<Longrightarrow> distinct (ins_msg f d p xs)"
  using distinct_takeWhile_insert [of xs p "\<lambda>a. f a \<le> d"] by (simp add: ins_msg_def)

lemma ins_msg_cong: "(\<And>a. a \<in> set xs \<Longrightarrow> f a = g a) \<Longrightarrow> ins_msg f d p xs = ins_msg g d p xs"
  unfolding ins_msg_def by (simp cong: takeWhile_cong dropWhile_cong)

lemma sorted_ins_msg:
  assumes "sorted (map f xs)" and "f p = d"
  shows "sorted (map f (ins_msg f d p xs))"
proof (cases "d = 0")
  case True
  with assms show ?thesis by (simp add: ins_msg_def)
next
  case False
  then show ?thesis
    using sorted_takeWhile_snoc_dropWhile [OF assms] by (simp add: ins_msg_def)
qed

subsection \<open>Recycling\<close>

text \<open>Cells outside \<open>A\<close> are untouched, links included: what clients own is framed by this.\<close>

definition frame :: "ptr set \<Rightarrow> 'a mem_scheme \<Rightarrow> 'a mem_scheme \<Rightarrow> bool" where
  "frame A w w' \<longleftrightarrow> (\<forall>a. a \<notin> A \<longrightarrow> cells w' a = cells w a)"

lemma frame_refl [simp]: "frame A w w"
  by (simp add: frame_def)

definition pools :: "'a mqueue_scheme \<Rightarrow> bool" where
  "pools q \<longleftrightarrow> \<not> mQuit q \<and> mMsgPoolSize q \<noteq> mMsgPoolMaxSize q"

lemma queue_shape_delete:
  assumes rel: "queue_shape q qs ps" and p: "p \<notin> set qs" "p \<notin> set ps"
  shows "queue_shape ((kill p q)\<lparr>calls := c\<rparr>) qs ps"
    and "msg_at ((kill p q)\<lparr>calls := c\<rparr>) = (msg_at q)(p := None)"
proof -
  let ?r = "(kill p q)\<lparr>calls := c\<rparr>"
  show m: "msg_at ?r = (msg_at q)(p := None)"
    using msg_at_kill [of p q] msg_at_cong [of ?r "kill p q"] by simp
  note qw = map_qwhen_upd [OF m p(1)]
  show "queue_shape ?r qs ps"
    using rel p m unfolding queue_shape_def qw by (auto simp: wf_mem_def)
qed

lemma recycleMsg_ok:
  assumes rel: "queue_shape q qs ps" and l: "loose q qs ps p m"
  shows "\<exists>q'. recycleMsg p q = Inr q' \<and>
    queue_shape q' qs (if pools q then p # ps else ps) \<and>
    msg_at q' = (msg_at q)(p := if pools q then Some (recycled (strip m)) else None) \<and>
    calls q' = calls q @ recycle_calls m \<and> ctl q' = ctl q \<and> mMsgQueueSize q' = mMsgQueueSize q \<and>
    frame {p} q q'"
proof -
  from l have p: "p \<noteq> 0" "cells q p = Some m" "mNext m = 0" "p \<notin> set qs" "p \<notin> set ps"
    by (auto simp: loose_def)
  let ?q = "(put p (recycled m) q)\<lparr>calls := calls q @ recycle_calls m\<rparr>"
  have r: "Msg_recycleUnchecked p q = Inr ?q"
    using p by (simp add: Msg_recycleUnchecked_Inr)
  have w: "wf_mem q" using rel by (simp add: queue_shape_def)
  show ?thesis
  proof (cases "pools q")
    case False
    then have "recycleMsg p q = Msg_reset p ?q"
      using r by (auto simp: recycleMsg_def pools_def)
    also have "\<dots> = Inr ((kill p q)\<lparr>calls := calls q @ recycle_calls m\<rparr>)"
      using p by (simp add: Msg_reset_single)
    finally have e: "recycleMsg p q = Inr ((kill p q)\<lparr>calls := calls q @ recycle_calls m\<rparr>)" .
    then show ?thesis
      using False queue_shape_delete [OF rel p(4,5)] by (auto simp: frame_def)
  next
    case True
    let ?r = "(put p ((recycled m)\<lparr>mNext := mMsgPool q\<rparr>) q)
      \<lparr>calls := calls q @ recycle_calls m, mMsgPool := p, mMsgPoolSize := mMsgPoolSize q + 1,
       mMsgPoolIsFull := (mMsgPoolIsFull q \<or> mMsgPoolSize q + 1 = mMsgPoolMaxSize q)\<rparr>"
    have e: "recycleMsg p q = Inr ?r"
      using True r p
      by (simp add: recycleMsg_def pools_def set_next_Inr Let_def) (auto simp: put_def)
    have m: "msg_at ?r = (msg_at q)(p := Some (recycled (strip m)))"
      using msg_at_cong [of ?r "put p ((recycled m)\<lparr>mNext := mMsgPool q\<rparr>) q"]
      by (simp add: strip_recycled)
    note qw = map_qwhen_upd [OF m p(4)]
    have "queue_shape ?r qs (p # ps)"
      using rel p w m True unfolding queue_shape_def qw by (auto simp: wf_mem_def pools_def)
    with e m True show ?thesis by (auto simp: frame_def)
  qed
qed

subsection \<open>Enqueueing\<close>

lemma enq_walk_chain:
  assumes "chain (cells q) h (x # xs)" and "length xs < n"
  shows "enq_walk n d h q = Inr (last (x # takeWhile (\<lambda>a. qwhen q a \<le> d) xs))"
  using assms
proof (induction xs arbitrary: n h x)
  case Nil
  then show ?case by (cases n) (auto split: option.splits)
next
  case (Cons y ys)
  from Cons.prems obtain k where n: "n = Suc k" "length ys < k" by (cases n) auto
  from Cons.prems obtain m m' where m: "h = x" "x \<noteq> 0" "cells q x = Some m" "mNext m = y"
    and m': "y \<noteq> 0" "cells q y = Some m'" and ch: "chain (cells q) y (y # ys)"
    by (auto split: option.splits)
  from Cons.IH [OF ch n(2)] show ?case
    using n m m' qwhen_cell [OF m'(2)] by (auto simp: not_less)
qed

lemma enqueue_front_eq:
  assumes "p \<noteq> 0" and "cells q p = Some m" and "mNext m = 0"
  shows "enqueue_front p q = Inr ((put p (m\<lparr>mNext := mMsgQueueHead q\<rparr>) q)
    \<lparr>mMsgQueueHead := p, mMsgQueueTail := (if mMsgQueueTail q = 0 then p else mMsgQueueTail q)\<rparr>)"
  using assms by (simp add: enqueue_front_def set_next_Inr Let_def) (simp add: put_def)

lemma enqueue_back_eq:
  assumes "mMsgQueueTail q \<noteq> 0" and "cells q (mMsgQueueTail q) = Some mt" and "mNext mt = 0"
  shows "enqueue_back p q =
    Inr ((put (mMsgQueueTail q) (mt\<lparr>mNext := p\<rparr>) q)\<lparr>mMsgQueueTail := p\<rparr>)"
  using assms by (simp add: enqueue_back_def set_next_Inr)

lemma put_put_other: "a \<noteq> b \<Longrightarrow> put a x (put b y (put a z w)) = put a x (put b y w)"
  by (simp add: put_def fun_upd_twist)

lemma enqueue_middle_eq:
  assumes "enq_walk (brk q) d (mMsgQueueHead q) q = Inr b"
    and "b \<noteq> 0" "cells q b = Some mb" "p \<noteq> 0" "cells q p = Some m" "mNext m = 0" "b \<noteq> p"
  shows "enqueue_middle d p q =
    Inr (put b (mb\<lparr>mNext := p\<rparr>) (put p (m\<lparr>mNext := mNext mb\<rparr>) q))"
  using assms
  by (simp add: enqueue_middle_def take_next_Inr set_next_Inr put_put_other)

text \<open>The linking step: whichever branch runs, the list becomes \<open>ins_msg\<close> of the old one.\<close>

definition enqueue_link :: "64 word \<Rightarrow> ptr \<Rightarrow> 'a mqueue_scheme \<Rightarrow> 'a mqueue_scheme res" where
  "enqueue_link d p q =
     bnd (if mMsgQueueHead q = 0 \<or> d = 0 then Inr True
          else bnd (ld (mMsgQueueHead q) q) (\<lambda>h. Inr (d < mWhen h))) (\<lambda>front.
       if front then enqueue_front p q
       else
         bnd (if mMsgQueueTail q = 0 then Inr False
              else bnd (ld (mMsgQueueTail q) q) (\<lambda>t. Inr (mWhen t \<le> d))) (\<lambda>back.
         if back then enqueue_back p q else enqueue_middle d p q))"

definition linked :: "'a mqueue_scheme \<Rightarrow> ptr list \<Rightarrow> bool" where
  "linked q qs \<longleftrightarrow> chain (cells q) (mMsgQueueHead q) qs \<and>
     mMsgQueueTail q = (if qs = [] then 0 else last qs)"

text \<open>What linking leaves alone: all contents, the pool, and every other field.\<close>

definition relinked :: "'a mqueue_scheme \<Rightarrow> 'a mqueue_scheme \<Rightarrow> ptr set \<Rightarrow> bool" where
  "relinked q q' A \<longleftrightarrow>
     msg_at q' = msg_at q \<and> (\<forall>a. a \<notin> A \<longrightarrow> cells q' a = cells q a) \<and> calls q' = calls q \<and>
     ctl q' = ctl q \<and> mMsgQueueSize q' = mMsgQueueSize q \<and> mMsgPool q' = mMsgPool q \<and>
     mMsgPoolSize q' = mMsgPoolSize q \<and> mMsgPoolIsFull q' = mMsgPoolIsFull q"

text \<open>Behind the tail, and in between, where the walk stops.\<close>

lemma link_back:
  assumes li: "linked q (as @ [l])" and d: "distinct (as @ [l])"
    and so: "sorted (map (qwhen q) (as @ [l]))"
    and p: "p \<noteq> 0" "cells q p = Some m" "mNext m = 0" "p \<notin> set (as @ [l])"
    and t: "t \<noteq> 0" "qwhen q l \<le> t"
  shows "\<exists>q'. enqueue_back p q = Inr q' \<and> linked q' (ins_msg (qwhen q) t p (as @ [l])) \<and>
    relinked q q' (insert p (set (as @ [l])))"
proof -
  have tl: "mMsgQueueTail q = l" and ch: "chain (cells q) (mMsgQueueHead q) (as @ [l])"
    using li by (simp_all add: linked_def)
  then obtain mt where tc: "l \<noteq> 0" "cells q l = Some mt" and mt: "mNext mt = 0"
    by (auto simp: lseg_append split: option.splits)
  have tw: "takeWhile (\<lambda>a. qwhen q a \<le> t) (as @ [l]) = as @ [l]"
    using takeWhile_all_le [OF so, of t] t(2) by simp
  have "chain ((cells q)(p := Some m, l := Some (mt\<lparr>mNext := p\<rparr>))) (mMsgQueueHead q) (as @ l # [p])"
    using chain_insert_after [OF ch _ p(1) _ tc(2), of m] d p(3,4) mt by auto
  moreover have "(cells q)(p := Some m) = cells q" using p by auto
  ultimately have "chain ((cells q)(l := Some (mt\<lparr>mNext := p\<rparr>))) (mMsgQueueHead q) ((as @ [l]) @ [p])"
    by simp
  moreover have "ins_msg (qwhen q) t p (as @ [l]) = (as @ [l]) @ [p]" using t(1) tw by (simp add: ins_msg_def)
  ultimately show ?thesis
    using tl tc mt p by (auto simp: enqueue_back_eq linked_def relinked_def put_def msg_at_def fun_eq_iff)
qed

lemma link_middle:
  assumes li: "linked q (x # xs)" and d: "distinct (x # xs)" and len: "length (x # xs) \<le> brk q"
    and p: "p \<noteq> 0" "cells q p = Some m" "mNext m = 0" "p \<notin> set (x # xs)"
    and t: "t \<noteq> 0" "qwhen q x \<le> t" "\<not> qwhen q (last (x # xs)) \<le> t"
  shows "\<exists>q'. enqueue_middle t p q = Inr q' \<and> linked q' (ins_msg (qwhen q) t p (x # xs)) \<and>
    relinked q q' (insert p (set (x # xs)))"
proof -
  let ?P = "\<lambda>a. qwhen q a \<le> t" and ?qs = "x # xs"
  let ?tw = "x # takeWhile ?P xs" and ?dw = "dropWhile ?P xs"
  obtain bs b where bs: "?tw = bs @ [b]" by (cases ?tw rule: rev_cases) auto
  have "?tw @ ?dw = ?qs" by simp
  then have split: "?qs = bs @ b # ?dw" by (simp only: bs) simp
  have b: "b \<in> set ?qs" by (subst split) simp
  have ch': "chain (cells q) (mMsgQueueHead q) (bs @ b # ?dw)"
    using li by (simp only: linked_def split [symmetric])
  then obtain mb where mb: "b \<noteq> 0" "cells q b = Some mb" by (auto elim: chain_snocD)
  have "enq_walk (brk q) t (mMsgQueueHead q) q = Inr (last ?tw)"
    using li len by (intro enq_walk_chain) (auto simp: linked_def)
  then have "enq_walk (brk q) t (mMsgQueueHead q) q = Inr b" by (simp only: bs) simp
  moreover have bp: "b \<noteq> p" using b p by auto
  ultimately have e: "enqueue_middle t p q =
      Inr (put b (mb\<lparr>mNext := p\<rparr>) (put p (m\<lparr>mNext := mNext mb\<rparr>) q))"
    using mb p by (intro enqueue_middle_eq) auto
  have "takeWhile ?P ?qs = bs @ [b]" and dw: "dropWhile ?P ?qs = ?dw" using t(2) bs by simp_all
  then have ins: "ins_msg (qwhen q) t p ?qs = bs @ b # p # ?dw" using t(1) by (simp add: ins_msg_def)
  have "?dw \<noteq> []"
    using dw t(3) last_in_set [of ?qs] by (metis dropWhile_eq_Nil_conv list.distinct(1))
  then have "last (bs @ b # p # ?dw) = last ?qs"
    using arg_cong [OF split, of last] by (auto split: if_splits)
  moreover have "chain ((cells q)(p := Some (m\<lparr>mNext := mNext mb\<rparr>), b := Some (mb\<lparr>mNext := p\<rparr>)))
      (mMsgQueueHead q) (bs @ b # p # ?dw)"
    using d p mb by (intro chain_insert_after [OF ch' _ _ _ mb(2)]; (simp only: split [symmetric])?; simp)
  moreover have "mMsgQueueTail q = last ?qs" using li by (simp add: linked_def)
  ultimately show ?thesis
    using e ins b bp mb p by (auto simp: linked_def relinked_def put_def msg_at_def fun_eq_iff)
qed

lemma link_front:
  assumes li: "linked q qs" and c: "qs = [] \<or> t = 0 \<or> t < qwhen q (hd qs)"
    and p: "p \<noteq> 0" "cells q p = Some m" "mNext m = 0" "p \<notin> set qs"
  shows "\<exists>q'. enqueue_front p q = Inr q' \<and> linked q' (ins_msg (qwhen q) t p qs) \<and>
    relinked q q' (insert p (set qs))"
proof -
  have "ins_msg (qwhen q) t p qs = p # qs" using c by (cases qs) (auto simp: ins_msg_def)
  moreover have "qs \<noteq> [] \<Longrightarrow> last qs \<noteq> 0"
    using li lseg_live [of "cells q" "mMsgQueueHead q" qs 0 "last qs"] by (auto simp: linked_def)
  ultimately show ?thesis
    using p li by (auto simp: enqueue_front_eq linked_def relinked_def put_def msg_at_def fun_eq_iff
        dest: chain_Nil_iff)
qed

lemma enqueue_link_ok:
  assumes li: "linked q qs" and d: "distinct qs" and len: "length qs \<le> brk q"
    and so: "sorted (map (qwhen q) qs)"
    and p: "p \<noteq> 0" "cells q p = Some m" "mNext m = 0" "p \<notin> set qs"
  shows "\<exists>q'. enqueue_link t p q = Inr q' \<and> linked q' (ins_msg (qwhen q) t p qs) \<and>
    relinked q q' (insert p (set qs))"
proof (cases "qs = [] \<or> t = 0 \<or> t < qwhen q (hd qs)")
  case True
  have "enqueue_link t p q = enqueue_front p q"
    using True li by (cases qs) (auto simp: enqueue_link_def linked_def qwhen_def msg_at_def split: option.splits)
  then show ?thesis using link_front [OF li True p] by simp
next
  case False
  then obtain x xs where qs: "qs = x # xs" and t: "t \<noteq> 0" "qwhen q x \<le> t" by (cases qs) auto
  from li qs obtain mx where hd: "mMsgQueueHead q = x" "x \<noteq> 0" "cells q x = Some mx"
    by (auto simp: linked_def split: option.splits)
  obtain as l where as: "qs = as @ [l]" using qs by (metis rev_exhaust list.distinct(1))
  with li obtain mt where tl: "mMsgQueueTail q = l" "l \<noteq> 0" "cells q l = Some mt"
    by (auto simp: linked_def lseg_append split: option.splits)
  have link: "enqueue_link t p q = (if qwhen q l \<le> t then enqueue_back p q else enqueue_middle t p q)"
    using hd tl t qwhen_cell [OF hd(3)] qwhen_cell [OF tl(3)]
    by (simp add: enqueue_link_def not_less [symmetric])
  show ?thesis
  proof (cases "qwhen q l \<le> t")
    case True
    then show ?thesis using link link_back [OF li [unfolded as] d [unfolded as] so [unfolded as] p(1-3)] p(4) t as
      by simp
  next
    case False
    have "last (x # xs) = l" using as qs by (metis last_snoc)
    then show ?thesis
      using False link link_middle [OF li [unfolded qs] d [unfolded qs] len [unfolded qs] p(1-3)] p(4) t qs
      by simp
  qed
qed

lemma enqueueMessage_unfold:
  assumes "msg \<noteq> 0" and "cells q msg = Some m"
  shows "enqueueMessage msg t q =
    (if mTarget m = 0 \<or> isInUse m then bnd (Msg_reset msg q) (\<lambda>q. Inr (False, q))
     else if mQuit q \<or> mNotEnqueMsg q then bnd (recycleMsg msg q) (\<lambda>q. Inr (False, q))
     else
       bnd (enqueue_link t msg (put msg ((makeInUse m)\<lparr>mWhen := t\<rparr>) q)) (\<lambda>q.
         Inr (True, notifyAll_mWait
                (q\<lparr>mMsgQueueSize := mMsgQueueSize q + 1, mBlocked := False\<rparr>))))"
proof -
  have assoc: "bnd (bnd r f) g = bnd r (\<lambda>x. bnd (f x) g)"
    for r :: "'x res" and f :: "'x \<Rightarrow> 'y res" and g :: "'y \<Rightarrow> 'z res"
    by (cases r) simp_all
  show ?thesis
    using assms by (simp add: enqueueMessage_def enqueue_link_def assoc)
qed

lemma wf_mem_relinked:
  assumes "wf_mem q" and "relinked q q' A" shows "wf_mem q'"
proof -
  have "msg_at q' = msg_at q" and "brk q' = brk q" using assms(2) by (auto simp: relinked_def)
  then have "cells q' a = None \<longleftrightarrow> cells q a = None" for a by (metis msg_at_eq_None)
  with assms \<open>brk q' = brk q\<close> show ?thesis by (auto simp: wf_mem_def)
qed

text \<open>What linking leaves, with the size, the flag and the broadcast that follow it.\<close>

lemma enqueued_shape:
  fixes q :: "'a mqueue_scheme"
  assumes shape: "queue_shape q qs ps" and l: "loose q qs ps p m"
    and m: "mTarget m \<noteq> 0" "isInUse k" "mTarget k = mTarget m" and open_q: "\<not> mQuit q"
    and ln: "linked q' (ins_msg (qwhen q) t p qs)" and rl: "relinked (put p (k\<lparr>mWhen := t\<rparr>) q) q' (insert p (set qs))"
  defines "r \<equiv> notifyAll_mWait (q'\<lparr>mMsgQueueSize := mMsgQueueSize q' + 1, mBlocked := False\<rparr>)"
  shows "queue_shape r (ins_msg (qwhen q) t p qs) ps"
    and "msg_at r = (msg_at q)(p := Some (strip (k\<lparr>mWhen := t\<rparr>)))"
proof -
  let ?k = "k\<lparr>mWhen := t\<rparr>" let ?q = "put p ?k q" let ?l = "ins_msg (qwhen q) t p qs"
  have p: "p \<noteq> 0" "p \<notin> set qs" "p \<notin> set ps" "cells q p \<noteq> None" using l by (auto simp: loose_def)
  have r: "cells r = cells q'" "mMsgQueueHead r = mMsgQueueHead q'" "mMsgQueueTail r = mMsgQueueTail q'"
    "mMsgPool r = mMsgPool q'" "brk r = brk q'" "mMsgPoolSize r = mMsgPoolSize q'"
    "mMsgPoolMaxSize r = mMsgPoolMaxSize q'" "mQuit r = mQuit q'" "\<not> mBlocked r"
    by (simp_all add: r_def)
  show mr: "msg_at r = (msg_at q)(p := Some (strip ?k))"
    using rl msg_at_cong [OF r(1)] by (simp add: relinked_def)
  have "qwhen r p = t" using mr by (simp add: qwhen_def)
  note qr = map_qwhen_upd [OF mr p(2)]
  have "?l = ins_msg (qwhen r) t p qs" using qr by (intro ins_msg_cong) auto
  moreover have "sorted (map (qwhen r) qs)" using shape unfolding qr by (simp add: queue_shape_def)
  ultimately have so: "sorted (map (qwhen r) ?l)"
    using sorted_ins_msg [of "qwhen r" qs p t] \<open>qwhen r p = t\<close> by simp
  have "chain (cells q') (mMsgPool q') ps = chain (cells ?q) (mMsgPool q') ps"
    using rl shape p by (intro lseg_cong) (auto simp: relinked_def queue_shape_def)
  then have "chain (cells q') (mMsgPool q') ps" using rl shape p by (simp add: relinked_def queue_shape_def)
  moreover have "wf_mem ?q" using shape p by (auto simp: queue_shape_def wf_mem_def)
  then have "wf_mem r" using wf_mem_relinked [OF _ rl] by (simp add: wf_mem_def r)
  moreover have "linked r ?l" using ln by (simp add: linked_def r)
  moreover have "distinct (?l @ ps)" using shape p by (simp add: queue_shape_def distinct_ins_msg)
  moreover have "mQuit r = mQuit q" "mMsgPoolSize r = mMsgPoolSize q" "mMsgPoolMaxSize r = mMsgPoolMaxSize q"
    using rl by (simp_all add: relinked_def r)
  moreover have "\<forall>a\<in>set ?l. \<exists>m. msg_at r a = Some m \<and> isInUse m \<and> mTarget m \<noteq> 0"
    using shape p m mr by (simp add: queue_shape_def isInUse_def)
  moreover have "\<forall>a\<in>set ps. \<exists>m. msg_at r a = Some m \<and> recycled m = m"
    using shape p unfolding mr by (auto simp: queue_shape_def)
  ultimately show "queue_shape r ?l ps"
    using shape so open_q r(4,9) unfolding queue_shape_def linked_def r(1)
    by (intro conjI; (elim conjE)?; simp)
qed

lemma enqueueMessage_accept:
  assumes rel: "queue_rel q qs ps" and l: "loose q qs ps p m"
    and m: "mTarget m \<noteq> 0" "\<not> isInUse m" and open_q: "\<not> mQuit q" "\<not> mNotEnqueMsg q"
  shows "\<exists>q'. enqueueMessage p t q = Inr (True, q') \<and>
    queue_rel q' (ins_msg (qwhen q) t p qs) ps \<and>
    msg_at q' = (msg_at q)(p := Some (strip ((makeInUse m)\<lparr>mWhen := t\<rparr>))) \<and>
    calls q' = calls q \<and> \<not> mBlocked q' \<and> mWait q' = Suc (mWait q) \<and>
    \<not> mQuit q' \<and> \<not> mNotEnqueMsg q' \<and> mOutTimeTest q' = mOutTimeTest q \<and> brk q' = brk q \<and>
    mMsgPoolMaxSize q' = mMsgPoolMaxSize q \<and> frame (insert p (set qs)) q q'"
proof -
  let ?m = "(makeInUse m)\<lparr>mWhen := t\<rparr>"
  let ?q = "put p ?m q"
  from l have p: "p \<noteq> 0" "cells q p = Some m" "mNext m = 0" "p \<notin> set qs" "p \<notin> set ps"
    by (auto simp: loose_def)
  have shape: "queue_shape q qs ps" using rel by (rule queue_rel_shape)
  have mp: "msg_at ?q = (msg_at q)(p := Some (strip ?m))" by simp
  note qw = map_qwhen_upd [OF mp p(4)]
  have "linked ?q qs" using shape p by (auto simp: linked_def queue_shape_def)
  moreover have "distinct qs" "length qs \<le> brk ?q" "sorted (map (qwhen ?q) qs)"
    using shape queue_shape_length [OF shape] unfolding qw by (auto simp: queue_shape_def)
  moreover have "cells ?q p = Some ?m" "mNext ?m = 0" using p by simp_all
  ultimately obtain q' where q': "enqueue_link t p ?q = Inr q'"
      "linked q' (ins_msg (qwhen ?q) t p qs)" "relinked ?q q' (insert p (set qs))"
    using enqueue_link_ok p(1,4) by blast
  have ins: "ins_msg (qwhen ?q) t p qs = ins_msg (qwhen q) t p qs"
    using qw by (intro ins_msg_cong) auto
  let ?r = "notifyAll_mWait (q'\<lparr>mMsgQueueSize := mMsgQueueSize q' + 1, mBlocked := False\<rparr>)"
  have e: "enqueueMessage p t q = Inr (True, ?r)"
    using p m open_q q'(1) by (simp add: enqueueMessage_unfold)
  note sh = enqueued_shape [OF shape l m(1), of "makeInUse m" q' t, OF _ _ open_q(1) q'(2) [unfolded ins] q'(3)]
  have sh: "queue_shape ?r (ins_msg (qwhen q) t p qs) ps" "msg_at ?r = (msg_at q)(p := Some (strip ?m))"
    by (rule sh; simp)+
  have "queue_rel ?r (ins_msg (qwhen q) t p qs) ps"
    using rel q'(3) sh(1) by (auto simp: queue_rel_def relinked_def)
  moreover have "frame (insert p (set qs)) q ?r"
    using q'(3) by (auto simp: frame_def relinked_def)
  ultimately show ?thesis using e sh(2) q'(3) open_q by (auto simp: relinked_def)
qed

text \<open>
  The refusals: a message without target or already in use is deleted, and after \<open>quit\<close> a
  message goes back to the pool. In all three the caller's message is consumed and the queue is
  as before.
\<close>

lemma enqueueMessage_reject:
  assumes rel: "queue_rel q qs ps" and l: "loose q qs ps p m" and m: "mTarget m = 0 \<or> isInUse m"
  shows "\<exists>q'. enqueueMessage p t q = Inr (False, q') \<and> queue_rel q' qs ps \<and>
    msg_at q' = (msg_at q)(p := None) \<and> calls q' = calls q @ recycle_calls m \<and> ctl q' = ctl q \<and>
    frame {p} q q'"
proof -
  from l have p: "p \<noteq> 0" "cells q p = Some m" "mNext m = 0" "p \<notin> set qs" "p \<notin> set ps"
    by (auto simp: loose_def)
  have "enqueueMessage p t q = Inr (False, (kill p q)\<lparr>calls := calls q @ recycle_calls m\<rparr>)"
    using p m by (simp add: enqueueMessage_unfold Msg_reset_single)
  then show ?thesis
    using rel queue_shape_delete [OF queue_rel_shape [OF rel] p(4,5)]
    by (auto simp: queue_rel_def frame_def)
qed

lemma enqueueMessage_closed:
  assumes rel: "queue_rel q qs ps" and l: "loose q qs ps p m"
    and m: "mTarget m \<noteq> 0" "\<not> isInUse m" and closed: "mQuit q \<or> mNotEnqueMsg q"
  shows "\<exists>q'. enqueueMessage p t q = Inr (False, q') \<and>
    queue_rel q' qs (if pools q then p # ps else ps) \<and>
    msg_at q' = (msg_at q)(p := if pools q then Some (recycled (strip m)) else None) \<and>
    calls q' = calls q @ recycle_calls m \<and> ctl q' = ctl q \<and> frame {p} q q'"
proof -
  from l have p: "p \<noteq> 0" "cells q p = Some m" by (auto simp: loose_def)
  obtain q' where "recycleMsg p q = Inr q'" "queue_shape q' qs (if pools q then p # ps else ps)"
    "msg_at q' = (msg_at q)(p := if pools q then Some (recycled (strip m)) else None)"
    "calls q' = calls q @ recycle_calls m" "ctl q' = ctl q" "mMsgQueueSize q' = mMsgQueueSize q"
    "frame {p} q q'"
    using recycleMsg_ok [OF queue_rel_shape [OF rel] l] by blast
  then show ?thesis
    using p m closed rel by (auto simp: enqueueMessage_unfold queue_rel_def)
qed

subsection \<open>The pool\<close>

definition pool_ready :: "'a mqueue_scheme \<Rightarrow> bool" where
  "pool_ready q \<longleftrightarrow> 0 < mMsgPoolSize q \<and> mMsgPoolSize q \<le> mMsgPoolMaxSize q \<and> mMsgPoolIsFull q"

lemma obtain_pool_none: "\<not> pool_ready q \<Longrightarrow> obtain_pool q = Inr (0, q)"
  by (auto simp: obtain_pool_def pool_ready_def)

lemma obtain_pool_some:
  assumes rel: "queue_rel q qs ps" and r: "pool_ready q"
  shows "\<exists>p ps' q' m. ps = p # ps' \<and> obtain_pool q = Inr (p, q') \<and> queue_rel q' qs ps' \<and>
    loose q' qs ps' p m \<and> recycled m = m \<and> msg_at q' = msg_at q \<and> calls q' = calls q \<and>
    ctl q' = ctl q \<and> mMsgPoolIsFull q' = (ps' \<noteq> []) \<and> frame {p} q q'"
proof -
  have shape: "queue_shape q qs ps" using rel by (rule queue_rel_shape)
  obtain p ps' where ps: "ps = p # ps'"
    using r shape by (cases ps) (auto simp: pool_ready_def queue_shape_def)
  obtain m where m: "mMsgPool q = p" "p \<noteq> 0" "cells q p = Some m" "chain (cells q) (mNext m) ps'"
    using shape ps by (auto simp: queue_shape_def split: option.splits)
  let ?q = "(put p (m\<lparr>mNext := 0\<rparr>) q)\<lparr>mMsgPool := mNext m, mMsgPoolSize := mMsgPoolSize q - 1,
    mMsgPoolIsFull := (mMsgPoolIsFull q \<and> mMsgPoolSize q \<noteq> 1)\<rparr>"
  have e: "obtain_pool q = Inr (p, ?q)"
    using r m by (simp add: obtain_pool_def pool_ready_def take_next_Inr Let_def) (auto simp: put_def)
  have mq: "msg_at ?q = msg_at q"
    using m msg_at_cong [of ?q "put p (m\<lparr>mNext := 0\<rparr>) q"] by (auto simp: msg_at_def fun_eq_iff)
  have qw: "qwhen ?q = qwhen q" using mq by (auto simp: qwhen_def fun_eq_iff)
  have "queue_shape ?q qs ps'"
    using shape ps m mq unfolding queue_shape_def qw by (auto simp: wf_mem_def)
  moreover have "loose ?q qs ps' p (m\<lparr>mNext := 0\<rparr>)"
    using shape ps m by (auto simp: loose_def queue_shape_def)
  moreover have "recycled (m\<lparr>mNext := 0\<rparr>) = m\<lparr>mNext := 0\<rparr>"
    using shape ps m by (auto simp: queue_shape_def msg_at_Some strip_def)
  moreover have "mMsgPoolIsFull ?q = (ps' \<noteq> [])"
    using r shape ps by (auto simp: pool_ready_def queue_shape_def)
  ultimately show ?thesis using e ps rel mq
    by (intro exI [of _ p] exI [of _ ps'] exI [of _ ?q] exI [of _ "m\<lparr>mNext := 0\<rparr>"])
      (simp add: queue_rel_def frame_def)
qed

subsection \<open>Taking the next message\<close>

lemma next_scan_due:
  assumes rel: "queue_rel q (x # xs) ps" and due: "qwhen q x \<le> now"
  shows "\<exists>q' m. next_scan now t q = Inr (NReturn x, q') \<and> queue_rel q' xs ps \<and>
    loose q' xs ps x m \<and> isInUse m \<and> mTarget m \<noteq> 0 \<and>
    msg_at q' = msg_at q \<and> calls q' = calls q \<and> ctl q' = ctl q \<and> frame {x} q q'"
proof -
  have shape: "queue_shape q (x # xs) ps" using rel by (rule queue_rel_shape)
  obtain m where m: "mMsgQueueHead q = x" "x \<noteq> 0" "cells q x = Some m" "chain (cells q) (mNext m) xs"
    using shape by (auto simp: queue_shape_def split: option.splits)
  have w: "mWhen m \<le> now" using due qwhen_cell [OF m(3)] by simp
  let ?q = "(put x (m\<lparr>mNext := 0\<rparr>) q)\<lparr>mMsgQueueHead := mNext m,
    mMsgQueueTail := (if mNext m = 0 then 0 else mMsgQueueTail q),
    mMsgQueueSize := mMsgQueueSize q - 1\<rparr>"
  have e: "next_scan now t q = Inr (NReturn x, ?q)"
    using m w by (simp add: next_scan_def take_next_Inr Let_def) (auto simp: put_def)
  have mq: "msg_at ?q = msg_at q"
    using m msg_at_cong [of ?q "put x (m\<lparr>mNext := 0\<rparr>) q"] by (auto simp: msg_at_def fun_eq_iff)
  have qw: "qwhen ?q = qwhen q" using mq by (auto simp: qwhen_def fun_eq_iff)
  have "mNext m = 0 \<longleftrightarrow> xs = []" using chain_Nil_iff [OF m(4)] .
  then have "queue_shape ?q xs ps"
    using shape m mq unfolding queue_shape_def qw by (auto simp: wf_mem_def)
  moreover have "loose ?q xs ps x (m\<lparr>mNext := 0\<rparr>)"
    using shape m by (auto simp: loose_def queue_shape_def)
  moreover have "isInUse (m\<lparr>mNext := 0\<rparr>)" "mTarget (m\<lparr>mNext := 0\<rparr>) \<noteq> 0"
    using shape m by (auto simp: queue_shape_def msg_at_Some)
  ultimately show ?thesis using e rel mq
    by (intro exI [of _ ?q] exI [of _ "m\<lparr>mNext := 0\<rparr>"]) (simp add: queue_rel_def frame_def)
qed

lemma next_scan_early:
  assumes rel: "queue_rel q (x # xs) ps" and early: "\<not> qwhen q x \<le> now"
  shows "next_scan now t q = Inr (NAgain (sint (qwhen q x - now)), q)"
proof -
  obtain m where m: "mMsgQueueHead q = x" "x \<noteq> 0" "cells q x = Some m"
    using rel by (auto simp: queue_rel_def queue_shape_def split: option.splits)
  then show ?thesis using early qwhen_cell [OF m(3)] by (simp add: next_scan_def)
qed

lemma next_scan_empty:
  assumes "queue_rel q [] ps"
  shows "next_scan now t q =
    (if mQuit q \<or> mNotEnqueMsg q then Inr (NReturn 0, q)
     else if mOutTimeTest q > 0 then Inr (NAgain (mOutTimeTest q), q)
     else Inr (NAgain (-1), q\<lparr>mBlocked := True\<rparr>))"
  using assms by (simp add: next_scan_def queue_rel_def queue_shape_def)

lemma queue_rel_block:
  "queue_rel q [] ps \<Longrightarrow> \<not> mQuit q \<Longrightarrow> \<not> mNotEnqueMsg q \<Longrightarrow> queue_rel (q\<lparr>mBlocked := True\<rparr>) [] ps"
  by (auto simp: queue_rel_def queue_shape_def wf_mem_def msg_at_def)

subsection \<open>Searching and removing\<close>

text \<open>
  A selection depends on the node's address and its content, never on its link (\<open>stable\<close>);
  all twelve predicates of the code are of this kind.
\<close>

definition stable :: "(ptr \<Rightarrow> Msg \<Rightarrow> bool) \<Rightarrow> bool" where
  "stable match \<longleftrightarrow> (\<forall>a m. match a (strip m) = match a m)"

definition sel :: "'a mem_scheme \<Rightarrow> (ptr \<Rightarrow> Msg \<Rightarrow> bool) \<Rightarrow> ptr \<Rightarrow> ptr \<Rightarrow> bool" where
  "sel w match handler a =
     (case msg_at w a of None \<Rightarrow> False
      | Some m \<Rightarrow> match a m \<and> (handler \<noteq> 0 \<longrightarrow> mTarget m = handler))"

lemma sel_cell:
  "stable match \<Longrightarrow> cells w a = Some m \<Longrightarrow>
    sel w match handler a \<longleftrightarrow> match a m \<and> (handler \<noteq> 0 \<longrightarrow> mTarget m = handler)"
  by (simp add: sel_def msg_at_def stable_def)

lemma has_walk_chain:
  assumes "chain (cells q) h as" and "length as \<le> n" and st: "stable match"
  shows "has_walk n match handler h q = Inr (\<exists>a\<in>set as. sel q match handler a)"
  using assms(1,2)
proof (induction as arbitrary: n h)
  case Nil
  then show ?case by (cases n) auto
next
  case (Cons a as)
  then obtain k m where "n = Suc k" "length as \<le> k" "h = a" "a \<noteq> 0" "cells q a = Some m"
    "chain (cells q) (mNext m) as"
    by (cases n) (auto split: option.splits)
  with Cons.IH sel_cell [OF st this(5), of handler] show ?case by auto
qed

lemma has_loop_ok:
  assumes rel: "queue_rel q qs ps" and st: "stable match"
  shows "has_loop match handler q = Inr (\<exists>a\<in>set qs. sel q match handler a)"
proof -
  have ch: "chain (cells q) (mMsgQueueHead q) qs" and len: "length qs \<le> brk q"
    using rel queue_shape_length [OF queue_rel_shape [OF rel]]
    by (auto simp: queue_rel_def queue_shape_def)
  from has_walk_chain [OF ch len st] chain_Nil_iff [OF ch] show ?thesis
    by (auto simp: has_loop_def)
qed

text \<open>The walk of \<open>removeMessage\<close> stops at the first selected node, with its predecessor at hand.\<close>

lemma remove_walk_none:
  assumes "chain (cells q) h as" and "length as \<le> n" and st: "stable match"
    and "\<forall>a\<in>set as. \<not> sel q match handler a"
  shows "remove_walk n match handler pr h q = Inr q"
  using assms(1,2,4)
proof (induction as arbitrary: n h pr)
  case Nil
  then show ?case by (cases n) auto
next
  case (Cons a as)
  then obtain k m where "n = Suc k" "length as \<le> k" "h = a" "a \<noteq> 0" "cells q a = Some m"
    "chain (cells q) (mNext m) as"
    by (cases n) (auto split: option.splits)
  with Cons sel_cell [OF st this(5), of handler] show ?case by auto
qed

lemma remove_walk_first:
  assumes "chain (cells q) h (as @ x # bs)" and "length as < n" and st: "stable match"
    and "\<forall>a\<in>set as. \<not> sel q match handler a" and "sel q match handler x"
  shows "remove_walk n match handler pr h q = RECYCLEMIDDLE x (last (pr # as)) q"
  using assms(1,2,4)
proof (induction as arbitrary: n h pr)
  case Nil
  then obtain k m where "n = Suc k" "h = x" "x \<noteq> 0" "cells q x = Some m"
    by (cases n) (auto split: option.splits)
  with assms(5) sel_cell [OF st this(4), of handler] show ?case by auto
next
  case (Cons a as)
  then obtain k m where k: "n = Suc k" "length as < k" "h = a" "a \<noteq> 0" "cells q a = Some m"
    "chain (cells q) (mNext m) (as @ x # bs)"
    by (cases n) (auto split: option.splits)
  with Cons.prems sel_cell [OF st k(5), of handler]
  have "remove_walk n match handler pr h q = remove_walk k match handler a (mNext m) q" by auto
  also have "\<dots> = RECYCLEMIDDLE x (last (a # as)) q"
    using Cons.prems k by (intro Cons.IH) auto
  finally show ?case by simp
qed

text \<open>The unlinking inside \<open>RECYCLEMIDDLE\<close>, at the head and behind a predecessor.\<close>

definition unlinked :: "ptr \<Rightarrow> Msg \<Rightarrow> ptr list \<Rightarrow> 'a mqueue_scheme \<Rightarrow> 'a mqueue_scheme" where
  "unlinked x m as q =
     (if as = [] then
        (put x (m\<lparr>mNext := 0\<rparr>) q)\<lparr>mMsgQueueHead := mNext m,
          mMsgQueueTail := (if mMsgQueueTail q = x then mNext m else mMsgQueueTail q)\<rparr>
      else
        (put (last as) ((the (cells q (last as)))\<lparr>mNext := mNext m\<rparr>) (put x (m\<lparr>mNext := 0\<rparr>) q))
          \<lparr>mMsgQueueTail := (if mMsgQueueTail q = x then last as else mMsgQueueTail q)\<rparr>)"

definition unlinks :: "ptr \<Rightarrow> Msg \<Rightarrow> ptr list \<Rightarrow> ptr list \<Rightarrow> ptr list \<Rightarrow> 'a mqueue_scheme \<Rightarrow> bool" where
  "unlinks x m as bs ps q \<longleftrightarrow>
     RECYCLEMIDDLE x (if as = [] then x else last as) q =
       bnd (recycleMsg x (unlinked x m as q)) (\<lambda>q. Inr (q\<lparr>mMsgQueueSize := mMsgQueueSize q - 1\<rparr>)) \<and>
     linked (unlinked x m as q) (as @ bs) \<and> msg_at (unlinked x m as q) = msg_at q \<and>
     cells (unlinked x m as q) x = Some (m\<lparr>mNext := 0\<rparr>) \<and>
     chain (cells (unlinked x m as q)) (mMsgPool (unlinked x m as q)) ps"

lemma unlinked_simps [simp]:
  "ctl (unlinked x m as q) = ctl q" "calls (unlinked x m as q) = calls q"
  "mMsgQueueSize (unlinked x m as q) = mMsgQueueSize q" "brk (unlinked x m as q) = brk q"
  "mMsgPoolSize (unlinked x m as q) = mMsgPoolSize q" "mMsgPoolMaxSize (unlinked x m as q) = mMsgPoolMaxSize q"
  "mMsgPoolIsFull (unlinked x m as q) = mMsgPoolIsFull q"
  "mBlocked (unlinked x m as q) = mBlocked q" "mQuit (unlinked x m as q) = mQuit q"
  "mNotEnqueMsg (unlinked x m as q) = mNotEnqueMsg q" "mMsgPool (unlinked x m as q) = mMsgPool q"
  by (simp_all add: unlinked_def)

lemma unlinks_head:
  assumes shape: "queue_shape q (x # bs) ps" and x: "x \<noteq> 0" "cells q x = Some m"
  shows "unlinks x m [] bs ps q"
proof -
  have nx: "chain (cells q) (mNext m) bs" and hd: "mMsgQueueHead q = x"
    and tl: "mMsgQueueTail q = last (x # bs)" and d: "distinct ((x # bs) @ ps)"
    using shape x by (auto simp: queue_shape_def)
  have "linked (unlinked x m [] q) bs"
    using nx d tl chain_Nil_iff [OF nx] by (auto simp: linked_def unlinked_def)
  moreover have "RECYCLEMIDDLE x x q = bnd (recycleMsg x (unlinked x m [] q))
      (\<lambda>q. Inr (q\<lparr>mMsgQueueSize := mMsgQueueSize q - 1\<rparr>))"
    using x hd by (simp add: RECYCLEMIDDLE_def take_next_Inr Let_def unlinked_def) (simp add: put_def)
  ultimately show ?thesis using x d shape
    by (auto simp: unlinks_def unlinked_def msg_at_def fun_eq_iff put_def queue_shape_def)
qed

lemma unlinks_behind:
  assumes shape: "queue_shape q ((cs @ [b]) @ x # bs) ps" and x: "x \<noteq> 0" "cells q x = Some m"
  shows "unlinks x m (cs @ [b]) bs ps q"
proof -
  let ?q = "unlinked x m (cs @ [b]) q"
  have ch: "chain (cells q) (mMsgQueueHead q) (cs @ b # x # bs)" and d: "distinct ((cs @ b # x # bs) @ ps)"
    and tl: "mMsgQueueTail q = last (x # bs)"
    using shape by (auto simp: queue_shape_def)
  obtain mb where b: "b \<noteq> 0" "cells q b = Some mb" "mNext mb = x"
    using ch by (auto simp: lseg_append split: option.splits)
  have lb: "bs = []" if "last bs = x" using d that last_in_set [of bs] by auto
  have bx: "b \<noteq> x" and px: "b \<notin> set ps" "x \<notin> set ps" using d by auto
  have "chain ((cells q)(b := Some (mb\<lparr>mNext := mNext m\<rparr>))) (mMsgQueueHead q) (cs @ b # bs)"
    by (rule chain_remove_after [OF _ _ b(2) x(2)]) (use ch d in auto)
  then have "chain ((cells q)(x := Some (m\<lparr>mNext := 0\<rparr>), b := Some (mb\<lparr>mNext := mNext m\<rparr>)))
      (mMsgQueueHead q) (cs @ b # bs)"
    using d bx by (simp add: fun_upd_twist [of x b])
  then have "linked ?q ((cs @ [b]) @ bs)" using b d tl lb by (auto simp: linked_def unlinked_def)
  moreover have "RECYCLEMIDDLE x b q =
      bnd (recycleMsg x ?q) (\<lambda>q. Inr (q\<lparr>mMsgQueueSize := mMsgQueueSize q - 1\<rparr>))"
    using x b bx
    by (simp add: RECYCLEMIDDLE_def take_next_Inr set_next_Inr put_put_other unlinked_def)
      (simp add: put_def)
  ultimately show ?thesis using x b bx px shape
    by (auto simp: unlinks_def unlinked_def msg_at_def fun_eq_iff put_def queue_shape_def)
qed

lemma unlinked_shape:
  assumes shape: "queue_shape q (as @ x # bs) ps" and u: "unlinks x m as bs ps q"
  shows "queue_shape (unlinked x m as q) (as @ bs) ps"
proof -
  let ?q = "unlinked x m as q"
  have li: "linked ?q (as @ bs)" and pl: "chain (cells ?q) (mMsgPool ?q) ps" and m1: "msg_at ?q = msg_at q"
    using u by (simp_all add: unlinks_def)
  have qw: "qwhen ?q = qwhen q" using m1 by (auto simp: qwhen_def fun_eq_iff)
  have "cells ?q a = None \<longleftrightarrow> cells q a = None" for a by (metis m1 msg_at_eq_None)
  then have "wf_mem ?q" using shape by (auto simp: queue_shape_def wf_mem_def)
  then show ?thesis using shape li pl m1 unfolding queue_shape_def qw linked_def
    by (auto simp: sorted_append)
qed

lemma RECYCLEMIDDLE_ok:
  assumes rel: "queue_rel q (as @ x # bs) ps" and open_q: "\<not> mQuit q"
  shows "\<exists>q' m. msg_at q x = Some m \<and>
    RECYCLEMIDDLE x (if as = [] then x else last as) q = Inr q' \<and>
    queue_rel q' (as @ bs) (if pools q then x # ps else ps) \<and>
    msg_at q' = (msg_at q)(x := if pools q then Some (recycled m) else None) \<and>
    calls q' = calls q @ recycle_calls m \<and> ctl q' = ctl q \<and> frame (set (as @ x # bs)) q q'"
proof -
  have shape: "queue_shape q (as @ x # bs) ps" using rel by (rule queue_rel_shape)
  then have ch: "chain (cells q) (mMsgQueueHead q) (as @ x # bs)" and d: "distinct ((as @ x # bs) @ ps)"
    by (auto simp: queue_shape_def)
  obtain m where x: "x \<noteq> 0" "cells q x = Some m" using ch by (auto elim: chain_snocD)
  have u: "unlinks x m as bs ps q"
    using unlinks_head [OF _ x] unlinks_behind [OF _ x] shape by (cases as rule: rev_cases) auto
  let ?q1 = "unlinked x m as q"
  have fr1: "frame (set (as @ x # bs)) q ?q1"
    by (cases as rule: rev_cases) (auto simp: unlinked_def frame_def)
  have l1: "loose ?q1 (as @ bs) ps x (m\<lparr>mNext := 0\<rparr>)"
    using x u d by (auto simp: loose_def unlinks_def)
  have pq: "pools ?q1 = pools q" by (simp add: pools_def)
  obtain q2 where q2: "recycleMsg x ?q1 = Inr q2"
    "queue_shape q2 (as @ bs) (if pools q then x # ps else ps)"
    "msg_at q2 = (msg_at q)(x := if pools q then Some (recycled (strip m)) else None)"
    "calls q2 = calls q @ recycle_calls m" "ctl q2 = ctl q" "mMsgQueueSize q2 = mMsgQueueSize q"
    "frame {x} ?q1 q2"
    using recycleMsg_ok [OF unlinked_shape [OF shape u] l1] u unfolding pq
    by (auto simp: recycle_calls_def unlinks_def)
  let ?q = "q2\<lparr>mMsgQueueSize := mMsgQueueSize q2 - 1\<rparr>"
  have "queue_shape ?q (as @ bs) (if pools q then x # ps else ps)" using q2(2) by simp
  then have "queue_rel ?q (as @ bs) (if pools q then x # ps else ps)"
    using q2 rel open_q by (auto simp: queue_rel_def)
  moreover have "msg_at ?q = msg_at q2" by (rule msg_at_cong) simp
  moreover have "frame (set (as @ x # bs)) q ?q" using fr1 q2(7) by (auto simp: frame_def)
  ultimately show ?thesis
    using u q2 x by (intro exI [of _ ?q] exI [of _ "strip m"]) (simp add: msg_at_def unlinks_def)
qed

text \<open>
  One lemma for all nine \<open>removeMessage\<close> overloads that select by content: the first selected
  message leaves the queue and goes to the pool (or is deleted), everything else stays.
\<close>

lemma remove_loop_ok:
  assumes rel: "queue_rel q qs ps" and st: "stable match"
  shows "case List.find (sel q match handler) qs of
      None \<Rightarrow> remove_loop match handler q = Inr q
    | Some x \<Rightarrow> \<exists>q' m. msg_at q x = Some m \<and> remove_loop match handler q = Inr q' \<and>
        queue_rel q' (remove1 x qs) (if pools q then x # ps else ps) \<and>
        msg_at q' = (msg_at q)(x := if pools q then Some (recycled m) else None) \<and>
        calls q' = calls q @ recycle_calls m \<and> ctl q' = ctl q \<and> frame (set qs) q q'"
proof (cases "List.find (sel q match handler) qs")
  case None
  have ch: "chain (cells q) (mMsgQueueHead q) qs" and len: "length qs \<le> brk q"
    using rel queue_shape_length [OF queue_rel_shape [OF rel]]
    by (auto simp: queue_rel_def queue_shape_def)
  from None have "\<forall>a\<in>set qs. \<not> sel q match handler a" by (auto simp: find_None_iff)
  from remove_walk_none [OF ch len st this] show ?thesis
    unfolding None by (simp add: remove_loop_def)
next
  case (Some x)
  then obtain as bs where qs: "qs = as @ x # bs" and no: "\<forall>a\<in>set as. \<not> sel q match handler a"
    and yes: "sel q match handler x"
    unfolding find_Some_iff by (metis id_take_nth_drop in_set_conv_nth length_take less_trans
        min.absorb4 nth_take)
  have ch: "chain (cells q) (mMsgQueueHead q) (as @ x # bs)" and len: "length (as @ x # bs) \<le> brk q"
    and d: "distinct qs" and open_q: "\<not> mQuit q"
    using rel queue_shape_length [OF queue_rel_shape [OF rel]] qs
    by (auto simp: queue_rel_def queue_shape_def)
  let ?h = "mMsgQueueHead q"
  have h: "?h \<noteq> 0" using chain_Nil_iff [OF ch] by simp
  have "last (?h # as) = (if as = [] then x else last as)"
    using ch by (auto simp: chain_hd)
  then have e: "remove_loop match handler q = RECYCLEMIDDLE x (if as = [] then x else last as) q"
    using remove_walk_first [OF ch _ st no yes, of "brk q" ?h] h len by (simp add: remove_loop_def)
  have "remove1 x qs = as @ bs" using d unfolding qs by (simp add: remove1_append)
  then show ?thesis
    using RECYCLEMIDDLE_ok [of q as x bs ps, folded qs] rel open_q
    unfolding Some e by simp
qed

lemma stable_simps [intro!, simp]:
  "stable (\<lambda>h _. h = p)" "stable (\<lambda>_ m. mCallback m = r)" "stable (\<lambda>_ m. mWhat m = w)"
  "stable (\<lambda>_ m. mHandleCallback m = c)"
  "stable (\<lambda>_ m. mWhat m \<ge> lo \<and> mWhat m \<le> hi \<and> mCallback m = r)"
  "stable (\<lambda>_ m. mWhat m = w \<and> mArg1 m = a1 \<and> mArg2 m = a2 \<and> mCallback m = r)"
  "stable (\<lambda>_ m. mWhat m = w \<and> mHandleCallback m = c)"
  "stable (\<lambda>_ m. (mWhat m \<ge> lo \<and> mWhat m \<le> hi) \<and> mHandleCallback m = c)"
  "stable (\<lambda>_ m. mWhat m = w \<and> mArg1 m = a1 \<and> mArg2 m = a2 \<and> mHandleCallback m = c)"
  by (simp_all add: stable_def)

subsection \<open>Emptying and quitting\<close>

definition freed :: "ptr list \<Rightarrow> 'a mem_scheme \<Rightarrow> 'a mem_scheme" where
  "freed as w = w\<lparr>cells := (\<lambda>a. if a \<in> set as then None else cells w a),
     calls := calls w @ concat (map (\<lambda>a. recycle_calls (the (cells w a))) as)\<rparr>"

lemma freed_simps [simp]:
  "cells (freed as w) a = (if a \<in> set as then None else cells w a)" "brk (freed as w) = brk w"
  "calls (freed as w) = calls w @ concat (map (\<lambda>a. recycle_calls (the (cells w a))) as)"
  by (simp_all add: freed_def)

lemma freed_mqueue_simps [simp]:
  fixes q :: "'a mqueue_scheme"
  shows "mMsgQueueHead (freed as q) = mMsgQueueHead q" "mMsgQueueTail (freed as q) = mMsgQueueTail q"
    "mMsgQueueSize (freed as q) = mMsgQueueSize q" "mWait (freed as q) = mWait q"
    "mMsgPool (freed as q) = mMsgPool q" "mMsgPoolSize (freed as q) = mMsgPoolSize q"
    "mMsgPoolMaxSize (freed as q) = mMsgPoolMaxSize q" "mMsgPoolIsFull (freed as q) = mMsgPoolIsFull q"
    "mBlocked (freed as q) = mBlocked q" "mQuit (freed as q) = mQuit q"
    "mNotEnqueMsg (freed as q) = mNotEnqueMsg q" "mOutTimeTest (freed as q) = mOutTimeTest q"
    "freed as (q\<lparr>mMsgQueueHead := h\<rparr>) = (freed as q)\<lparr>mMsgQueueHead := h\<rparr>"
    "freed as (q\<lparr>mMsgPool := h\<rparr>) = (freed as q)\<lparr>mMsgPool := h\<rparr>"
  by (simp_all add: freed_def cong: if_cong)

lemma msg_at_freed [simp]: "msg_at (freed as w) = (\<lambda>a. if a \<in> set as then None else msg_at w a)"
  by (auto simp: msg_at_def)

lemma calls_freed_msg_at:
  "(\<And>a. a \<in> set as \<Longrightarrow> cells w a \<noteq> None) \<Longrightarrow>
    concat (map (\<lambda>a. recycle_calls (the (cells w a))) as) =
    concat (map (\<lambda>a. recycle_calls (the (msg_at w a))) as)"
  by (intro arg_cong [where f = concat] map_cong) (fastforce simp: msg_at_def)+

lemma free_each_chain:
  assumes "chain (cells q) p as" and "distinct as" and "length as \<le> n"
  shows "free_each n p q = Inr (freed as q)"
  using assms
proof (induction as arbitrary: p q n)
  case Nil
  then show ?case by (cases n) (simp_all add: freed_def)
next
  case (Cons a as)
  then obtain k m where k: "n = Suc k" "length as \<le> k" "p = a" "a \<noteq> 0" "cells q a = Some m"
    "chain (cells q) (mNext m) as" "a \<notin> set as" "distinct as"
    by (cases n) (auto split: option.splits)
  let ?m = "m\<lparr>mNext := 0\<rparr>"
  let ?q = "(kill a q)\<lparr>calls := calls q @ recycle_calls m\<rparr>"
  have "Msg_reset a (put a ?m q) = Inr ?q"
    using k by (simp add: Msg_reset_single recycle_calls_def)
  then have step: "free_each n p q = free_each k (mNext m) ?q"
    using k by (simp add: take_next_Inr)
  have "chain (cells ?q) (mNext m) as" using k by simp
  from Cons.IH [OF this k(8,2)] have ih: "free_each k (mNext m) ?q = Inr (freed as ?q)" .
  have cs: "(\<lambda>x. if x \<in> set as then None else cells ?q x) =
      (\<lambda>x. if x \<in> set (a # as) then None else cells q x)"
    by (auto simp: fun_eq_iff)
  have ls: "map (\<lambda>x. recycle_calls (the (cells ?q x))) as =
      map (\<lambda>x. recycle_calls (the (cells q x))) as"
    using k by (intro map_cong) auto
  show ?case unfolding step ih freed_def cs ls using k by (simp add: kill_def)
qed

lemma quit_safely_ok:
  assumes "queue_rel q qs ps" and "\<not> mQuit q"
  shows "\<exists>q'. quit True q = Inr q' \<and> queue_rel q' qs ps \<and> msg_at q' = msg_at q \<and>
    calls q' = calls q \<and> mNotEnqueMsg q' \<and> \<not> mQuit q' \<and> \<not> mBlocked q' \<and> brk q' = brk q \<and>
    mWait q' = Suc (mWait q) \<and> frame {} q q'"
proof -
  let ?q = "notifyAll_mWait (q\<lparr>mNotEnqueMsg := True, mBlocked := False\<rparr>)"
  have "queue_rel ?q qs ps"
    using assms by (auto simp: queue_rel_def queue_shape_def wf_mem_def)
  then show ?thesis using assms by (simp add: quit_def frame_def)
qed

lemma quit_now_ok:
  assumes rel: "queue_rel q qs ps" and open_q: "\<not> mQuit q"
  shows "\<exists>q'. quit False q = Inr q' \<and> queue_rel q' [] ps \<and>
    msg_at q' = (\<lambda>a. if a \<in> set qs then None else msg_at q a) \<and>
    calls q' = calls q @ concat (map (\<lambda>a. recycle_calls (the (msg_at q a))) qs) \<and>
    mQuit q' \<and> \<not> mBlocked q' \<and> mMsgQueueSize q' = mMsgQueueSize q \<and> brk q' = brk q \<and>
    mWait q' = Suc (mWait q) \<and> frame (set qs) q q'"
proof -
  have shape: "queue_shape q qs ps" using rel by (rule queue_rel_shape)
  have ch: "chain (cells q) (mMsgQueueHead q) qs" "distinct qs" "length qs \<le> brk q"
    using shape queue_shape_length [OF shape] by (auto simp: queue_shape_def)
  let ?q = "notifyAll_mWait ((freed qs q)\<lparr>mMsgQueueHead := 0, mMsgQueueTail := 0, mQuit := True,
    mBlocked := False\<rparr>)"
  have e: "quit False q = Inr ?q"
    using open_q free_each_chain [of "q\<lparr>mMsgQueueHead := 0\<rparr>" "mMsgQueueHead q" qs "brk q"] ch
    by (simp add: quit_def)
  have m: "msg_at ?q = (\<lambda>a. if a \<in> set qs then None else msg_at q a)"
    using msg_at_cong [of ?q "freed qs q"] by simp
  have "chain (cells ?q) (mMsgPool ?q) ps = chain (cells q) (mMsgPool ?q) ps"
    using shape by (intro lseg_cong) (auto simp: queue_shape_def)
  then have "queue_shape ?q [] ps"
    using shape unfolding queue_shape_def m by (auto simp: wf_mem_def)
  moreover have "concat (map (\<lambda>a. recycle_calls (the (cells q a))) qs) =
      concat (map (\<lambda>a. recycle_calls (the (msg_at q a))) qs)"
    using queue_shape_live [OF shape] by (intro calls_freed_msg_at) auto
  ultimately show ?thesis using e m by (simp add: queue_rel_def frame_def)
qed

subsection \<open>Allocation\<close>

lemma new_Msg_ok:
  assumes rel: "queue_rel q qs ps"
  defines "q' \<equiv> snd (new_Msg q)"
  shows "queue_rel q' qs ps" and "loose q' qs ps (brk q) Msg_new"
    and "msg_at q' = (msg_at q)(brk q := Some (strip Msg_new))" and "frame {brk q} q q'"
    and "cells q (brk q) = None"
proof -
  have shape: "queue_shape q qs ps" using rel by (rule queue_rel_shape)
  have wf: "wf_mem q" using shape by (simp add: queue_shape_def)
  then show free: "cells q (brk q) = None" by (auto simp: wf_mem_def)
  have q': "cells q' = (cells q)(brk q := Some Msg_new)" "brk q' = Suc (brk q)"
    "mMsgQueueHead q' = mMsgQueueHead q" "mMsgQueueTail q' = mMsgQueueTail q"
    "mMsgPool q' = mMsgPool q" "mMsgPoolSize q' = mMsgPoolSize q"
    "mMsgPoolMaxSize q' = mMsgPoolMaxSize q" "mBlocked q' = mBlocked q" "mQuit q' = mQuit q"
    "mNotEnqueMsg q' = mNotEnqueMsg q" "mMsgQueueSize q' = mMsgQueueSize q"
    by (simp_all add: q'_def new_Msg_def)
  show m: "msg_at q' = (msg_at q)(brk q := Some (strip Msg_new))" by (auto simp: msg_at_def q')
  show "frame {brk q} q q'" by (simp add: frame_def q')
  have out: "brk q \<notin> set qs" "brk q \<notin> set ps"
    using queue_shape_live [OF shape] free by fastforce+
  note qw = map_qwhen_upd [OF m out(1)]
  have "wf_mem q'" using wf by (auto simp: wf_mem_def q' less_Suc_eq)
  moreover have "chain (cells q') (mMsgQueueHead q') qs" "chain (cells q') (mMsgPool q') ps"
    using shape out by (simp_all add: queue_shape_def q')
  ultimately have "queue_shape q' qs ps"
    using shape out m unfolding queue_shape_def qw by (auto simp: q')
  then show "queue_rel q' qs ps" using rel by (simp add: queue_rel_def q')
  show "loose q' qs ps (brk q) Msg_new"
    using wf out by (simp add: loose_def q' wf_mem_def) (simp add: Msg_new_def)
qed

text \<open>A write to a message the client owns.\<close>

lemma queue_rel_put:
  assumes rel: "queue_rel q qs ps" and l: "loose q qs ps p m" and n: "mNext m' = 0"
  shows "queue_rel (put p m' q) qs ps" and "loose (put p m' q) qs ps p m'"
proof -
  have shape: "queue_shape q qs ps" using rel by (rule queue_rel_shape)
  from l have p: "p \<noteq> 0" "cells q p = Some m" "p \<notin> set qs" "p \<notin> set ps"
    by (auto simp: loose_def)
  have m: "msg_at (put p m' q) = (msg_at q)(p := Some (strip m'))" by simp
  note qw = map_qwhen_upd [OF m p(3)]
  have "queue_shape (put p m' q) qs ps"
    using shape p unfolding queue_shape_def qw by (auto simp: wf_mem_def)
  then show "queue_rel (put p m' q) qs ps" using rel by (simp add: queue_rel_def)
  show "loose (put p m' q) qs ps p m'" using p n by (simp add: loose_def)
qed

end
