(* ===== verification/Msg_Queue_All.thy ===== *)
theory Msg_Queue_All
  imports Msg_Queue_Inv
begin

text \<open>
  \<open>MsgQueue::removeAllMessages\<close> and the destructor. The destructor frees everything once.
  \<open>removeAllMessages\<close> does what its name says only when the head is not one of the messages to
  remove: without a handler it dereferences the head it has just moved away, and with the handler
  of the head it continues from the removed message's link, which by then leads into the pool or
  into freed memory.
\<close>

subsection \<open>The destructor\<close>

lemma clearMsgPool_ok:
  assumes "queue_rel q qs ps"
  shows "clearMsgPool q = Inr ((freed ps q)\<lparr>mMsgPool := 0, mMsgPoolSize := 0\<rparr>)"
proof -
  have "chain (cells q) (mMsgPool q) ps" "distinct ps" "length ps \<le> brk q"
    using assms queue_shape_length [OF queue_rel_shape [OF assms]]
    by (auto simp: queue_rel_def queue_shape_def)
  then show ?thesis
    using free_each_chain [of "q\<lparr>mMsgPool := 0\<rparr>" "mMsgPool q" ps "brk q"]
    by (simp add: clearMsgPool_def)
qed

lemma MsgQueue_delete_ok:
  assumes rel: "queue_rel q qs ps"
  shows "\<exists>q'. MsgQueue_delete q = Inr q' \<and> mMsgQueueHead q' = 0 \<and> mMsgPool q' = 0 \<and>
    msg_at q' = (\<lambda>a. if a \<in> set qs \<union> set ps then None else msg_at q a)"
proof -
  have shape: "queue_shape q qs ps" using rel by (rule queue_rel_shape)
  have ch: "chain (cells q) (mMsgQueueHead q) qs" "distinct qs" "length qs \<le> brk q"
    using shape queue_shape_length [OF shape] by (auto simp: queue_shape_def)
  let ?q = "(freed qs q)\<lparr>mMsgQueueHead := 0, mName := [], mMsgQueueSize := 0,
    mIdleHandlerFunc := 0, mBlocked := False, mQuit := True, mNotEnqueMsg := False\<rparr>"
  have "chain (cells ?q) (mMsgPool ?q) ps = chain (cells q) (mMsgPool ?q) ps"
    using shape by (intro lseg_cong) (auto simp: queue_shape_def)
  then have pl: "chain (cells (?q\<lparr>mMsgPool := 0\<rparr>)) (mMsgPool q) ps" "distinct ps" "length ps \<le> brk ?q"
    using shape queue_shape_length [OF shape] by (auto simp: queue_shape_def)
  have 1: "free_each (brk q) (mMsgQueueHead q) (q\<lparr>mMsgQueueHead := 0\<rparr>) =
      Inr ((freed qs q)\<lparr>mMsgQueueHead := 0\<rparr>)"
    using free_each_chain [of "q\<lparr>mMsgQueueHead := 0\<rparr>" "mMsgQueueHead q" qs "brk q"] ch by simp
  have 2: "free_each (brk ?q) (mMsgPool ?q) (?q\<lparr>mMsgPool := 0\<rparr>) = Inr (freed ps (?q\<lparr>mMsgPool := 0\<rparr>))"
    using free_each_chain [OF pl] by simp
  let ?r = "(freed ps (?q\<lparr>mMsgPool := 0\<rparr>))\<lparr>mMsgPoolSize := 0, mMsgPoolMaxSize := 0, mMsgQueueTail := 0\<rparr>"
  have "MsgQueue_delete q = Inr ?r"
    using 2 by (simp add: MsgQueue_delete_def clearMsgPool_def 1 Let_def)
  moreover have "msg_at ?r = (\<lambda>a. if a \<in> set qs \<union> set ps then None else msg_at q a)"
    by (auto simp: msg_at_def fun_eq_iff)
  ultimately show ?thesis by simp
qed

subsection \<open>removeAllMessages without a handler\<close>

lemma removeAll_any_fault:
  assumes "queue_rel q (x # xs) ps"
  shows "removeAllMessages 0 q = Inl NullDeref"
proof -
  have "mMsgQueueHead q = x" "x \<noteq> 0" "brk q \<noteq> 0"
    using assms by (auto simp: queue_rel_def queue_shape_def wf_mem_def)
  then show ?thesis
    by (cases "brk q") (simp_all add: removeAllMessages_def take_next_def)
qed

subsection \<open>removeAllMessages with the handler of the head\<close>

lemma removeAll_walk_pool:
  assumes "chain (cells q) h as" and "length as \<le> n"
    and "\<forall>a\<in>set as. \<exists>m. msg_at q a = Some m \<and> recycled m = m" and "handler \<noteq> 0"
  shows "removeAll_handler n handler pr h q = Inr q"
  using assms
proof (induction as arbitrary: n h pr)
  case Nil
  then show ?case by (cases n) auto
next
  case (Cons a as)
  then obtain k m where k: "n = Suc k" "length as \<le> k" "h = a" "a \<noteq> 0" "cells q a = Some m"
    "chain (cells q) (mNext m) as"
    by (cases n) (auto split: option.splits)
  from Cons.prems(3) k(5) have "recycled (strip m) = strip m" by (auto simp: msg_at_def)
  then have "mTarget m = 0" by (metis recycled_simps(6) strip_simps(6))
  with k Cons show ?case by auto
qed

lemma removeAll_head_step:
  assumes rel: "queue_rel q (x # xs) ps" and tg: "cells q x = Some m" "mTarget m = handler"
    and h: "handler \<noteq> 0"
  defines "q1 \<equiv> (put x (m\<lparr>mNext := 0\<rparr>) q)\<lparr>mMsgQueueHead := mNext m\<rparr>"
  shows "removeAllMessages handler q =
    bnd (recycleMsg x q1) (\<lambda>q.
      let q = q\<lparr>mMsgQueueSize := mMsgQueueSize q - 1\<rparr>;
          q = (if x = mMsgQueueTail q then q\<lparr>mMsgQueueTail := 0\<rparr> else q)
      in bnd (ld x q) (\<lambda>pm. removeAll_handler (2 * brk q1 - 1) handler x (mNext pm) q))"
    and "queue_shape (q1\<lparr>mMsgQueueTail := (if xs = [] then 0 else mMsgQueueTail q)\<rparr>) xs ps"
    and "msg_at q1 = msg_at q"
proof -
  have shape: "queue_shape q (x # xs) ps" using rel by (rule queue_rel_shape)
  have x: "mMsgQueueHead q = x" "x \<noteq> 0" "chain (cells q) (mNext m) xs" "0 < brk q"
    using shape tg by (auto simp: queue_shape_def wf_mem_def)
  obtain k where k: "2 * brk q = Suc k" using x(4) by (cases "2 * brk q") auto
  have st: "put x (m\<lparr>mNext := 0\<rparr>) (q\<lparr>mMsgQueueHead := 0\<rparr>)\<lparr>mMsgQueueHead := mNext m\<rparr> = q1"
    by (simp add: q1_def put_def)
  show "removeAllMessages handler q =
    bnd (recycleMsg x q1) (\<lambda>q.
      let q = q\<lparr>mMsgQueueSize := mMsgQueueSize q - 1\<rparr>;
          q = (if x = mMsgQueueTail q then q\<lparr>mMsgQueueTail := 0\<rparr> else q)
      in bnd (ld x q) (\<lambda>pm. removeAll_handler (2 * brk q1 - 1) handler x (mNext pm) q))"
    using x tg h k st
    by (simp add: removeAllMessages_def take_next_Inr q1_def [symmetric] Let_def)
      (simp add: q1_def Let_def cong: if_cong)
  show m1: "msg_at q1 = msg_at q"
    using tg msg_at_cong [of q1 "put x (m\<lparr>mNext := 0\<rparr>) q"] by (auto simp: q1_def msg_at_def fun_eq_iff)
  have m2: "msg_at (q1\<lparr>mMsgQueueTail := t\<rparr>) = msg_at q" for t
    using m1 by (auto simp: msg_at_def fun_eq_iff)
  have qw: "qwhen (q1\<lparr>mMsgQueueTail := t\<rparr>) = qwhen q" for t
    using m2 [of t] by (simp add: qwhen_def fun_eq_iff)
  show "queue_shape (q1\<lparr>mMsgQueueTail := (if xs = [] then 0 else mMsgQueueTail q)\<rparr>) xs ps"
    using shape x queue_shape_live [OF shape, of x] unfolding queue_shape_def m2 qw
    by (auto simp: wf_mem_def q1_def)
qed

lemma removeAll_full:
  fixes q :: "'a mqueue_scheme"
  assumes rel: "queue_rel q (x # xs) ps" and tg: "cells q x = Some m" "mTarget m = handler"
    and h: "handler \<noteq> 0" and "\<not> pools q"
  shows "removeAllMessages handler q = Inl Dangling"
proof -
  define q1 where "q1 = (put x (m\<lparr>mNext := 0\<rparr>) q)\<lparr>mMsgQueueHead := mNext m\<rparr>"
  note step = removeAll_head_step [OF rel tg h, folded q1_def]
  have x: "x \<noteq> 0" "\<not> mQuit q"
    using queue_rel_shape [OF rel] by (auto simp: queue_shape_def split: option.splits)
  have full: "mMsgPoolSize q1 = mMsgPoolMaxSize q1" using assms(5) x by (simp add: pools_def q1_def)
  have "Msg_recycleUnchecked x q1 =
      Inr ((put x (recycled (m\<lparr>mNext := 0\<rparr>)) q1)\<lparr>calls := calls q @ recycle_calls m\<rparr>)"
    using x by (simp add: Msg_recycleUnchecked_def q1_def recycle_calls_def)
  then have "recycleMsg x q1 = Inr ((kill x q1)\<lparr>calls := calls q @ recycle_calls m\<rparr>)"
    using full x by (simp add: recycleMsg_def Msg_reset_single recycle_calls_def)
  then show ?thesis using step(1) x by (simp add: Let_def ld_def)
qed

text \<open>The queue with its head unhooked and another tail, and the same with the head put into the pool.\<close>

definition unhooked :: "ptr \<Rightarrow> Msg \<Rightarrow> ptr \<Rightarrow> 'a mqueue_scheme \<Rightarrow> 'a mqueue_scheme" where
  "unhooked x m u q = (put x (m\<lparr>mNext := 0\<rparr>) q)\<lparr>mMsgQueueHead := mNext m, mMsgQueueTail := u\<rparr>"

definition pooled_head :: "ptr \<Rightarrow> Msg \<Rightarrow> ptr \<Rightarrow> 'a mqueue_scheme \<Rightarrow> 'a mqueue_scheme" where
  "pooled_head x m u q = put x ((recycled m)\<lparr>mNext := mMsgPool q\<rparr>) (unhooked x m u q)
    \<lparr>calls := calls q @ recycle_calls m, mMsgPool := x, mMsgPoolSize := mMsgPoolSize q + 1,
     mMsgPoolIsFull := (mMsgPoolIsFull q \<or> mMsgPoolSize q + 1 = mMsgPoolMaxSize q)\<rparr>"

lemma recycle_unhooked:
  assumes "pools q" and "x \<noteq> 0"
  shows "recycleMsg x (unhooked x m u q) = Inr (pooled_head x m u q)"
  using assms
  by (simp add: recycleMsg_def pools_def unhooked_def pooled_head_def set_next_Inr Let_def
      Msg_recycleUnchecked_def recycle_calls_def)
    (auto simp: put_def recycled_eq)

lemma pooled_head_shape:
  assumes sh: "queue_shape (unhooked x m u q) xs ps" and x: "x \<noteq> 0" "x \<notin> set xs" "x \<notin> set ps" and room: "pools q"
    and at: "msg_at q x = Some (strip m)"
  shows "queue_shape (pooled_head x m u q) xs (x # ps) \<and>
    msg_at (pooled_head x m u q) = (msg_at q)(x := Some (recycled (strip m))) \<and>
    calls (pooled_head x m u q) = calls q @ recycle_calls m"
proof -
  let ?u = "unhooked x m u q"
  have "loose ?u xs ps x (m\<lparr>mNext := 0\<rparr>)" "pools ?u" using x room by (auto simp: loose_def pools_def unhooked_def)
  moreover have "msg_at ?u = msg_at q" "calls ?u = calls q"
    using at by (auto simp: unhooked_def msg_at_def fun_eq_iff)
  moreover have "recycle_calls (m\<lparr>mNext := 0\<rparr>) = recycle_calls m" by (simp add: recycle_calls_def)
  ultimately show ?thesis
    using recycleMsg_ok [OF sh, of x "m\<lparr>mNext := 0\<rparr>"] recycle_unhooked [OF room x(1), of m u] by auto
qed

lemma removeAll_rest:
  fixes q :: "'a mqueue_scheme"
  assumes rel: "queue_rel q (x # xs) ps" and tg: "cells q x = Some m" "mTarget m = handler"
    and h: "handler \<noteq> 0"
    and room: "pools q"
  shows "\<exists>q'. removeAllMessages handler q = Inr q' \<and> queue_rel q' xs (x # ps) \<and>
      msg_at q' = (msg_at q)(x := Some (recycled (strip m))) \<and>
      calls q' = calls q @ recycle_calls m"
proof -
  define t where "t = (if xs = [] then 0 else mMsgQueueTail q)"
  have q1: "put x (m\<lparr>mNext := 0\<rparr>) q\<lparr>mMsgQueueHead := mNext m\<rparr> = unhooked x m (mMsgQueueTail q) q"
    "unhooked x m (mMsgQueueTail q) q\<lparr>mMsgQueueTail := t\<rparr> = unhooked x m t q"
    by (simp_all add: unhooked_def put_def)
  note step = removeAll_head_step [OF rel tg h, unfolded q1(1), folded t_def, unfolded q1(2)]
  have shape: "queue_shape q (x # xs) ps" using rel by (rule queue_rel_shape)
  have x: "x \<noteq> 0" "x \<notin> set xs" "x \<notin> set ps" and tl: "mMsgQueueTail q = last (x # xs)"
    using shape by (auto simp: queue_shape_def split: option.splits)
  let ?r = "pooled_head x m t q"
  have at: "msg_at q x = Some (strip m)" using tg(1) by (simp add: msg_at_def)
  note r = pooled_head_shape [OF step(2) x room at]
  let ?q = "?r\<lparr>mMsgQueueSize := mMsgQueueSize q - 1\<rparr>"
  let ?p = "pooled_head x m (mMsgQueueTail q) q"
  have st: "(if x = mMsgQueueTail ?p then ?p\<lparr>mMsgQueueSize := n, mMsgQueueTail := 0\<rparr>
      else ?p\<lparr>mMsgQueueSize := n\<rparr>) = ?r\<lparr>mMsgQueueSize := n\<rparr>" for n
    using tl x(2) by (auto simp: pooled_head_def t_def unhooked_def put_def)
  have "chain (cells ?r) (mMsgPool ?r) (x # ps)" "\<forall>a\<in>set ps. \<exists>m. msg_at ?r a = Some m \<and> recycled m = m"
    using r by (auto simp: queue_shape_def)
  moreover have "mMsgPool ?r = x" "cells ?r x = Some ((recycled m)\<lparr>mNext := mMsgPool q\<rparr>)" "msg_at ?q = msg_at ?r"
    by (simp_all add: pooled_head_def msg_at_def)
  ultimately have pool: "chain (cells ?q) (mMsgPool q) ps" "\<forall>a\<in>set ps. \<exists>m. msg_at ?q a = Some m \<and> recycled m = m"
    by (auto split: option.splits)
  have pl: "length ps \<le> 2 * brk (unhooked x m (mMsgQueueTail q) q) - 1"
    using queue_shape_length [OF shape] by (simp add: unhooked_def)
  have rd: "ld x ?q = Inr ((recycled m)\<lparr>mNext := mMsgPool q\<rparr>)" using x by (simp add: pooled_head_def unhooked_def)
  have "mMsgQueueSize ?p = mMsgQueueSize q" by (simp add: pooled_head_def unhooked_def)
  then have "removeAllMessages handler q = Inr ?q"
    unfolding step(1) recycle_unhooked [OF room x(1)]
    using st [of "mMsgQueueSize q - 1"] rd removeAll_walk_pool [OF pool(1) pl pool(2) h, of x]
    by (simp add: Let_def split: if_splits)
  moreover have "queue_rel ?q xs (x # ps)"
    using rel r x by (auto simp: queue_rel_def pooled_head_def unhooked_def)
  ultimately show ?thesis using r by (intro exI [of _ ?q]) simp
qed

end
