(* ===== verification/Timed_Queue.thy ===== *)
theory Timed_Queue
  imports Base_Prelude "HOL-Library.Multiset"
begin

text \<open>
  The interface between the looper and its message queue: a queue of messages with delivery times.
  \<open>ins_timed\<close> says where a message goes, \<open>enq_batch\<close> and \<open>drain\<close> are how a client uses the two
  operations, and the locale \<open>timed_queue\<close> has the laws a provider must satisfy. From the laws
  alone follows the order in which a client sees its messages: a stable sort by time.
\<close>

definition ins_timed :: "64 word \<Rightarrow> ptr \<Rightarrow> (64 word \<times> ptr) list \<Rightarrow> (64 word \<times> ptr) list" where
  "ins_timed t p xs =
     (if t = 0 then (t, p) # xs
      else takeWhile (\<lambda>x. fst x \<le> t) xs @ (t, p) # dropWhile (\<lambda>x. fst x \<le> t) xs)"

primrec enq_batch ::
  "(ptr \<Rightarrow> 64 word \<Rightarrow> 'q \<Rightarrow> 'q res) \<Rightarrow> (64 word \<times> ptr) list \<Rightarrow> 'q \<Rightarrow> 'q res" where
  "enq_batch enq [] q = Inr q"
| "enq_batch enq (x # xs) q = bnd (enq (snd x) (fst x) q) (enq_batch enq xs)"

primrec drain ::
  "(64 word \<Rightarrow> 'q \<Rightarrow> (ptr \<times> 'q) res) \<Rightarrow> nat \<Rightarrow> 64 word \<Rightarrow> 'q \<Rightarrow> (ptr list \<times> 'q) res" where
  "drain deq 0 now q = Inr ([], q)"
| "drain deq (Suc n) now q =
     bnd (deq now q) (\<lambda>(p, q).
       if p = 0 then Inr ([], q)
       else bnd (drain deq n now q) (\<lambda>(ps, q). Inr (p # ps, q)))"

subsection \<open>Insertion by time is a stable sort\<close>

lemma mset_ins_timed [simp]: "mset (ins_timed t p xs) = add_mset (t, p) (mset xs)"
proof -
  have "mset (takeWhile P xs) + mset (dropWhile P xs) = mset xs" for P :: "64 word \<times> ptr \<Rightarrow> bool"
    by (metis mset_append takeWhile_dropWhile_id)
  then show ?thesis by (simp add: ins_timed_def)
qed

lemma sorted_ins_timed: "sorted (map fst xs) \<Longrightarrow> sorted (map fst (ins_timed t p xs))"
  using sorted_takeWhile_snoc_dropWhile [of fst xs "(t, p)" t] by (simp add: ins_timed_def)

lemma filter_dropWhile_late:
  fixes t :: "64 word"
  assumes "sorted (map fst xs)"
  shows "filter (\<lambda>x. t = fst x) (dropWhile (\<lambda>x. fst x \<le> t) xs) = []"
proof -
  have "t < fst x" if "x \<in> set (dropWhile (\<lambda>x. fst x \<le> t) xs)" for x
    using assms that
  proof (induction xs)
    case (Cons y ys)
    then show ?case by (cases "fst y \<le> t") (auto simp: not_le)
  qed simp
  then show ?thesis by (force simp: filter_empty_conv)
qed

lemma filter_ins_timed:
  assumes "sorted (map fst xs)" and "t \<noteq> 0"
  shows "filter (\<lambda>x. k = fst x) (ins_timed t p xs) =
    filter (\<lambda>x. k = fst x) xs @ (if k = t then [(t, p)] else [])"
proof -
  have e: "filter P (takeWhile Q xs) @ filter P (dropWhile Q xs) = filter P xs"
    for P Q :: "64 word \<times> ptr \<Rightarrow> bool"
    by (metis filter_append takeWhile_dropWhile_id)
  show ?thesis
  proof (cases "k = t")
    case True
    then show ?thesis
      using assms e [of "\<lambda>x. t = fst x" "\<lambda>x. fst x \<le> t"] filter_dropWhile_late [OF assms(1), of t]
      by (simp add: ins_timed_def)
  next
    case False
    then show ?thesis using assms(2) e by (simp add: ins_timed_def)
  qed
qed

definition ins_batch :: "(64 word \<times> ptr) list \<Rightarrow> (64 word \<times> ptr) list \<Rightarrow> (64 word \<times> ptr) list" where
  "ins_batch xs bs = foldl (\<lambda>ys x. ins_timed (fst x) (snd x) ys) xs bs"

lemma ins_batch_props:
  assumes "sorted (map fst xs)" and "\<forall>x\<in>set bs. fst x \<noteq> 0"
  shows "mset (ins_batch xs bs) = mset (xs @ bs)"
    and "sorted (map fst (ins_batch xs bs))"
    and "filter (\<lambda>x. k = fst x) (ins_batch xs bs) = filter (\<lambda>x. k = fst x) (xs @ bs)"
  using assms
proof (induction bs arbitrary: xs)
  case Nil
  { case 1 then show ?case by (simp add: ins_batch_def) next
    case 2 then show ?case by (simp add: ins_batch_def) next
    case 3 then show ?case by (simp add: ins_batch_def) }
next
  case (Cons b bs)
  have step: "ins_batch xs (b # bs) = ins_batch (ins_timed (fst b) (snd b) xs) bs" for xs
    by (simp add: ins_batch_def)
  { case 1 then show ?case using Cons.IH(1) [OF sorted_ins_timed, of xs] by (simp add: step) next
    case 2 then show ?case using Cons.IH(2) [OF sorted_ins_timed, of xs] by (simp add: step) next
    case 3 then show ?case
      using Cons.IH(3) [OF sorted_ins_timed, of xs] by (auto simp: step filter_ins_timed) }
qed

lemma ins_batch_sort_key:
  assumes "sorted (map fst xs)" and "\<forall>x\<in>set bs. fst x \<noteq> 0"
  shows "ins_batch xs bs = sort_key fst (xs @ bs)"
  using ins_batch_props [OF assms] by (intro properties_for_sort_key [symmetric]) auto

lemma sorted_While_filter:
  fixes f :: "'a \<Rightarrow> 'k::linorder"
  assumes "sorted (map f xs)"
  shows "takeWhile (\<lambda>x. f x \<le> d) xs = filter (\<lambda>x. f x \<le> d) xs"
    and "dropWhile (\<lambda>x. f x \<le> d) xs = filter (\<lambda>x. \<not> f x \<le> d) xs"
proof -
  have "takeWhile (\<lambda>x. f x \<le> d) xs = filter (\<lambda>x. f x \<le> d) xs \<and>
      dropWhile (\<lambda>x. f x \<le> d) xs = filter (\<lambda>x. \<not> f x \<le> d) xs"
    using assms
  proof (induction xs)
    case (Cons x xs)
    show ?case
    proof (cases "f x \<le> d")
      case False
      then have "\<forall>y\<in>set xs. \<not> f y \<le> d" using Cons.prems by (auto dest: order_trans)
      with False show ?thesis by (simp add: filter_empty_conv)
    qed (use Cons in simp)
  qed simp
  then show "takeWhile (\<lambda>x. f x \<le> d) xs = filter (\<lambda>x. f x \<le> d) xs"
    and "dropWhile (\<lambda>x. f x \<le> d) xs = filter (\<lambda>x. \<not> f x \<le> d) xs"
    by simp_all
qed

subsection \<open>The contract and what follows from it\<close>

locale timed_queue =
  fixes inv :: "'q \<Rightarrow> bool"
    and pend :: "'q \<Rightarrow> (64 word \<times> ptr) list"
    and mine :: "'q \<Rightarrow> ptr \<Rightarrow> bool"
    and enq :: "ptr \<Rightarrow> 64 word \<Rightarrow> 'q \<Rightarrow> 'q res"
    and deq :: "64 word \<Rightarrow> 'q \<Rightarrow> (ptr \<times> 'q) res"
  assumes time_order: "inv q \<Longrightarrow> sorted (map fst (pend q))"
    and no_null: "inv q \<Longrightarrow> 0 \<notin> snd ` set (pend q)"
    and enq_law: "inv q \<Longrightarrow> mine q p \<Longrightarrow>
      \<exists>q'. enq p t q = Inr q' \<and> inv q' \<and> pend q' = ins_timed t p (pend q) \<and>
        (\<forall>r. r \<noteq> p \<longrightarrow> mine q r \<longrightarrow> mine q' r)"
    and deq_due: "inv q \<Longrightarrow> pend q = x # xs \<Longrightarrow> fst x \<le> now \<Longrightarrow>
      \<exists>q'. deq now q = Inr (snd x, q') \<and> inv q' \<and> pend q' = xs"
    and deq_none: "inv q \<Longrightarrow> \<forall>x\<in>set (pend q). now < fst x \<Longrightarrow>
      \<exists>q'. deq now q = Inr (0, q') \<and> inv q' \<and> pend q' = pend q"
begin

lemma enq_batch_ok:
  "inv q \<Longrightarrow> distinct (map snd bs) \<Longrightarrow> \<forall>x\<in>set bs. mine q (snd x) \<Longrightarrow>
    \<exists>q'. enq_batch enq bs q = Inr q' \<and> inv q' \<and> pend q' = ins_batch (pend q) bs"
proof (induction bs arbitrary: q)
  case Nil
  then show ?case by (simp add: ins_batch_def)
next
  case (Cons b bs)
  then obtain q1 where q1: "enq (snd b) (fst b) q = Inr q1" "inv q1"
    "pend q1 = ins_timed (fst b) (snd b) (pend q)" "\<forall>r. r \<noteq> snd b \<longrightarrow> mine q r \<longrightarrow> mine q1 r"
    using enq_law [of q "snd b" "fst b"] by auto
  have "\<forall>x\<in>set bs. mine q1 (snd x)"
    using Cons.prems(2,3) q1(4) by (metis distinct.simps(2) image_eqI list.set_intros(2) list.simps(9) set_map)
  with Cons.IH [OF q1(2)] Cons.prems(2) q1 show ?case by (auto simp: ins_batch_def)
qed

lemma drain_due:
  "inv q \<Longrightarrow> length (pend q) \<le> n \<Longrightarrow>
    \<exists>q'. drain deq n now q = Inr (map snd (takeWhile (\<lambda>x. fst x \<le> now) (pend q)), q') \<and>
      inv q' \<and> pend q' = dropWhile (\<lambda>x. fst x \<le> now) (pend q)"
proof (induction n arbitrary: q)
  case 0
  then show ?case by simp
next
  case (Suc n)
  show ?case
  proof (cases "\<exists>x xs. pend q = x # xs \<and> fst x \<le> now")
    case True
    then obtain x xs where x: "pend q = x # xs" "fst x \<le> now" by blast
    with deq_due [OF Suc.prems(1)] obtain q1 where
      q1: "deq now q = Inr (snd x, q1)" "inv q1" "pend q1 = xs"
      by blast
    have "snd x \<noteq> 0" using no_null [OF Suc.prems(1)] x by auto
    with Suc.IH [OF q1(2)] Suc.prems(2) q1 x show ?thesis by auto
  next
    case False
    then have "\<forall>x\<in>set (pend q). now < fst x" and "takeWhile (\<lambda>x. fst x \<le> now) (pend q) = []"
      and "dropWhile (\<lambda>x. fst x \<le> now) (pend q) = pend q"
      using time_order [OF Suc.prems(1)] by (cases "pend q"; auto simp: not_le)+
    with deq_none [OF Suc.prems(1)] show ?thesis by fastforce
  qed
qed

text \<open>Everything sent at once and drained later arrives in time order, equal times in send order.\<close>

lemma batch_drain:
  assumes "inv q" and "pend q = []" and "distinct (map snd bs)" and "\<forall>x\<in>set bs. mine q (snd x)"
    and "\<forall>x\<in>set bs. fst x \<noteq> 0" and "length bs \<le> n"
  shows "\<exists>q' q''. enq_batch enq bs q = Inr q' \<and>
    drain deq n now q' = Inr (map snd (filter (\<lambda>x. fst x \<le> now) (sort_key fst bs)), q'') \<and>
    pend q'' = filter (\<lambda>x. \<not> fst x \<le> now) (sort_key fst bs)"
proof -
  obtain q' where q': "enq_batch enq bs q = Inr q'" "inv q'" "pend q' = ins_batch [] bs"
    using enq_batch_ok [OF assms(1,3,4)] assms(2) by auto
  have s: "pend q' = sort_key fst bs" using q'(3) ins_batch_sort_key [of "[]" bs] assms(5) by simp
  have "length (pend q') \<le> n" using assms(6) by (simp add: s)
  from drain_due [OF q'(2) this, of now] q'(1) show ?thesis
    by (auto simp: s sorted_While_filter)
qed

end

end
