(* ===== verification/Msg_Queue_Spec.thy ===== *)
theory Msg_Queue_Spec
  imports Msg_Queue_All Timed_Queue
begin

text \<open>
  The contract of the message queue. \<open>waiting\<close> and \<open>pooled\<close> read the two lists off the pointer
  structure, \<open>queue_ok\<close> is the invariant in terms of them, and \<open>pending\<close> is the abstract value of
  the queue: the waiting messages with their times. The locale \<open>timed_queue\<close> states what a client
  of such a queue may rely on and derives the order of delivery from it once; the last section
  interprets it on \<open>enqueueMessage\<close> and \<open>next_scan\<close>.
\<close>

subsection \<open>Reading the lists off the heap\<close>

primrec nodes :: "nat \<Rightarrow> (ptr \<Rightarrow> Msg option) \<Rightarrow> ptr \<Rightarrow> ptr list" where
  "nodes 0 c p = []"
| "nodes (Suc n) c p =
     (if p = 0 then [] else case c p of None \<Rightarrow> [] | Some m \<Rightarrow> p # nodes n c (mNext m))"

definition waiting :: "'a mqueue_scheme \<Rightarrow> ptr list" where
  "waiting q = nodes (brk q) (cells q) (mMsgQueueHead q)"

definition pooled :: "'a mqueue_scheme \<Rightarrow> ptr list" where
  "pooled q = nodes (brk q) (cells q) (mMsgPool q)"

definition queue_ok :: "'a mqueue_scheme \<Rightarrow> bool" where
  "queue_ok q \<longleftrightarrow> queue_rel q (waiting q) (pooled q)"

definition owned :: "'a mqueue_scheme \<Rightarrow> ptr \<Rightarrow> Msg \<Rightarrow> bool" where
  "owned q p m \<longleftrightarrow> loose q (waiting q) (pooled q) p m"

definition pending :: "'a mqueue_scheme \<Rightarrow> (64 word \<times> ptr) list" where
  "pending q = map (\<lambda>a. (qwhen q a, a)) (waiting q)"

lemma nodes_0 [simp]: "nodes n c 0 = []"
  by (cases n) simp_all

lemma nodes_chain: "chain c p as \<Longrightarrow> length as \<le> n \<Longrightarrow> nodes n c p = as"
proof (induction as arbitrary: p n)
  case (Cons a as)
  then show ?case by (cases n) (auto split: option.splits)
qed simp

lemma queue_rel_lists:
  assumes "queue_rel q qs ps"
  shows "waiting q = qs" and "pooled q = ps"
proof -
  have shape: "queue_shape q qs ps" using assms by (rule queue_rel_shape)
  then have "chain (cells q) (mMsgQueueHead q) qs" "chain (cells q) (mMsgPool q) ps"
    by (simp_all add: queue_shape_def)
  with queue_shape_length [OF shape] show "waiting q = qs" "pooled q = ps"
    by (simp_all add: waiting_def pooled_def nodes_chain)
qed

lemma queue_ok_iff: "queue_rel q qs ps \<longleftrightarrow> queue_ok q \<and> waiting q = qs \<and> pooled q = ps"
  unfolding queue_ok_def by (metis queue_rel_lists)

lemma queue_ok_rel: "queue_ok q \<Longrightarrow> queue_rel q (waiting q) (pooled q)"
  by (simp add: queue_ok_def)

lemma queue_okD:
  assumes "queue_ok q"
  shows "distinct (waiting q @ pooled q)" and "sorted (map (qwhen q) (waiting q))"
    and "mMsgPoolSize q = int (length (pooled q))"
    and "\<not> mQuit q \<Longrightarrow> mMsgQueueSize q = int (length (waiting q))"
    and "0 \<le> mMsgPoolMaxSize q \<Longrightarrow> mMsgPoolSize q \<le> mMsgPoolMaxSize q"
    and "mBlocked q \<Longrightarrow> waiting q = []"
    and "mQuit q \<Longrightarrow> waiting q = []"
  using assms by (auto simp: queue_ok_def queue_rel_def queue_shape_def)

lemma queue_ok_waiting:
  "queue_ok q \<Longrightarrow> a \<in> set (waiting q) \<Longrightarrow>
    \<exists>m. msg_at q a = Some m \<and> isInUse m \<and> mTarget m \<noteq> 0"
  by (auto simp: queue_ok_def queue_rel_def queue_shape_def)

subsection \<open>A sample queue, to show that the hypotheses below can hold\<close>

text \<open>Two messages wait (times 5 and 9), one is pooled, and the client holds the message 4.\<close>

definition sample_msg :: "64 word \<Rightarrow> ptr \<Rightarrow> Msg" where
  "sample_msg t nxt = (makeInUse Msg_new)\<lparr>mWhat := 7, mTarget := 77, mWhen := t, mNext := nxt\<rparr>"

definition sample_queue :: "int \<Rightarrow> mqueue" where
  "sample_queue cap = (MsgQueue_new ''q'' cap)
     \<lparr>cells := [1 \<mapsto> sample_msg 5 2, 2 \<mapsto> sample_msg 9 0, 3 \<mapsto> Msg_new,
                4 \<mapsto> Msg_new\<lparr>mWhat := 8, mTarget := 77\<rparr>],
      brk := 5, mMsgQueueHead := 1, mMsgQueueTail := 2, mMsgQueueSize := 2,
      mMsgPool := 3, mMsgPoolSize := 1, mMsgPoolIsFull := True, mBlocked := False\<rparr>"

lemma sample_msg_simps [simp]:
  "isInUse (sample_msg t n)" "mTarget (sample_msg t n) = 77" "mNext (sample_msg t n) = n"
  "mWhen (sample_msg t n) = t" "mWhat (sample_msg t n) = 7" "mParamFreeFunc (sample_msg t n) = 0"
  "mCallback (sample_msg t n) = 0" "mHandleCallback (sample_msg t n) = 0"
proof -
  have "isInUse (sample_msg t n) = isInUse (makeInUse Msg_new)"
    by (simp add: sample_msg_def isInUse_def)
  then show "isInUse (sample_msg t n)" by simp
qed (simp_all add: sample_msg_def makeInUse_def Msg_new_def)

lemma recycled_Msg_new [simp]: "recycled Msg_new = Msg_new" "mNext Msg_new = 0"
  "mTarget Msg_new = 0" "recycle_calls Msg_new = []" "strip Msg_new = Msg_new"
  by (simp_all add: recycled_def Msg_new_def recycle_calls_def strip_def)

lemma sample_queue_fields [simp]:
  "mQuit (sample_queue n) = False" "mNotEnqueMsg (sample_queue n) = False"
  "mMsgPoolMaxSize (sample_queue n) = n" "mMsgPoolSize (sample_queue n) = 1"
  "mMsgPoolIsFull (sample_queue n)" "calls (sample_queue n) = []"
  "mBlocked (sample_queue n) = False" "mOutTimeTest (sample_queue n) = 0"
  by (simp_all add: sample_queue_def MsgQueue_new_def)

lemma sample_queue_rel: "1 \<le> n \<Longrightarrow> queue_rel (sample_queue n) [1, 2] [3]"
  by (auto simp: queue_rel_def queue_shape_def sample_queue_def MsgQueue_new_def wf_mem_def
      msg_at_def qwhen_def)

lemma sample_queue_ok:
  assumes "1 \<le> n"
  shows "queue_ok (sample_queue n)" "waiting (sample_queue n) = [1, 2]"
    "pooled (sample_queue n) = [3]" "owned (sample_queue n) 4 (Msg_new\<lparr>mWhat := 8, mTarget := 77\<rparr>)"
proof -
  show w: "queue_ok (sample_queue n)" "waiting (sample_queue n) = [1, 2]"
    "pooled (sample_queue n) = [3]"
    using sample_queue_rel [OF assms] by (simp_all add: queue_ok_iff)
  show "owned (sample_queue n) 4 (Msg_new\<lparr>mWhat := 8, mTarget := 77\<rparr>)"
    by (simp add: owned_def loose_def w) (simp add: sample_queue_def)
qed

lemma sample_queue_at:
  "msg_at (sample_queue n) 1 = Some (strip (sample_msg 5 2))"
  "msg_at (sample_queue n) 2 = Some (strip (sample_msg 9 0))"
  "qwhen (sample_queue n) 1 = 5" "qwhen (sample_queue n) 2 = 9"
  by (simp_all add: msg_at_def qwhen_def sample_queue_def)

lemma sample_queue_pending: "1 \<le> n \<Longrightarrow> pending (sample_queue n) = [(5, 1), (9, 2)]"
  by (simp add: pending_def sample_queue_ok sample_queue_at del: One_nat_def)

subsection \<open>Enqueueing\<close>

lemma enqueueMessage_accepted:
  assumes "queue_ok q" and "owned q p m" and "mTarget m \<noteq> 0" and "\<not> isInUse m"
    and "\<not> mQuit q" and "\<not> mNotEnqueMsg q"
  shows "\<exists>q'. enqueueMessage p t q = Inr (True, q') \<and> queue_ok q' \<and>
    waiting q' = ins_msg (qwhen q) t p (waiting q) \<and> pooled q' = pooled q \<and>
    msg_at q' = (msg_at q)(p := Some (strip ((makeInUse m)\<lparr>mWhen := t\<rparr>))) \<and>
    calls q' = calls q \<and> \<not> mBlocked q' \<and> mWait q' = Suc (mWait q) \<and>
    \<not> mQuit q' \<and> \<not> mNotEnqueMsg q' \<and> mOutTimeTest q' = mOutTimeTest q"
proof -
  obtain q' where q': "enqueueMessage p t q = Inr (True, q')"
    "queue_rel q' (ins_msg (qwhen q) t p (waiting q)) (pooled q)"
    "msg_at q' = (msg_at q)(p := Some (strip ((makeInUse m)\<lparr>mWhen := t\<rparr>)))"
    "calls q' = calls q" "\<not> mBlocked q'" "mWait q' = Suc (mWait q)"
    "\<not> mQuit q'" "\<not> mNotEnqueMsg q'" "mOutTimeTest q' = mOutTimeTest q"
    using enqueueMessage_accept [OF queue_ok_rel [OF assms(1)] assms(2) [unfolded owned_def] assms(3-6)]
    by blast
  with queue_rel_lists [OF q'(2)] show ?thesis by (intro exI [of _ q']) (simp add: queue_ok_def)
qed

text \<open>C8: Handing an idle message with a target to an open queue links it at its place in time
  order, after the messages of equal time (time 0 goes to the very front), leaves every other
  message and the pool as they are, marks the message in use, unblocks the consumer and
  broadcasts; it never faults.\<close>
theorem enqueueMessage_inserts:
  assumes "queue_ok q" and "owned q p m" and "mTarget m \<noteq> 0" and "\<not> isInUse m"
    and "\<not> mQuit q" and "\<not> mNotEnqueMsg q"
  shows "\<exists>q'. enqueueMessage p t q = Inr (True, q') \<and> queue_ok q' \<and>
    waiting q' = ins_msg (qwhen q) t p (waiting q) \<and> pooled q' = pooled q \<and>
    msg_at q' = (msg_at q)(p := Some (strip ((makeInUse m)\<lparr>mWhen := t\<rparr>))) \<and>
    calls q' = calls q \<and> \<not> mBlocked q' \<and> mWait q' = Suc (mWait q)"
  using enqueueMessage_accepted [OF assms, of t] by blast

theorem enqueueMessage_inserts_witness:
  "\<exists>q'. enqueueMessage 4 5 (sample_queue 9) = Inr (True, q') \<and> queue_ok q' \<and>
    waiting q' = [1, 4, 2] \<and> pooled q' = [3]"
proof -
  have nine: "1 \<le> (9::int)" by simp
  note s = sample_queue_ok [OF nine]
  have "mTarget (Msg_new\<lparr>mWhat := 8, mTarget := 77\<rparr>) \<noteq> 0"
    "\<not> isInUse (Msg_new\<lparr>mWhat := 8, mTarget := 77\<rparr>)"
    by (simp_all add: isInUse_def Msg_new_def FLAGINUSE_def)
  from enqueueMessage_inserts [OF s(1,4) this, of 5] show ?thesis
    by (auto simp: s sample_queue_at ins_msg_def simp del: One_nat_def)
qed

text \<open>Every refusal consumes the caller's message and changes nothing else: without a target
  or already in use the message is deleted, after quit it is recycled, and in each case its
  parameter deleter runs exactly once.\<close>
theorem enqueueMessage_refuses:
  assumes "queue_ok q" and "owned q p m"
    and "mTarget m = 0 \<or> isInUse m \<or> mQuit q \<or> mNotEnqueMsg q"
  shows "\<exists>q'. enqueueMessage p t q = Inr (False, q') \<and> queue_ok q' \<and>
    waiting q' = waiting q \<and> calls q' = calls q @ recycle_calls m \<and>
    (if mTarget m = 0 \<or> isInUse m \<or> \<not> pools q
     then pooled q' = pooled q \<and> msg_at q' = (msg_at q)(p := None)
     else pooled q' = p # pooled q \<and> msg_at q' = (msg_at q)(p := Some (recycled (strip m))))"
proof (cases "mTarget m = 0 \<or> isInUse m")
  case True
  then obtain q' where q': "enqueueMessage p t q = Inr (False, q')"
    "queue_rel q' (waiting q) (pooled q)" "msg_at q' = (msg_at q)(p := None)"
    "calls q' = calls q @ recycle_calls m"
    using enqueueMessage_reject [OF queue_ok_rel [OF assms(1)] assms(2) [unfolded owned_def]] by blast
  with queue_rel_lists [OF q'(2)] True show ?thesis
    by (intro exI [of _ q']) (auto simp: queue_ok_def)
next
  case False
  with assms(3) have "mTarget m \<noteq> 0" "\<not> isInUse m" "mQuit q \<or> mNotEnqueMsg q" by auto
  then obtain q' where q': "enqueueMessage p t q = Inr (False, q')"
    "queue_rel q' (waiting q) (if pools q then p # pooled q else pooled q)"
    "msg_at q' = (msg_at q)(p := if pools q then Some (recycled (strip m)) else None)"
    "calls q' = calls q @ recycle_calls m"
    using enqueueMessage_closed [OF queue_ok_rel [OF assms(1)] assms(2) [unfolded owned_def]] by blast
  with queue_rel_lists [OF q'(2)] False show ?thesis
    by (intro exI [of _ q']) (auto simp: queue_ok_def)
qed

theorem enqueueMessage_refuses_witness:
  "\<exists>q'. enqueueMessage 4 0 ((sample_queue 9)\<lparr>mNotEnqueMsg := True\<rparr>) = Inr (False, q') \<and>
    waiting q' = [1, 2] \<and> pooled q' = [4, 3]"
proof -
  let ?q = "(sample_queue 9)\<lparr>mNotEnqueMsg := True\<rparr>"
  let ?m = "Msg_new\<lparr>mWhat := 8, mTarget := 77\<rparr>"
  have rel: "queue_rel ?q [1, 2] [3]"
    using sample_queue_rel [of 9] by (auto simp: queue_rel_def queue_shape_def wf_mem_def)
  then have w: "queue_ok ?q" "waiting ?q = [1, 2]" "pooled ?q = [3]" by (simp_all add: queue_ok_iff)
  have "owned ?q 4 ?m" by (simp add: owned_def w loose_def) (simp add: sample_queue_def)
  moreover have "mTarget ?m \<noteq> 0" "\<not> isInUse ?m" "pools ?q"
    by (simp_all add: isInUse_def Msg_new_def FLAGINUSE_def pools_def)
  ultimately show ?thesis
    using enqueueMessage_refuses [OF w(1), of 4 ?m 0] by (auto simp: w)
qed

subsection \<open>Taking the next message\<close>

lemma next_scan_cases:
  assumes "queue_ok q"
  shows "case pending q of
      [] \<Rightarrow> next_scan now t q =
          (if mQuit q \<or> mNotEnqueMsg q then Inr (NReturn 0, q)
           else if mOutTimeTest q > 0 then Inr (NAgain (mOutTimeTest q), q)
           else Inr (NAgain (-1), q\<lparr>mBlocked := True\<rparr>))
    | (w, x) # rest \<Rightarrow>
        if w \<le> now then
          \<exists>q' m. next_scan now t q = Inr (NReturn x, q') \<and> queue_ok q' \<and> pending q' = rest \<and>
            pooled q' = pooled q \<and> owned q' x m \<and> isInUse m \<and> mTarget m \<noteq> 0 \<and>
            msg_at q' = msg_at q \<and> ctl q' = ctl q
        else next_scan now t q = Inr (NAgain (sint (w - now)), q)"
proof (cases "waiting q")
  case Nil
  with queue_ok_rel [OF assms] show ?thesis by (simp add: pending_def next_scan_empty)
next
  case (Cons x xs)
  note rel = queue_ok_rel [OF assms, unfolded Cons]
  show ?thesis
  proof (cases "qwhen q x \<le> now")
    case True
    from next_scan_due [OF rel True, of t] obtain q' m where q':
      "next_scan now t q = Inr (NReturn x, q')" "queue_rel q' xs (pooled q)"
      "loose q' xs (pooled q) x m" "isInUse m" "mTarget m \<noteq> 0" "msg_at q' = msg_at q"
      "ctl q' = ctl q"
      by blast
    note l = queue_rel_lists [OF q'(2)]
    have "qwhen q' = qwhen q" using q'(6) by (auto simp: qwhen_def fun_eq_iff)
    then have "pending q' = map (\<lambda>a. (qwhen q a, a)) xs" by (simp add: pending_def l)
    with q' l True show ?thesis by (auto simp: pending_def Cons queue_ok_def owned_def)
  next
    case False
    with next_scan_early [OF rel False] show ?thesis by (simp add: pending_def Cons)
  qed
qed

text \<open>C18: The scan of next takes the earliest waiting message exactly when its time has come and
  hands it over intact and unlinked; before that it leaves the queue alone and asks for the
  remaining time; on an empty queue it returns null after a quit request and otherwise blocks.\<close>
theorem next_scan_serves:
  assumes "queue_ok q"
  shows "case pending q of
      [] \<Rightarrow> next_scan now t q =
          (if mQuit q \<or> mNotEnqueMsg q then Inr (NReturn 0, q)
           else if mOutTimeTest q > 0 then Inr (NAgain (mOutTimeTest q), q)
           else Inr (NAgain (-1), q\<lparr>mBlocked := True\<rparr>))
    | (w, x) # rest \<Rightarrow>
        (\<forall>(w', y)\<in>set rest. w \<le> w') \<and>
        (if w \<le> now then
          \<exists>q' m. next_scan now t q = Inr (NReturn x, q') \<and> queue_ok q' \<and> pending q' = rest \<and>
            pooled q' = pooled q \<and> owned q' x m \<and> isInUse m \<and> mTarget m \<noteq> 0 \<and>
            msg_at q' = msg_at q \<and> ctl q' = ctl q
        else next_scan now t q = Inr (NAgain (sint (w - now)), q))"
  using next_scan_cases [OF assms, of now t] queue_okD(2) [OF assms]
  by (cases "waiting q") (auto simp: pending_def)

theorem next_scan_serves_witness:
  "\<exists>q' m. next_scan 6 (-1) (sample_queue 9) = Inr (NReturn 1, q') \<and> queue_ok q' \<and>
    pending q' = [(9, 2)] \<and> owned q' 1 m"
  using next_scan_serves [of "sample_queue 9" 6 "-1"] sample_queue_ok [of 9]
    sample_queue_pending [of 9]
  by (auto simp del: One_nat_def)

subsection \<open>Searching and removing\<close>

text \<open>
  The shared contract of the \<open>removeMessage\<close> overloads: the first waiting message that the
  overload selects leaves the list, and goes to the pool or is deleted; with no such message
  nothing happens.
\<close>

definition removes_first ::
  "(ptr \<Rightarrow> bool) \<Rightarrow> mqueue \<Rightarrow> mqueue res \<Rightarrow> bool" where
  "removes_first P q r \<longleftrightarrow>
     (case List.find P (waiting q) of
        None \<Rightarrow> r = Inr q
      | Some x \<Rightarrow> \<exists>q' m. msg_at q x = Some m \<and> r = Inr q' \<and> queue_ok q' \<and>
          waiting q' = remove1 x (waiting q) \<and>
          pooled q' = (if pools q then x # pooled q else pooled q) \<and>
          msg_at q' = (msg_at q)(x := if pools q then Some (recycled m) else None) \<and>
          calls q' = calls q @ recycle_calls m)"

definition selects :: "mqueue \<Rightarrow> (Msg \<Rightarrow> bool) \<Rightarrow> ptr \<Rightarrow> ptr \<Rightarrow> bool" where
  "selects q P handler a \<longleftrightarrow>
     (case msg_at q a of None \<Rightarrow> False
      | Some m \<Rightarrow> P m \<and> (handler = 0 \<or> mTarget m = handler))"

lemma sel_selects: "sel q (\<lambda>_. P) handler = selects q P handler"
  by (auto simp: sel_def selects_def fun_eq_iff split: option.splits simp del: msg_at_eq_None)

lemma remove_loop_removes_first:
  assumes "queue_ok q" and "stable (\<lambda>_. P)"
  shows "removes_first (selects q P handler) q (remove_loop (\<lambda>_. P) handler q)"
proof (cases "List.find (selects q P handler) (waiting q)")
  case None
  with remove_loop_ok [OF queue_ok_rel [OF assms(1)] assms(2), of handler] show ?thesis
    by (simp add: removes_first_def sel_selects)
next
  case (Some x)
  with remove_loop_ok [OF queue_ok_rel [OF assms(1)] assms(2), of handler] obtain q' m where
    "msg_at q x = Some m" "remove_loop (\<lambda>_. P) handler q = Inr q'"
    "queue_rel q' (remove1 x (waiting q)) (if pools q then x # pooled q else pooled q)"
    "msg_at q' = (msg_at q)(x := if pools q then Some (recycled m) else None)"
    "calls q' = calls q @ recycle_calls m"
    by (auto simp: sel_selects)
  with queue_rel_lists [OF this(3)] Some show ?thesis
    by (auto simp: removes_first_def queue_ok_def)
qed

text \<open>C20: Every removeMessage overload that selects by content takes out exactly the first waiting
  message it selects (and whose target is the given handler, if one is given), keeps order and
  content of all others, and recycles the message once.\<close>
theorem removeMessage_removes_first:
  assumes "queue_ok q" and "r \<noteq> 0"
  shows "removes_first (selects q (\<lambda>m. mCallback m = r) h) q (removeMessage_runnable r h q) \<and>
    removes_first (selects q (\<lambda>m. mWhat m = w) h) q (removeMessage_what w h q) \<and>
    removes_first (selects q (\<lambda>m. lo \<le> mWhat m \<and> mWhat m \<le> hi \<and> mCallback m = r) h) q
      (removeMessage_range_runnable lo hi r h q) \<and>
    removes_first
      (selects q (\<lambda>m. mWhat m = w \<and> mArg1 m = a \<and> mArg2 m = b \<and> mCallback m = r) h) q
      (removeMessage_args_runnable w a b r h q) \<and>
    removes_first (selects q (\<lambda>m. mHandleCallback m = c) h) q (removeMessage_callback c h q) \<and>
    removes_first (selects q (\<lambda>m. mWhat m = w \<and> mHandleCallback m = c) h) q
      (removeMessage_what_callback w c h q) \<and>
    removes_first (selects q (\<lambda>m. (lo \<le> mWhat m \<and> mWhat m \<le> hi) \<and> mHandleCallback m = c) h) q
      (removeMessage_range_callback lo hi c h q) \<and>
    removes_first
      (selects q (\<lambda>m. mWhat m = w \<and> mArg1 m = a \<and> mArg2 m = b \<and> mHandleCallback m = c) h) q
      (removeMessage_args_callback w a b c h q)"
  unfolding removeMessage_runnable_def removeMessage_what_def
    removeMessage_range_runnable_def removeMessage_args_runnable_def removeMessage_callback_def
    removeMessage_what_callback_def removeMessage_range_callback_def
    removeMessage_args_callback_def if_not_P [OF assms(2)]
  by (intro conjI remove_loop_removes_first [OF assms(1)] stable_simps)

theorem removeMessage_removes_first_witness:
  "\<exists>q'. removeMessage_what 7 77 (sample_queue 1) = Inr q' \<and> waiting q' = [2] \<and> pooled q' = [3]"
proof -
  have ok: "queue_ok (sample_queue 1)" by (simp add: sample_queue_ok)
  have "removes_first (selects (sample_queue 1) (\<lambda>m. mWhat m = 7) 77) (sample_queue 1)
      (removeMessage_what 7 77 (sample_queue 1))"
    using removeMessage_removes_first [OF ok, of 1] by simp
  then show ?thesis
    by (auto simp: removes_first_def selects_def sample_queue_at sample_queue_ok pools_def
        simp del: One_nat_def)
qed

text \<open>Removing a message by its address unlinks and recycles it if it waits, and in any case the
  caller's reference is gone afterwards: a message the client still owns is returned to an empty
  queue's pool, and deleted when the queue is not empty.\<close>
theorem removeMessage_msg_owned:
  assumes "queue_ok q" and "owned q p m"
  shows "\<exists>q'. removeMessage_msg p h q = Inr q' \<and> queue_ok q' \<and> waiting q' = waiting q \<and>
    calls q' = calls q @ recycle_calls m \<and>
    (if waiting q = [] \<and> pools q
     then pooled q' = p # pooled q \<and> msg_at q' = (msg_at q)(p := Some (recycled (strip m)))
     else pooled q' = pooled q \<and> msg_at q' = (msg_at q)(p := None))"
proof -
  note rel = queue_ok_rel [OF assms(1)]
  note shape = queue_rel_shape [OF rel]
  from assms(2) have p: "p \<noteq> 0" "cells q p = Some m" "mNext m = 0" "p \<notin> set (waiting q)"
    "p \<notin> set (pooled q)"
    by (auto simp: owned_def loose_def)
  have hd: "mMsgQueueHead q = 0 \<longleftrightarrow> waiting q = []"
    using shape chain_Nil_iff by (auto simp: queue_shape_def)
  show ?thesis
  proof (cases "waiting q = []")
    case True
    obtain q' where q': "recycleMsg p q = Inr q'"
      "queue_shape q' (waiting q) (if pools q then p # pooled q else pooled q)"
      "msg_at q' = (msg_at q)(p := if pools q then Some (recycled (strip m)) else None)"
      "calls q' = calls q @ recycle_calls m" "ctl q' = ctl q" "mMsgQueueSize q' = mMsgQueueSize q"
      using recycleMsg_ok [OF shape assms(2) [unfolded owned_def]] by blast
    have "queue_rel q' (waiting q) (if pools q then p # pooled q else pooled q)"
      using q' rel by (auto simp: queue_rel_def)
    with queue_rel_lists [OF this] q' True p hd show ?thesis
      by (intro exI [of _ q']) (simp add: removeMessage_msg_def queue_ok_def)
  next
    case False
    have "List.find (sel q (\<lambda>h _. h = p) h) (waiting q) = None"
      using p by (auto simp: find_None_iff sel_def split: option.splits)
    then have "remove_loop (\<lambda>h _. h = p) h q = Inr q"
      using remove_loop_ok [OF rel, of "\<lambda>h _. h = p" h] by simp
    then have e: "removeMessage_msg p h q =
        Inr ((kill p q)\<lparr>calls := calls q @ recycle_calls m\<rparr>)"
      using p hd False by (simp add: removeMessage_msg_def Msg_reset_single)
    have "queue_rel ((kill p q)\<lparr>calls := calls q @ recycle_calls m\<rparr>) (waiting q) (pooled q)"
      using rel queue_shape_delete [OF shape p(4,5)] by (simp add: queue_rel_def)
    with queue_rel_lists [OF this] e False queue_shape_delete(2) [OF shape p(4,5)] show ?thesis
      by (simp add: queue_ok_def)
  qed
qed

theorem removeMessage_msg_owned_witness:
  "\<exists>q'. removeMessage_msg 4 77 (sample_queue 9) = Inr q' \<and> waiting q' = [1, 2] \<and>
    msg_at q' 4 = None"
proof -
  have nine: "1 \<le> (9::int)" by simp
  note s = sample_queue_ok [OF nine]
  from removeMessage_msg_owned [OF s(1,4), of 77] show ?thesis
    by (auto simp: s simp del: One_nat_def msg_at_eq_None)
qed

text \<open>The hasMessage overloads say whether some waiting message matches (and has the given
  handler as target, if one is given), and they change nothing.\<close>
theorem hasMessage_iff:
  assumes "queue_ok q" and "r \<noteq> 0" and "p \<noteq> 0" and "msg_at q p = Some m"
  shows "hasMessage_runnable r h q =
      Inr (\<exists>a\<in>set (waiting q). selects q (\<lambda>m. mCallback m = r) h a) \<and>
    hasMessage_what w h q = Inr (\<exists>a\<in>set (waiting q). selects q (\<lambda>m. mWhat m = w) h a) \<and>
    hasMessage_callback c h q =
      Inr (\<exists>a\<in>set (waiting q). selects q (\<lambda>m. mHandleCallback m = c) h a) \<and>
    hasMessage_msg p h q =
      Inr (mTarget m \<noteq> 0 \<and> p \<in> set (waiting q) \<and> (h = 0 \<or> mTarget m = h))"
proof (intro conjI)
  note rel = queue_ok_rel [OF assms(1)]
  show "hasMessage_runnable r h q =
      Inr (\<exists>a\<in>set (waiting q). selects q (\<lambda>m. mCallback m = r) h a)"
    using assms(2) by (simp add: hasMessage_runnable_def has_loop_ok [OF rel] sel_selects)
  show "hasMessage_what w h q = Inr (\<exists>a\<in>set (waiting q). selects q (\<lambda>m. mWhat m = w) h a)"
    "hasMessage_callback c h q =
      Inr (\<exists>a\<in>set (waiting q). selects q (\<lambda>m. mHandleCallback m = c) h a)"
    by (simp_all add: hasMessage_what_def hasMessage_callback_def has_loop_ok [OF rel] sel_selects)
  obtain k where k: "cells q p = Some k" "m = strip k" using assms(4) by (auto simp: msg_at_def)
  have "(\<exists>a\<in>set (waiting q). sel q (\<lambda>h _. h = p) h a) \<longleftrightarrow>
      p \<in> set (waiting q) \<and> (h = 0 \<or> mTarget m = h)"
    using assms(4) by (force simp: sel_def split: option.splits simp del: msg_at_eq_None)
  then show "hasMessage_msg p h q =
      Inr (mTarget m \<noteq> 0 \<and> p \<in> set (waiting q) \<and> (h = 0 \<or> mTarget m = h))"
    using assms(3) by (simp add: hasMessage_msg_def k has_loop_ok [OF rel])
qed

theorem hasMessage_iff_witness: "hasMessage_what 7 78 (sample_queue 9) = Inr False"
proof -
  have ok: "queue_ok (sample_queue 9)" by (simp add: sample_queue_ok)
  have "hasMessage_what 7 78 (sample_queue 9) =
      Inr (\<exists>a\<in>set (waiting (sample_queue 9)). selects (sample_queue 9) (\<lambda>m. mWhat m = 7) 78 a)"
    by (rule hasMessage_iff [OF ok _ _ sample_queue_at(1), of 1, THEN conjunct2, THEN conjunct1])
      simp_all
  then show ?thesis by (simp add: selects_def sample_queue_at sample_queue_ok del: One_nat_def)
qed

subsection \<open>The pool\<close>



text \<open>obtain hands out the message most recently pooled, in the state a new message has (up to a
  parameter pointer that had no deleter), unlinked and owned by the caller alone; unless the pool
  has been full since it was last empty, obtain returns null and changes nothing.\<close>
theorem obtain_pool_fresh:
  assumes "queue_ok q"
  shows "if pool_ready q
    then \<exists>q' m. obtain_pool q = Inr (hd (pooled q), q') \<and> queue_ok q' \<and>
      pooled q' = tl (pooled q) \<and> waiting q' = waiting q \<and> msg_at q' = msg_at q \<and>
      owned q' (hd (pooled q)) m \<and> m = Msg_new\<lparr>mParam := mParam m\<rparr> \<and>
      mMsgPoolIsFull q' = (pooled q' \<noteq> [])
    else obtain_pool q = Inr (0, q)"
proof (cases "pool_ready q")
  case True
  then obtain p ps' q' m where q': "pooled q = p # ps'" "obtain_pool q = Inr (p, q')"
    "queue_rel q' (waiting q) ps'" "loose q' (waiting q) ps' p m" "recycled m = m"
    "msg_at q' = msg_at q" "mMsgPoolIsFull q' = (ps' \<noteq> [])"
    using obtain_pool_some [OF queue_ok_rel [OF assms] True] by blast
  note l = queue_rel_lists [OF q'(3)]
  have nx: "mNext m = 0" using q'(4) by (simp add: loose_def)
  have "mParamFreeFunc m = 0" by (metis q'(5) recycled_simps(11))
  then have "m = Msg_new\<lparr>mParam := mParam m\<rparr>"
    using q'(5) nx recycled_eq [of m] by (simp add: Msg_new_def)
  with q' l True show ?thesis by (auto simp: queue_ok_def owned_def)
next
  case False
  then show ?thesis by (simp add: obtain_pool_none)
qed

theorem obtain_pool_fresh_witness:
  "\<exists>q' m. obtain_pool (sample_queue 1) = Inr (3, q') \<and> pooled q' = [] \<and> owned q' 3 m"
proof -
  have one: "1 \<le> (1::int)" by simp
  note s = sample_queue_ok [OF one]
  have "pool_ready (sample_queue 1)" by (simp add: pool_ready_def)
  with obtain_pool_fresh [OF s(1)] show ?thesis by (auto simp: s)
qed

subsection \<open>Quitting and destruction\<close>

text \<open>C22: A safe quit refuses new messages but keeps every waiting one; an immediate quit deletes
  each waiting message exactly once, running its deleter, and empties the list. Both unblock the
  consumer and broadcast, and quitting again after an immediate quit does nothing.\<close>
theorem quit_effect:
  assumes "queue_ok q" and "\<not> mQuit q"
  shows "(\<exists>q'. quit True q = Inr q' \<and> queue_ok q' \<and> pending q' = pending q \<and>
      msg_at q' = msg_at q \<and> mNotEnqueMsg q' \<and> \<not> mBlocked q' \<and> mWait q' = Suc (mWait q)) \<and>
    (\<exists>q'. quit False q = Inr q' \<and> queue_ok q' \<and> waiting q' = [] \<and> pooled q' = pooled q \<and>
      msg_at q' = (\<lambda>a. if a \<in> set (waiting q) then None else msg_at q a) \<and>
      calls q' = calls q @ concat (map (\<lambda>a. recycle_calls (the (msg_at q a))) (waiting q)) \<and>
      mQuit q' \<and> \<not> mBlocked q' \<and> mWait q' = Suc (mWait q) \<and> quit True q' = Inr q' \<and>
      quit False q' = Inr q')"
proof
  note rel = queue_ok_rel [OF assms(1)]
  obtain q' where q': "quit True q = Inr q'" "queue_rel q' (waiting q) (pooled q)"
    "msg_at q' = msg_at q" "mNotEnqueMsg q'" "\<not> mBlocked q'" "mWait q' = Suc (mWait q)"
    using quit_safely_ok [OF rel assms(2)] by blast
  have "qwhen q' = qwhen q" using q'(3) by (auto simp: qwhen_def fun_eq_iff)
  with q' queue_rel_lists [OF q'(2)]
  show "\<exists>q'. quit True q = Inr q' \<and> queue_ok q' \<and> pending q' = pending q \<and>
      msg_at q' = msg_at q \<and> mNotEnqueMsg q' \<and> \<not> mBlocked q' \<and> mWait q' = Suc (mWait q)"
    by (intro exI [of _ q']) (simp add: queue_ok_def pending_def)
next
  obtain q' where q': "quit False q = Inr q'" "queue_rel q' [] (pooled q)"
    "msg_at q' = (\<lambda>a. if a \<in> set (waiting q) then None else msg_at q a)"
    "calls q' = calls q @ concat (map (\<lambda>a. recycle_calls (the (msg_at q a))) (waiting q))"
    "mQuit q'" "\<not> mBlocked q'" "mWait q' = Suc (mWait q)"
    using quit_now_ok [OF queue_ok_rel [OF assms(1)] assms(2)] by blast
  with queue_rel_lists [OF q'(2)]
  show "\<exists>q'. quit False q = Inr q' \<and> queue_ok q' \<and> waiting q' = [] \<and> pooled q' = pooled q \<and>
      msg_at q' = (\<lambda>a. if a \<in> set (waiting q) then None else msg_at q a) \<and>
      calls q' = calls q @ concat (map (\<lambda>a. recycle_calls (the (msg_at q a))) (waiting q)) \<and>
      mQuit q' \<and> \<not> mBlocked q' \<and> mWait q' = Suc (mWait q) \<and> quit True q' = Inr q' \<and>
      quit False q' = Inr q'"
    by (intro exI [of _ q']) (simp add: queue_ok_def quit_def)
qed

theorem quit_effect_witness:
  "\<exists>q'. quit False (sample_queue 9) = Inr q' \<and> waiting q' = [] \<and> pooled q' = [3] \<and>
    msg_at q' 1 = None \<and> msg_at q' 2 = None"
proof -
  have nine: "1 \<le> (9::int)" by simp
  note s = sample_queue_ok [OF nine]
  have "\<not> mQuit (sample_queue 9)" by simp
  from quit_effect [OF s(1) this] show ?thesis
    by (auto simp: s simp del: One_nat_def msg_at_eq_None)
qed

text \<open>The destructor frees every waiting and every pooled message, each once and without a
  fault, and touches no message the clients own.\<close>
theorem MsgQueue_delete_frees_all:
  assumes "queue_ok q"
  shows "\<exists>q'. MsgQueue_delete q = Inr q' \<and> mMsgQueueHead q' = 0 \<and> mMsgPool q' = 0 \<and>
    msg_at q' = (\<lambda>a. if a \<in> set (waiting q) \<union> set (pooled q) then None else msg_at q a)"
  using MsgQueue_delete_ok [OF queue_ok_rel [OF assms]] .

theorem MsgQueue_delete_frees_all_witness:
  "\<exists>q'. MsgQueue_delete (sample_queue 9) = Inr q' \<and>
    msg_at q' = [4 \<mapsto> Msg_new\<lparr>mWhat := 8, mTarget := 77\<rparr>]"
proof -
  have nine: "1 \<le> (9::int)" by simp
  note s = sample_queue_ok [OF nine]
  have "(\<lambda>a. if a \<in> set [1, 2] \<union> set [3] then None else msg_at (sample_queue 9) a) =
      [4 \<mapsto> Msg_new\<lparr>mWhat := 8, mTarget := 77\<rparr>]"
    by (auto simp: fun_eq_iff msg_at_def sample_queue_def strip_def Msg_new_def)
  with MsgQueue_delete_frees_all [OF s(1), unfolded s(2,3)] show ?thesis by metis
qed

text \<open>C24: removeAllMessages does not do what its name says. On a non-empty queue, without a handler
  it dereferences the null head it has just moved from; with the handler of the head message it
  removes the head alone when the pool has room (it goes on along the pool) and reads freed memory
  when the pool is full.\<close>
theorem removeAllMessages_defect:
  assumes "queue_ok q" and "waiting q = x # xs"
    and "msg_at q x = Some m" and "mTarget m = handler"
  shows "removeAllMessages 0 q = Inl NullDeref \<and>
    (if pools q
     then \<exists>q'. removeAllMessages handler q = Inr q' \<and> queue_ok q' \<and> waiting q' = xs \<and>
       pooled q' = x # pooled q
     else removeAllMessages handler q = Inl Dangling)"
proof -
  note rel = queue_ok_rel [OF assms(1), unfolded assms(2)]
  obtain k where k: "cells q x = Some k" "m = strip k" using assms(3) by (auto simp: msg_at_def)
  have t: "mTarget k = handler" "handler \<noteq> 0"
    using queue_ok_waiting [OF assms(1), of x] assms k by auto
  have "removeAllMessages 0 q = Inl NullDeref" by (rule removeAll_any_fault [OF rel])
  moreover note removeAll_rest [OF rel k(1) t] removeAll_full [OF rel k(1) t]
  ultimately show ?thesis by (auto simp: queue_ok_iff)
qed

theorem removeAllMessages_defect_witness:
  "\<exists>q'. removeAllMessages 77 (sample_queue 9) = Inr q' \<and> waiting q' = [2]"
proof -
  have nine: "1 \<le> (9::int)" by simp
  note s = sample_queue_ok [OF nine]
  have "mTarget (strip (sample_msg 5 2)) = 77" by simp
  from removeAllMessages_defect [OF s(1,2) sample_queue_at(1) this] show ?thesis
    by (auto simp: pools_def)
qed

text \<open>The queue is idle exactly when no waiting message is due, that is when a scan of next at
  the same time would not hand out a message.\<close>
theorem isIdle_iff_none_due:
  assumes "queue_ok q"
  shows "isIdle now q = Inr (\<forall>(w, x)\<in>set (pending q). now < w) \<and>
    (isIdle now q = Inr True \<longleftrightarrow> (\<forall>x q'. next_scan now t q = Inr (NReturn x, q') \<longrightarrow> x = 0))"
proof -
  note shape = queue_rel_shape [OF queue_ok_rel [OF assms]]
  have ch: "chain (cells q) (mMsgQueueHead q) (waiting q)"
    using shape by (simp add: queue_shape_def)
  note head = chain_Nil_iff [OF ch]
  show ?thesis
  proof (cases "waiting q")
    case Nil
    with next_scan_cases [OF assms, of now t] head show ?thesis
      by (auto simp: isIdle_def pending_def split: if_splits)
  next
    case (Cons x xs)
    then have hx: "mMsgQueueHead q = x"
      using ch by simp
    obtain m where m: "x \<noteq> 0" "cells q x = Some m"
      using queue_shape_live [OF shape, of x] Cons by auto
    have "isIdle now q = Inr (now < qwhen q x)"
      using hx m qwhen_cell [OF m(2)] by (simp add: isIdle_def)
    moreover have "now < qwhen q x \<longleftrightarrow> (\<forall>(w, y)\<in>set (pending q). now < w)"
      using queue_okD(2) [OF assms] Cons by (auto simp: pending_def)
    moreover have "now < qwhen q x \<longleftrightarrow>
        (\<forall>x q'. next_scan now t q = Inr (NReturn x, q') \<longrightarrow> x = 0)"
      using next_scan_cases [OF assms, of now t] Cons m(1)
      by (auto simp: pending_def not_le split: if_splits)
    ultimately show ?thesis by simp
  qed
qed

theorem isIdle_iff_none_due_witness: "isIdle 4 (sample_queue 9) = Inr True"
  using isIdle_iff_none_due [of "sample_queue 9" 4 0] sample_queue_ok [of 9]
    sample_queue_pending [of 9] by simp

subsection \<open>The queue satisfies the contract of a timed queue\<close>

definition sendable :: "'a mqueue_scheme \<Rightarrow> ptr \<Rightarrow> bool" where
  "sendable q p \<longleftrightarrow>
     \<not> mQuit q \<and> \<not> mNotEnqueMsg q \<and> (\<exists>m. owned q p m \<and> mTarget m \<noteq> 0 \<and> \<not> isInUse m)"

definition msg_enq :: "ptr \<Rightarrow> 64 word \<Rightarrow> 'a mqueue_scheme \<Rightarrow> 'a mqueue_scheme res" where
  "msg_enq p t q = bnd (enqueueMessage p t q) (\<lambda>(_, q). Inr q)"

definition msg_deq :: "64 word \<Rightarrow> 'a mqueue_scheme \<Rightarrow> (ptr \<times> 'a mqueue_scheme) res" where
  "msg_deq now q =
     bnd (next_scan now (-1) q) (\<lambda>(out, q).
       case out of NReturn p \<Rightarrow> Inr (p, q) | NAgain _ \<Rightarrow> Inr (0, q))"

lemma takeWhile_map_pending:
  "map (\<lambda>a. (f a, a)) (ins_msg f t p qs) = ins_timed t p (map (\<lambda>a. (f a, a)) qs)"
  if "f p = t"
  using that by (simp add: ins_msg_def ins_timed_def takeWhile_map dropWhile_map comp_def)

lemma msg_enq_law:
  assumes "queue_ok q" and "sendable q p"
  shows "\<exists>q'. msg_enq p t q = Inr q' \<and> queue_ok q' \<and> pending q' = ins_timed t p (pending q) \<and>
    (\<forall>r. r \<noteq> p \<longrightarrow> sendable q r \<longrightarrow> sendable q' r)"
proof -
  obtain m where m: "owned q p m" "mTarget m \<noteq> 0" "\<not> isInUse m" "\<not> mQuit q" "\<not> mNotEnqueMsg q"
    using assms(2) by (auto simp: sendable_def)
  note l = m(1) [unfolded owned_def]
  obtain q' where q': "enqueueMessage p t q = Inr (True, q')"
    "queue_rel q' (ins_msg (qwhen q) t p (waiting q)) (pooled q)"
    "msg_at q' = (msg_at q)(p := Some (strip ((makeInUse m)\<lparr>mWhen := t\<rparr>)))"
    "\<not> mQuit q'" "\<not> mNotEnqueMsg q'" "frame (insert p (set (waiting q))) q q'"
    using enqueueMessage_accept [OF queue_ok_rel [OF assms(1)] l m(2-5)] by blast
  note w = queue_rel_lists [OF q'(2)]
  have p: "p \<notin> set (waiting q)" using l by (simp add: loose_def)
  have qp: "qwhen q' p = t" using q'(3) by (simp add: qwhen_def)
  have same: "qwhen q' a = qwhen q a" if "a \<in> set (waiting q)" for a
    using map_qwhen_upd [OF q'(3) p] that by auto
  have "waiting q' = ins_msg (qwhen q') t p (waiting q)"
    unfolding w by (intro ins_msg_cong) (simp add: same)
  then have "pending q' = ins_timed t p (map (\<lambda>a. (qwhen q' a, a)) (waiting q))"
    using takeWhile_map_pending [of "qwhen q'", OF qp] by (simp add: pending_def)
  also have "map (\<lambda>a. (qwhen q' a, a)) (waiting q) = pending q" by (simp add: pending_def same)
  finally have pend: "pending q' = ins_timed t p (pending q)" .
  have "sendable q' r" if "r \<noteq> p" "sendable q r" for r
    using that q'(4-6) by (auto simp: sendable_def owned_def loose_def frame_def w)
  with q'(1,2) pend show ?thesis by (intro exI [of _ q']) (auto simp: msg_enq_def queue_ok_iff)
qed

interpretation tq: timed_queue queue_ok pending sendable msg_enq msg_deq
proof (unfold_locales, goal_cases)
  case (1 q)
  then show ?case using queue_okD(2) [of q] by (simp add: pending_def comp_def)
next
  case (2 q)
  then show ?case
    using queue_shape_live [OF queue_rel_shape [OF queue_ok_rel]] by (force simp: pending_def)
next
  case (3 q p t)
  then show ?case by (rule msg_enq_law)
next
  case (4 q x xs now)
  then show ?case using next_scan_cases [of q now "-1"] by (cases x) (auto simp: msg_deq_def)
next
  case (5 q now)
  show ?case
  proof (cases "pending q")
    case Nil
    then have "waiting q = []" by (simp add: pending_def)
    then have "queue_ok (q\<lparr>mBlocked := True\<rparr>)" "pending (q\<lparr>mBlocked := True\<rparr>) = []"
      if "\<not> mQuit q" "\<not> mNotEnqueMsg q"
      using that queue_rel_block [of q "pooled q"] 5(1)
      by (auto simp: queue_ok_def pending_def waiting_def pooled_def)
    with Nil 5 next_scan_cases [of q now "-1"] show ?thesis by (auto simp: msg_deq_def)
  next
    case (Cons x xs)
    with 5 next_scan_cases [of q now "-1"] show ?thesis
      by (cases x) (auto simp: msg_deq_def not_le)
  qed
qed

text \<open>C1: Messages sent to an empty queue with any non-zero times and then taken out at time
  \<open>now\<close> arrive exactly once each, those due only, in the order of a stable sort by time: earlier
  times first, equal times in the order they were sent.\<close>
theorem delivery_is_stable_sort:
  assumes "queue_ok q" and "pending q = []" and "distinct (map snd bs)"
    and "\<forall>x\<in>set bs. sendable q (snd x)" and "\<forall>x\<in>set bs. fst x \<noteq> 0" and "length bs \<le> n"
  shows "\<exists>q' q''. enq_batch msg_enq bs q = Inr q' \<and>
    drain msg_deq n now q' = Inr (map snd (filter (\<lambda>x. fst x \<le> now) (sort_key fst bs)), q'') \<and>
    pending q'' = filter (\<lambda>x. \<not> fst x \<le> now) (sort_key fst bs)"
  by (rule tq.batch_drain [OF assms])

definition sample_open :: mqueue where
  "sample_open = (MsgQueue_new ''q'' 9)
     \<lparr>cells := (\<lambda>a. if a \<in> {1, 2, 3} then Some (Msg_new\<lparr>mTarget := 77\<rparr>) else None), brk := 4\<rparr>"

lemma sample_open_ok:
  "queue_ok sample_open" "pending sample_open = []" "\<forall>a\<in>{1, 2, 3}. sendable sample_open a"
proof -
  have "queue_rel sample_open [] []"
    by (auto simp: queue_rel_def queue_shape_def sample_open_def MsgQueue_new_def wf_mem_def)
  then have w: "queue_ok sample_open" "waiting sample_open = []" "pooled sample_open = []"
    by (auto simp: queue_ok_iff)
  then show "queue_ok sample_open" "pending sample_open = []" by (simp_all add: pending_def)
  show "\<forall>a\<in>{1, 2, 3}. sendable sample_open a"
    by (auto simp: sendable_def owned_def loose_def w)
      (auto simp: sample_open_def MsgQueue_new_def isInUse_def Msg_new_def FLAGINUSE_def)
qed

theorem delivery_is_stable_sort_witness:
  "\<exists>q' q''. enq_batch msg_enq [(8, 1), (5, 2), (8, 3)] sample_open = Inr q' \<and>
    drain msg_deq 3 8 q' = Inr ([2, 1, 3], q'') \<and> pending q'' = []"
proof -
  have "\<forall>x\<in>set [(8, 1), (5, 2), (8, 3)]. sendable sample_open (snd x)"
    using sample_open_ok(3) by simp
  from delivery_is_stable_sort [OF sample_open_ok(1,2) _ this, of 3 8] show ?thesis
    by (simp add: sort_key_def)
qed

end
