(* ===== verification/Msg_Handler.thy ===== *)
theory Msg_Handler
  imports Msg_Queue_Spec
begin

text \<open>
  Message handlers (\<open>src/looper/MessageHandler.cpp\<close>) and the \<open>Msg::obtain\<close> family of
  \<open>src/looper/Message.cpp\<close>.

  A \<open>world\<close> is one looper with its queue and the handlers on it. Handlers are heap objects that
  can be freed: using a freed one is the fault \<open>Dangling\<close>. Function pointers and callback objects
  are addresses, and a dispatch is the \<open>invocation\<close> it makes. Times read from the clock are an
  argument \<open>ns\<close> of the operations that read it.
\<close>

subsection \<open>Handlers and the world they live in\<close>

record MsgHandler =
  mLooper :: ptr
  mQueue :: ptr
  mCallbackFn :: ptr
  mMessageHandlerFn :: ptr
  mMsgHandlerObj :: ptr
  mmsgCallbackObj :: ptr
  mContext :: ptr
  mMutex :: ptr

record world = mqueue +
  handlers :: "ptr \<Rightarrow> MsgHandler option"
  hbrk :: ptr
  curLooper :: ptr
  looperQueue :: ptr

definition MsgHandler_new :: MsgHandler where
  "MsgHandler_new = \<lparr>mLooper = 0, mQueue = 0, mCallbackFn = 0, mMessageHandlerFn = 0,
     mMsgHandlerObj = 0, mmsgCallbackObj = 0, mContext = 0, mMutex = 1\<rparr>"

definition ldh :: "ptr \<Rightarrow> 'a world_scheme \<Rightarrow> MsgHandler res" where
  "ldh h w =
     (if h = 0 then Inl NullDeref
      else case handlers w h of None \<Rightarrow> Inl Dangling | Some H \<Rightarrow> Inr H)"

definition updh ::
  "ptr \<Rightarrow> (MsgHandler \<Rightarrow> MsgHandler) \<Rightarrow> 'a world_scheme \<Rightarrow> 'a world_scheme res" where
  "updh h f w = bnd (ldh h w) (\<lambda>H. Inr (w\<lparr>handlers := (handlers w)(h := Some (f H))\<rparr>))"

text \<open>\<open>delete\<close> of a handler: the destructor clears the fields, then the object is gone.\<close>

definition MsgHandler_delete :: "ptr \<Rightarrow> 'a world_scheme \<Rightarrow> 'a world_scheme res" where
  "MsgHandler_delete h w = bnd (ldh h w) (\<lambda>_. Inr (w\<lparr>handlers := (handlers w)(h := None)\<rparr>))"

definition new_handler :: "'a world_scheme \<Rightarrow> ptr \<times> 'a world_scheme" where
  "new_handler w = (hbrk w, w\<lparr>handlers := (handlers w)(hbrk w := Some MsgHandler_new),
     hbrk := Suc (hbrk w)\<rparr>)"

definition createHandler_looper ::
  "ptr \<Rightarrow> ptr \<Rightarrow> 'a world_scheme \<Rightarrow> (ptr \<times> 'a world_scheme) res" where
  "createHandler_looper looper context w =
     (let (h, w) = new_handler w in
      bnd (updh h (\<lambda>H. H\<lparr>mLooper := looper\<rparr>) w) (\<lambda>w.
      if looper = 0 then Inl NullDeref
      else bnd (updh h (\<lambda>H. H\<lparr>mQueue := looperQueue w\<rparr>) w) (\<lambda>w.
           bnd (updh h (\<lambda>H. H\<lparr>mContext := context\<rparr>) w) (\<lambda>w. Inr (h, w)))))"

definition createHandler :: "ptr \<Rightarrow> 'a world_scheme \<Rightarrow> (ptr \<times> 'a world_scheme) res" where
  "createHandler context w =
     (let (h, w) = new_handler w in
      bnd (updh h (\<lambda>H. H\<lparr>mLooper := curLooper w\<rparr>) w) (\<lambda>w.
      if curLooper w = 0 then Inl NullDeref
      else bnd (updh h (\<lambda>H. H\<lparr>mQueue := looperQueue w\<rparr>) w) (\<lambda>w.
           bnd (updh h (\<lambda>H. H\<lparr>mContext := context\<rparr>) w) (\<lambda>w. Inr (h, w)))))"

definition createHandler_callback ::
  "ptr \<Rightarrow> ptr \<Rightarrow> 'a world_scheme \<Rightarrow> (ptr \<times> 'a world_scheme) res" where
  "createHandler_callback callback context w =
     bnd (createHandler context w) (\<lambda>(h, w).
     bnd (updh h (\<lambda>H. H\<lparr>mCallbackFn := callback\<rparr>) w) (\<lambda>w. Inr (h, w)))"

definition createHandler_looper_callback ::
  "ptr \<Rightarrow> ptr \<Rightarrow> ptr \<Rightarrow> 'a world_scheme \<Rightarrow> (ptr \<times> 'a world_scheme) res" where
  "createHandler_looper_callback looper callback context w =
     bnd (createHandler_looper looper context w) (\<lambda>(h, w).
     bnd (updh h (\<lambda>H. H\<lparr>mCallbackFn := callback\<rparr>) w) (\<lambda>w. Inr (h, w)))"

definition getCallback :: "ptr \<Rightarrow> 'a world_scheme \<Rightarrow> ptr res" where
  "getCallback h w = bnd (ldh h w) (\<lambda>H. Inr (mCallbackFn H))"

definition setMsgHandlerFunc :: "ptr \<Rightarrow> ptr \<Rightarrow> 'a world_scheme \<Rightarrow> 'a world_scheme res" where
  "setMsgHandlerFunc h fn w = updh h (\<lambda>H. H\<lparr>mMessageHandlerFn := fn\<rparr>) w"

definition setMsgHandlerFunc_obj :: "ptr \<Rightarrow> ptr \<Rightarrow> 'a world_scheme \<Rightarrow> 'a world_scheme res" where
  "setMsgHandlerFunc_obj h obj w = updh h (\<lambda>H. H\<lparr>mMsgHandlerObj := obj\<rparr>) w"

definition setMsgCallbackObject :: "ptr \<Rightarrow> ptr \<Rightarrow> 'a world_scheme \<Rightarrow> 'a world_scheme res" where
  "setMsgCallbackObject h callbackObj w = updh h (\<lambda>H. H\<lparr>mmsgCallbackObj := callbackObj\<rparr>) w"

subsection \<open>Obtaining messages\<close>

definition obtain_or_new :: "'a mqueue_scheme \<Rightarrow> (ptr \<times> 'a mqueue_scheme) res" where
  "obtain_or_new w =
     bnd (obtain_pool w) (\<lambda>(m, w). Inr (if m = 0 then new_Msg w else (m, w)))"

definition obtain_void :: "'a world_scheme \<Rightarrow> (ptr \<times> 'a world_scheme) res" where
  "obtain_void w =
     (if curLooper w = 0 then Inl NullDeref
      else if looperQueue w \<noteq> 0 then obtain_or_new w
      else Inr (new_Msg w))"

definition obtain_handler :: "ptr \<Rightarrow> 'a world_scheme \<Rightarrow> (ptr \<times> 'a world_scheme) res" where
  "obtain_handler h w =
     (if h = 0 then obtain_void w
      else bnd (ldh h w) (\<lambda>H.
        if mQueue H \<noteq> 0 then obtain_or_new w else Inr (new_Msg w)))"

definition obtain_with ::
  "(Msg \<Rightarrow> Msg) \<Rightarrow> ptr \<Rightarrow> 'a world_scheme \<Rightarrow> (ptr \<times> 'a world_scheme) res" where
  "obtain_with f h w =
     bnd (obtain_handler h w) (\<lambda>(m, w). bnd (upd m f w) (\<lambda>w. Inr (m, w)))"

definition obtain_runnable :: "ptr \<Rightarrow> ptr \<Rightarrow> 'a world_scheme \<Rightarrow> (ptr \<times> 'a world_scheme) res" where
  "obtain_runnable r h w = obtain_with (\<lambda>m. m\<lparr>mCallback := r\<rparr>) h w"

definition obtain_what :: "int \<Rightarrow> ptr \<Rightarrow> 'a world_scheme \<Rightarrow> (ptr \<times> 'a world_scheme) res" where
  "obtain_what what h w = obtain_with (\<lambda>m. m\<lparr>mWhat := what\<rparr>) h w"

definition obtain_args ::
  "int \<Rightarrow> int \<Rightarrow> int \<Rightarrow> ptr \<Rightarrow> 'a world_scheme \<Rightarrow> (ptr \<times> 'a world_scheme) res" where
  "obtain_args what arg1 arg2 h w =
     obtain_with (\<lambda>m. m\<lparr>mWhat := what, mArg1 := arg1, mArg2 := arg2\<rparr>) h w"

definition obtain_param ::
  "int \<Rightarrow> int \<Rightarrow> int \<Rightarrow> ptr \<Rightarrow> 64 word \<Rightarrow> ptr \<Rightarrow> ptr \<Rightarrow> 'a world_scheme \<Rightarrow> (ptr \<times> 'a world_scheme) res"
  where
  "obtain_param what arg1 arg2 param bytes freeFn h w =
     obtain_with (\<lambda>m. m\<lparr>mWhat := what, mArg1 := arg1, mArg2 := arg2, mParam := param,
       mParamBytes := bytes, mParamFreeFunc := freeFn\<rparr>) h w"

definition obtain_callback ::
  "int \<Rightarrow> int \<Rightarrow> int \<Rightarrow> ptr \<Rightarrow> ptr \<Rightarrow> 64 word \<Rightarrow> ptr \<Rightarrow> ptr \<Rightarrow> 'a world_scheme
    \<Rightarrow> (ptr \<times> 'a world_scheme) res" where
  "obtain_callback what arg1 arg2 callback param bytes freeFn h w =
     obtain_with (\<lambda>m. m\<lparr>mWhat := what, mArg1 := arg1, mArg2 := arg2, mHandleCallback := callback,
       mParam := param, mParamBytes := bytes, mParamFreeFunc := freeFn\<rparr>) h w"

subsection \<open>Sending\<close>

definition PER_SEC_USEC :: "64 word" where
  "PER_SEC_USEC = 1000000"

definition via_queue :: "ptr \<Rightarrow> ('a world_scheme \<Rightarrow> 'b res) \<Rightarrow> 'a world_scheme \<Rightarrow> 'b res" where
  "via_queue h f w = bnd (ldh h w) (\<lambda>H. if mQueue H = 0 then Inl NullDeref else f w)"

definition sendMessageAtTime ::
  "ptr \<Rightarrow> ptr \<Rightarrow> 64 word \<Rightarrow> 'a world_scheme \<Rightarrow> 'a world_scheme res" where
  "sendMessageAtTime h msg uptimeMillis w =
     bnd (upd msg (\<lambda>m. m\<lparr>mTarget := h\<rparr>) w)
       (via_queue h (\<lambda>w. bnd (enqueueMessage msg uptimeMillis w) (\<lambda>(_, w). Inr w)))"

definition sendMessageDelayed ::
  "64 word \<Rightarrow> ptr \<Rightarrow> ptr \<Rightarrow> int \<Rightarrow> 'a world_scheme \<Rightarrow> 'a world_scheme res" where
  "sendMessageDelayed ns h msg delayMillis w =
     (let delayMillis = (if delayMillis < 0 then 0 else delayMillis);
          t = ns div PER_SEC_USEC
      in sendMessageAtTime h msg (t + word_of_int delayMillis) w)"

definition sendMessage :: "64 word \<Rightarrow> ptr \<Rightarrow> ptr \<Rightarrow> 'a world_scheme \<Rightarrow> 'a world_scheme res" where
  "sendMessage ns h msg w = sendMessageDelayed ns h msg 0 w"

definition postAtTime_msg :: "ptr \<Rightarrow> ptr \<Rightarrow> int \<Rightarrow> 'a world_scheme \<Rightarrow> 'a world_scheme res" where
  "postAtTime_msg h msg uptimeMillis w = sendMessageAtTime h msg (word_of_int uptimeMillis) w"

definition sendMessageAtFrontOfQueue ::
  "ptr \<Rightarrow> ptr \<Rightarrow> 'a world_scheme \<Rightarrow> 'a world_scheme res" where
  "sendMessageAtFrontOfQueue h msg w = sendMessageAtTime h msg 0 w"

text \<open>
  \<open>post\<close>, \<open>sendEmptyMessage\<close> and \<open>postAtTime(r)\<close> pass \<open>Handler(this, deleter<MsgHandler>())\<close>: a
  temporary \<open>shared_ptr\<close> with a control block of its own, whose end at the end of the statement
  deletes \<open>this\<close>.
\<close>

definition post :: "64 word \<Rightarrow> ptr \<Rightarrow> ptr \<Rightarrow> 'a world_scheme \<Rightarrow> 'a world_scheme res" where
  "post ns h r w =
     bnd (obtain_runnable r h w) (\<lambda>(m, w).
     bnd (sendMessageDelayed ns h m 0 w) (MsgHandler_delete h))"

definition post_delayed ::
  "64 word \<Rightarrow> ptr \<Rightarrow> ptr \<Rightarrow> int \<Rightarrow> 'a world_scheme \<Rightarrow> 'a world_scheme res" where
  "post_delayed ns h r delayMillis w =
     bnd (obtain_runnable r h w) (\<lambda>(m, w).
     bnd (sendMessageDelayed ns h m delayMillis w) (MsgHandler_delete h))"

definition sendEmptyMessage ::
  "64 word \<Rightarrow> ptr \<Rightarrow> int \<Rightarrow> 'a world_scheme \<Rightarrow> 'a world_scheme res" where
  "sendEmptyMessage ns h what w =
     bnd (obtain_what what h w) (\<lambda>(m, w).
     bnd (sendMessageDelayed ns h m 0 w) (MsgHandler_delete h))"

definition sendEmptyMessage_delayed ::
  "64 word \<Rightarrow> ptr \<Rightarrow> int \<Rightarrow> int \<Rightarrow> 'a world_scheme \<Rightarrow> 'a world_scheme res" where
  "sendEmptyMessage_delayed ns h what delayMillis w =
     bnd (obtain_what what h w) (\<lambda>(m, w).
     bnd (sendMessageDelayed ns h m delayMillis w) (MsgHandler_delete h))"

definition postAtTime_runnable ::
  "ptr \<Rightarrow> ptr \<Rightarrow> int \<Rightarrow> 'a world_scheme \<Rightarrow> 'a world_scheme res" where
  "postAtTime_runnable h r uptimeMillis w =
     bnd (obtain_runnable r h w) (\<lambda>(m, w).
     bnd (sendMessageAtTime h m (word_of_int uptimeMillis) w) (MsgHandler_delete h))"

subsection \<open>Queries and removals, by this handler\<close>

definition handler_hasMessage_msg :: "ptr \<Rightarrow> ptr \<Rightarrow> 'a world_scheme \<Rightarrow> bool res" where
  "handler_hasMessage_msg h msg = via_queue h (hasMessage_msg msg h)"

definition handler_hasMessage_runnable :: "ptr \<Rightarrow> ptr \<Rightarrow> 'a world_scheme \<Rightarrow> bool res" where
  "handler_hasMessage_runnable h r = via_queue h (hasMessage_runnable r h)"

definition handler_hasMessage_what :: "ptr \<Rightarrow> int \<Rightarrow> 'a world_scheme \<Rightarrow> bool res" where
  "handler_hasMessage_what h what = via_queue h (hasMessage_what what h)"

definition handler_hasMessage_callback :: "ptr \<Rightarrow> ptr \<Rightarrow> 'a world_scheme \<Rightarrow> bool res" where
  "handler_hasMessage_callback h callback = via_queue h (hasMessage_callback callback h)"

definition handler_removeMessage_runnable ::
  "ptr \<Rightarrow> ptr \<Rightarrow> 'a world_scheme \<Rightarrow> 'a world_scheme res" where
  "handler_removeMessage_runnable h r = via_queue h (removeMessage_runnable r h)"

definition handler_removeMessage_what ::
  "ptr \<Rightarrow> int \<Rightarrow> 'a world_scheme \<Rightarrow> 'a world_scheme res" where
  "handler_removeMessage_what h what = via_queue h (removeMessage_what what h)"

definition handler_removeMessage_range_runnable ::
  "ptr \<Rightarrow> int \<Rightarrow> int \<Rightarrow> ptr \<Rightarrow> 'a world_scheme \<Rightarrow> 'a world_scheme res" where
  "handler_removeMessage_range_runnable h minWhat maxWhat c =
     via_queue h (removeMessage_range_runnable minWhat maxWhat c h)"

definition handler_removeMessage_args_runnable ::
  "ptr \<Rightarrow> int \<Rightarrow> int \<Rightarrow> int \<Rightarrow> ptr \<Rightarrow> 'a world_scheme \<Rightarrow> 'a world_scheme res" where
  "handler_removeMessage_args_runnable h what arg1 arg2 c =
     via_queue h (removeMessage_args_runnable what arg1 arg2 c h)"

definition handler_removeMessage_callback ::
  "ptr \<Rightarrow> ptr \<Rightarrow> 'a world_scheme \<Rightarrow> 'a world_scheme res" where
  "handler_removeMessage_callback h callback = via_queue h (removeMessage_callback callback h)"

definition handler_removeMessage_what_callback ::
  "ptr \<Rightarrow> int \<Rightarrow> ptr \<Rightarrow> 'a world_scheme \<Rightarrow> 'a world_scheme res" where
  "handler_removeMessage_what_callback h what callback =
     via_queue h (removeMessage_what_callback what callback h)"

definition handler_removeMessage_range_callback ::
  "ptr \<Rightarrow> int \<Rightarrow> int \<Rightarrow> ptr \<Rightarrow> 'a world_scheme \<Rightarrow> 'a world_scheme res" where
  "handler_removeMessage_range_callback h minWhat maxWhat callback =
     via_queue h (removeMessage_range_callback minWhat maxWhat callback h)"

definition handler_removeMessage_args_callback ::
  "ptr \<Rightarrow> int \<Rightarrow> int \<Rightarrow> int \<Rightarrow> ptr \<Rightarrow> 'a world_scheme \<Rightarrow> 'a world_scheme res" where
  "handler_removeMessage_args_callback h what arg1 arg2 callback =
     via_queue h (removeMessage_args_callback what arg1 arg2 callback h)"

definition handler_removeAllMessages :: "ptr \<Rightarrow> 'a world_scheme \<Rightarrow> 'a world_scheme res" where
  "handler_removeAllMessages h = via_queue h (removeAllMessages h)"

subsection \<open>Dispatching\<close>

datatype invocation =
    NoCall
  | CallFn (fn: ptr) (arg: ptr) (ctx: ptr)
  | CallOnHandler (obj: ptr) (arg: ptr)
  | CallOperator (obj: ptr) (arg: ptr) (ctx: ptr)

definition dispatchMessage :: "ptr \<Rightarrow> ptr \<Rightarrow> 'a world_scheme \<Rightarrow> invocation res" where
  "dispatchMessage h msg w =
     (if msg = 0 then Inr NoCall
      else
        bnd (ld msg w) (\<lambda>m.
          if mCallback m \<noteq> 0 then bnd (ldh h w) (\<lambda>H. Inr (CallFn (mCallback m) msg (mContext H)))
          else if mHandleCallback m \<noteq> 0 then Inr (CallOnHandler (mHandleCallback m) msg)
          else
            bnd (ldh h w) (\<lambda>H. Inr (
              if mCallbackFn H \<noteq> 0 then CallFn (mCallbackFn H) msg (mContext H)
              else if mMessageHandlerFn H \<noteq> 0 then CallFn (mMessageHandlerFn H) msg (mContext H)
              else if mMsgHandlerObj H \<noteq> 0 then CallOperator (mMsgHandlerObj H) msg (mContext H)
              else if mmsgCallbackObj H \<noteq> 0 then CallOnHandler (mmsgCallbackObj H) msg
              else NoCall))))"

subsection \<open>Queue operations leave the rest of the world alone\<close>

lemma more_put [simp]: "mqueue.more (put p m q) = mqueue.more (q :: 'a mqueue_scheme)"
  by (simp add: put_def)

lemma more_kill [simp]: "mqueue.more (kill p q) = mqueue.more (q :: 'a mqueue_scheme)"
  by (simp add: kill_def)

lemma more_take_next: "take_next p q = Inr (n, q') \<Longrightarrow> mqueue.more q' = mqueue.more (q :: 'a mqueue_scheme)"
  by (auto simp: take_next_def bnd_eq_Inr_iff)

lemma more_upd: "upd p f q = Inr q' \<Longrightarrow> mqueue.more q' = mqueue.more (q :: 'a mqueue_scheme)"
  by (auto simp: upd_def bnd_eq_Inr_iff)

lemma more_recycleUnchecked:
  "Msg_recycleUnchecked p q = Inr q' \<Longrightarrow> mqueue.more q' = mqueue.more (q :: 'a mqueue_scheme)"
  by (auto simp: Msg_recycleUnchecked_def bnd_eq_Inr_iff)

lemma more_del_chain:
  "del_chain n p q = Inr q' \<Longrightarrow> mqueue.more q' = mqueue.more (q :: 'a mqueue_scheme)"
  by (induction n arbitrary: p q)
    (force simp: bnd_eq_Inr_iff dest: more_recycleUnchecked split: if_splits)+

lemma more_Msg_reset: "Msg_reset p q = Inr q' \<Longrightarrow> mqueue.more q' = mqueue.more (q :: 'a mqueue_scheme)"
  by (simp only: Msg_reset_def) (rule more_del_chain)

lemma more_set_next: "set_next p v q = Inr q' \<Longrightarrow> mqueue.more q' = mqueue.more (q :: 'a mqueue_scheme)"
  by (auto simp: set_next_def bnd_eq_Inr_iff dest: more_Msg_reset)

lemma more_recycleMsg: "recycleMsg p q = Inr q' \<Longrightarrow> mqueue.more q' = mqueue.more (q :: 'a mqueue_scheme)"
proof -
  assume a: "recycleMsg p q = Inr q'"
  then obtain q1 where q1: "Msg_recycleUnchecked p q = Inr q1"
    by (auto simp: recycleMsg_def bnd_eq_Inr_iff)
  show ?thesis
  proof (cases "mQuit q1 \<or> mMsgPoolSize q1 = mMsgPoolMaxSize q1")
    case True
    with a q1 show ?thesis
      by (auto simp: recycleMsg_def dest!: more_recycleUnchecked more_Msg_reset)
  next
    case False
    with a q1 obtain q2 where "set_next p (mMsgPool q1) (q1\<lparr>mMsgPool := 0\<rparr>) = Inr q2"
      "mqueue.more q' = mqueue.more q2"
      by (auto simp: recycleMsg_def Let_def bnd_eq_Inr_iff)
    with more_recycleUnchecked [OF q1] show ?thesis by (auto dest!: more_set_next)
  qed
qed

lemmas more_intros = more_take_next more_upd more_Msg_reset more_set_next more_recycleMsg

lemma more_enqueue_front:
  "enqueue_front p q = Inr q' \<Longrightarrow> mqueue.more q' = mqueue.more (q :: 'a mqueue_scheme)"
  by (auto simp: enqueue_front_def bnd_eq_Inr_iff Let_def dest!: more_intros split: if_splits)

lemma more_enqueue_back:
  "enqueue_back p q = Inr q' \<Longrightarrow> mqueue.more q' = mqueue.more (q :: 'a mqueue_scheme)"
  by (auto simp: enqueue_back_def bnd_eq_Inr_iff dest!: more_intros)

lemma more_enqueue_middle:
  "enqueue_middle t p q = Inr q' \<Longrightarrow> mqueue.more q' = mqueue.more (q :: 'a mqueue_scheme)"
  by (auto simp: enqueue_middle_def bnd_eq_Inr_iff dest!: more_intros)

lemma more_enqueueMessage:
  "enqueueMessage p t q = Inr (b, q') \<Longrightarrow> mqueue.more q' = mqueue.more (q :: 'a mqueue_scheme)"
  by (auto simp: enqueueMessage_def bnd_eq_Inr_iff notifyAll_mWait_def split: if_splits
      dest!: more_intros more_enqueue_front more_enqueue_back more_enqueue_middle)

lemma more_obtain_pool:
  "obtain_pool q = Inr (p, q') \<Longrightarrow> mqueue.more q' = mqueue.more (q :: 'a mqueue_scheme)"
  by (auto simp: obtain_pool_def bnd_eq_Inr_iff Let_def dest!: more_intros split: if_splits)

lemma world_more:
  fixes w w' :: "'a world_scheme"
  assumes "mqueue.more w' = mqueue.more w"
  shows "handlers w' = handlers w" "hbrk w' = hbrk w" "curLooper w' = curLooper w"
    "looperQueue w' = looperQueue w" "world.more w' = world.more w"
  using assms by (cases w; cases w'; simp)+

lemma queue_ok_handlers [simp]:
  fixes w :: "'a world_scheme"
  shows "msg_at (w\<lparr>handlers := x\<rparr>) = msg_at w" "qwhen (w\<lparr>handlers := x\<rparr>) = qwhen w"
    "waiting (w\<lparr>handlers := x\<rparr>) = waiting w" "pooled (w\<lparr>handlers := x\<rparr>) = pooled w"
    "queue_ok (w\<lparr>handlers := x\<rparr>) = queue_ok w"
proof -
  show m: "msg_at (w\<lparr>handlers := x\<rparr>) = msg_at w" by (rule msg_at_cong) simp
  then show q: "qwhen (w\<lparr>handlers := x\<rparr>) = qwhen w" by (simp add: qwhen_def fun_eq_iff)
  show l: "waiting (w\<lparr>handlers := x\<rparr>) = waiting w" "pooled (w\<lparr>handlers := x\<rparr>) = pooled w"
    by (simp_all add: waiting_def pooled_def)
  show "queue_ok (w\<lparr>handlers := x\<rparr>) = queue_ok w"
    unfolding queue_ok_def queue_rel_def queue_shape_def l m q by (simp add: wf_mem_def)
qed

subsection \<open>What obtaining and sending do\<close>

lemma obtain_or_new_owned:
  assumes ok: "queue_ok (w :: 'a mqueue_scheme)"
  shows "\<exists>p m w'. obtain_or_new w = Inr (p, w') \<and> queue_ok w' \<and> waiting w' = waiting w \<and>
    owned w' p m \<and> m = Msg_new\<lparr>mParam := mParam m\<rparr> \<and> mQuit w' = mQuit w \<and>
    mNotEnqueMsg w' = mNotEnqueMsg w \<and> mqueue.more w' = mqueue.more w \<and>
    frame (insert p (set (waiting w))) w w' \<and>
    (if pool_ready w then pooled w' = tl (pooled w) else pooled w' = pooled w)"
proof (cases "pool_ready w")
  case True
  obtain p ps' w' m where w': "pooled w = p # ps'" "obtain_pool w = Inr (p, w')"
    "queue_rel w' (waiting w) ps'" "loose w' (waiting w) ps' p m" "recycled m = m" "ctl w' = ctl w"
    "frame {p} w w'"
    using obtain_pool_some [OF queue_ok_rel [OF ok] True] by blast
  have nx: "mNext m = 0" "p \<noteq> 0" using w'(4) by (simp_all add: loose_def)
  have "mParamFreeFunc m = 0" by (metis w'(5) recycled_simps(11))
  then have "m = Msg_new\<lparr>mParam := mParam m\<rparr>"
    using w'(5) nx recycled_eq [of m] by (simp add: Msg_new_def)
  moreover have "obtain_or_new w = Inr (p, w')" using w'(2) nx by (simp add: obtain_or_new_def)
  ultimately show ?thesis
    using w' queue_rel_lists [OF w'(3)] more_obtain_pool [OF w'(2)] True
    by (intro exI [of _ p] exI [of _ m] exI [of _ w']) (auto simp: queue_ok_def owned_def frame_def)
next
  case False
  let ?w = "snd (new_Msg w)"
  note n = new_Msg_ok [OF queue_ok_rel [OF ok]]
  have "obtain_or_new w = Inr (brk w, ?w)"
    using False by (simp add: obtain_or_new_def obtain_pool_none new_Msg_def)
  moreover have "mQuit ?w = mQuit w" "mNotEnqueMsg ?w = mNotEnqueMsg w"
    "mqueue.more ?w = mqueue.more w"
    by (simp_all add: new_Msg_def)
  moreover have "Msg_new = Msg_new\<lparr>mParam := mParam Msg_new\<rparr>" by (simp add: Msg_new_def)
  ultimately show ?thesis
    using n queue_rel_lists [OF n(1)] False
    by (intro exI [of _ "brk w"] exI [of _ Msg_new] exI [of _ ?w])
      (auto simp: queue_ok_def owned_def frame_def)
qed

lemma sendMessageAtTime_ok:
  assumes ok: "queue_ok (w :: 'a world_scheme)" and own: "owned w p m" and idle: "\<not> isInUse m"
    and open_q: "\<not> mQuit w" "\<not> mNotEnqueMsg w"
    and h: "handlers w h = Some H" "h \<noteq> 0" "mQueue H \<noteq> 0"
  shows "\<exists>w'. sendMessageAtTime h p t w = Inr w' \<and> queue_ok w' \<and>
    waiting w' = ins_msg (qwhen w) t p (waiting w) \<and> pooled w' = pooled w \<and>
    msg_at w' = (msg_at w)(p := Some (strip ((makeInUse (m\<lparr>mTarget := h\<rparr>))\<lparr>mWhen := t\<rparr>))) \<and>
    mqueue.more w' = mqueue.more w \<and> \<not> mBlocked w' \<and> mWait w' = Suc (mWait w)"
proof -
  let ?m = "m\<lparr>mTarget := h\<rparr>"
  let ?w = "put p ?m w"
  have p: "p \<noteq> 0" "cells w p = Some m" "mNext m = 0" "p \<notin> set (waiting w)"
    using own by (auto simp: owned_def loose_def)
  have nn: "mNext ?m = 0" using p by simp
  note put = queue_rel_put [OF queue_ok_rel [OF ok] own [unfolded owned_def] nn]
  have tg: "mTarget ?m \<noteq> 0" "\<not> isInUse ?m" "\<not> mQuit ?w" "\<not> mNotEnqueMsg ?w"
    using h idle open_q by simp_all
  obtain w' where w': "enqueueMessage p t ?w = Inr (True, w')"
    "queue_rel w' (ins_msg (qwhen ?w) t p (waiting w)) (pooled w)"
    "msg_at w' = (msg_at ?w)(p := Some (strip ((makeInUse ?m)\<lparr>mWhen := t\<rparr>)))"
    "\<not> mBlocked w'" "mWait w' = Suc (mWait ?w)"
    using enqueueMessage_accept [OF put tg] by blast
  have "ins_msg (qwhen ?w) t p (waiting w) = ins_msg (qwhen w) t p (waiting w)"
    using p(4) by (intro ins_msg_cong) (auto simp: qwhen_def)
  moreover have "handlers ?w h = Some H" using h(1) by (simp add: put_def)
  then have "sendMessageAtTime h p t w = Inr w'"
    using p h w'(1) by (simp add: sendMessageAtTime_def via_queue_def ldh_def)
  ultimately show ?thesis
    using w' queue_rel_lists [OF w'(2)] more_enqueueMessage [OF w'(1)]
    by (intro exI [of _ w']) (auto simp: queue_ok_def fun_eq_iff)
qed

text \<open>
  The due time of \<open>sendMessageDelayed\<close>: milliseconds of the clock plus the delay, not negative.
\<close>

definition due_time :: "64 word \<Rightarrow> int \<Rightarrow> 64 word" where
  "due_time ns delayMillis = ns div PER_SEC_USEC + word_of_int (max 0 delayMillis)"

lemma due_time_unat:
  assumes "unat ns div 1000000 + nat (max 0 d) < 2 ^ 64"
  shows "unat (due_time ns d) = unat ns div 1000000 + nat (max 0 d)"
proof -
  have 1: "unat (ns div PER_SEC_USEC) = unat ns div 1000000"
    by (simp add: PER_SEC_USEC_def unat_div)
  have "nat (max 0 d) < 2 ^ 64" by (rule le_less_trans [OF _ assms]) simp
  then have x: "0 \<le> max 0 d" "max 0 d < 2 ^ 64" by (simp_all add: nat_less_iff)
  have "uint (word_of_int (max 0 d) :: 64 word) = max 0 d mod 2 ^ 64"
    by (simp add: uint_word_of_int)
  then have 2: "unat (word_of_int (max 0 d) :: 64 word) = nat (max 0 d)"
    using x unfolding unat_eq_nat_uint by (simp del: max_less_iff_conj)
  show ?thesis
    using assms unat_add_lem [of "ns div PER_SEC_USEC" "word_of_int (max 0 d)"]
    unfolding due_time_def 1 2 by simp
qed

lemma sendMessageDelayed_eq: "sendMessageDelayed ns h p d w = sendMessageAtTime h p (due_time ns d) w"
  by (simp add: sendMessageDelayed_def due_time_def max_def)

text \<open>
  A message that is obtained, filled by \<open>f\<close> and sent: what the senders of handlers and timers do.
\<close>

lemma obtain_with_ok:
  assumes ok: "queue_ok (w :: 'a world_scheme)" and h: "handlers w h = Some H" "h \<noteq> 0" "mQueue H \<noteq> 0"
    and f: "\<And>m. mNext (f m) = mNext m"
  shows "\<exists>p m w'. obtain_with f h w = Inr (p, w') \<and> queue_ok w' \<and> owned w' p (f m) \<and>
    m = Msg_new\<lparr>mParam := mParam m\<rparr> \<and> waiting w' = waiting w \<and> mQuit w' = mQuit w \<and>
    mNotEnqueMsg w' = mNotEnqueMsg w \<and> mqueue.more w' = mqueue.more w"
proof -
  obtain p m w1 where w1: "obtain_or_new w = Inr (p, w1)" "queue_ok w1" "owned w1 p m"
    "waiting w1 = waiting w" "m = Msg_new\<lparr>mParam := mParam m\<rparr>" "mQuit w1 = mQuit w"
    "mNotEnqueMsg w1 = mNotEnqueMsg w" "mqueue.more w1 = mqueue.more w"
    using obtain_or_new_owned [OF ok] by blast
  have p: "p \<noteq> 0" "cells w1 p = Some m" "mNext (f m) = 0"
    using w1(3) f by (auto simp: owned_def loose_def)
  note put = queue_rel_put [OF queue_ok_rel [OF w1(2)] w1(3) [unfolded owned_def] p(3)]
  have "queue_ok (put p (f m) w1)" "owned (put p (f m) w1) p (f m)"
    "waiting (put p (f m) w1) = waiting w"
    using put queue_rel_lists [OF put(1)] w1(4) by (simp_all add: queue_ok_def owned_def)
  moreover have "obtain_with f h w = Inr (p, put p (f m) w1)"
    using w1(1) p h by (simp add: obtain_with_def obtain_handler_def ldh_def)
  ultimately show ?thesis using w1
    by (intro exI [of _ p] exI [of _ m] exI [of _ "put p (f m) w1"]) simp
qed

lemma send_obtained_ok:
  assumes ok: "queue_ok (w :: 'a world_scheme)" and opn: "\<not> mQuit w" "\<not> mNotEnqueMsg w"
    and h: "handlers w h = Some H" "h \<noteq> 0" "mQueue H \<noteq> 0"
    and f: "\<And>m. mNext (f m) = mNext m" "\<And>m. mFlags (f m) = mFlags m"
      "\<And>m. mCallback (f m) = mCallback m" "\<And>m. mHandleCallback (f m) = mHandleCallback m"
  shows "\<exists>p m w' k. bnd (obtain_with f h w) (\<lambda>(p, w). sendMessageAtTime h p t w) = Inr w' \<and>
    queue_ok w' \<and> p \<noteq> 0 \<and> p \<in> set (waiting w') \<and> remove1 p (waiting w') = waiting w \<and>
    qwhen w' p = t \<and> handlers w' = handlers w \<and> cells w' p = Some k \<and> mTarget k = h \<and>
    mWhat k = mWhat (f m) \<and> mParam k = mParam (f m) \<and> mCallback k = 0 \<and> mHandleCallback k = 0"
proof -
  obtain p m w1 where w1: "obtain_with f h w = Inr (p, w1)" "queue_ok w1" "owned w1 p (f m)"
    "m = Msg_new\<lparr>mParam := mParam m\<rparr>" "waiting w1 = waiting w" "mQuit w1 = mQuit w"
    "mNotEnqueMsg w1 = mNotEnqueMsg w" "mqueue.more w1 = mqueue.more w"
    using obtain_with_ok [OF ok h f(1)] by blast
  have mf: "mFlags m = 0" "mCallback m = 0" "mHandleCallback m = 0"
    using w1(4) by (metis Msg.select_convs Msg.update_convs(10) Msg_new_def)+
  have idle: "\<not> isInUse (f m)" using mf f by (simp add: isInUse_def FLAGINUSE_def)
  have o1: "\<not> mQuit w1" "\<not> mNotEnqueMsg w1" using w1(6,7) opn by simp_all
  have h1: "handlers w1 = handlers w" by (rule world_more(1) [OF w1(8)])
  have h2: "handlers w1 h = Some H" using h1 h(1) by simp
  obtain w2 where w2: "sendMessageAtTime h p t w1 = Inr w2" "queue_ok w2"
    "waiting w2 = ins_msg (qwhen w1) t p (waiting w1)"
    "msg_at w2 = (msg_at w1)(p := Some (strip ((makeInUse ((f m)\<lparr>mTarget := h\<rparr>))\<lparr>mWhen := t\<rparr>)))"
    "mqueue.more w2 = mqueue.more w1"
    using sendMessageAtTime_ok [OF w1(2,3) idle o1 h2 h(2,3)] by blast
  have p: "p \<noteq> 0" "p \<notin> set (waiting w)" using w1(3,5) by (auto simp: owned_def loose_def)
  obtain k where k: "cells w2 p = Some k"
    "strip k = strip ((makeInUse ((f m)\<lparr>mTarget := h\<rparr>))\<lparr>mWhen := t\<rparr>)"
    using w2(4) by (auto simp: msg_at_def fun_eq_iff dest!: spec [of _ p] split: if_splits)
  have kc: "mTarget k = h" "mWhat k = mWhat (f m)" "mParam k = mParam (f m)" "mCallback k = 0"
    "mHandleCallback k = 0"
    using arg_cong [OF k(2), of mTarget] arg_cong [OF k(2), of mWhat] arg_cong [OF k(2), of mParam]
      arg_cong [OF k(2), of mCallback] arg_cong [OF k(2), of mHandleCallback] mf f(3,4)
    by (simp_all add: makeInUse_def)
  have "p \<notin> set (takeWhile P (waiting w))" for P using p(2) by (auto dest: set_takeWhileD)
  then have "remove1 p (waiting w2) = waiting w" "p \<in> set (waiting w2)"
    by (simp_all add: w2(3) w1(5) ins_msg_def remove1_append)
  moreover have "qwhen w2 p = t" using w2(4) by (simp add: qwhen_def)
  moreover have "handlers w2 = handlers w" using world_more(1) [OF w2(5)] h1 by simp
  moreover have "bnd (obtain_with f h w) (\<lambda>(p, w). sendMessageAtTime h p t w) = Inr w2"
    using w1(1) w2(1) by simp
  ultimately show ?thesis using w2(2) k(1) kc p(1) by blast
qed

text \<open>A message sent with a delay is queued for this handler at the clock's milliseconds plus
  the delay (a negative delay counts as none), behind everything due no later, and its dispatch
  will make the same call as before it was sent: the message's own callback first, else its
  callback object, else the handler's.\<close>
theorem sendMessageDelayed_queues:
  assumes "queue_ok w" and "owned w p m" and "\<not> isInUse m" and "\<not> mQuit w"
    and "\<not> mNotEnqueMsg w" and "handlers w h = Some H" and "h \<noteq> 0" and "mQueue H \<noteq> 0"
    and "unat ns div 1000000 + nat (max 0 d) < 2 ^ 64"
  shows "\<exists>w'. sendMessageDelayed ns h p d w = Inr w' \<and> queue_ok w' \<and>
    (p \<in> set (waiting w') \<and> remove1 p (waiting w') = waiting w) \<and>
    unat (qwhen w' p) = unat ns div 1000000 + nat (max 0 d) \<and>
    (\<exists>m'. msg_at w' p = Some m' \<and> mTarget m' = h) \<and> handlers w' = handlers w \<and>
    dispatchMessage h p w' = Inr
      (if mCallback m \<noteq> 0 then CallFn (mCallback m) p (mContext H)
       else if mHandleCallback m \<noteq> 0 then CallOnHandler (mHandleCallback m) p
       else if mCallbackFn H \<noteq> 0 then CallFn (mCallbackFn H) p (mContext H)
       else if mMessageHandlerFn H \<noteq> 0 then CallFn (mMessageHandlerFn H) p (mContext H)
       else if mMsgHandlerObj H \<noteq> 0 then CallOperator (mMsgHandlerObj H) p (mContext H)
       else if mmsgCallbackObj H \<noteq> 0 then CallOnHandler (mmsgCallbackObj H) p
       else NoCall)"
proof -
  let ?t = "due_time ns d"
  have p: "p \<noteq> 0" "p \<notin> set (waiting w)" using assms(2) by (auto simp: owned_def loose_def)
  obtain w' where w': "sendMessageAtTime h p ?t w = Inr w'" "queue_ok w'"
    "waiting w' = ins_msg (qwhen w) ?t p (waiting w)"
    "msg_at w' = (msg_at w)(p := Some (strip ((makeInUse (m\<lparr>mTarget := h\<rparr>))\<lparr>mWhen := ?t\<rparr>)))"
    "mqueue.more w' = mqueue.more w"
    using sendMessageAtTime_ok [OF assms(1-8), of ?t] by blast
  have hs: "handlers w' = handlers w" by (rule world_more(1) [OF w'(5)])
  obtain k where k: "cells w' p = Some k"
    "strip k = strip ((makeInUse (m\<lparr>mTarget := h\<rparr>))\<lparr>mWhen := ?t\<rparr>)"
    using w'(4) by (auto simp: msg_at_def fun_eq_iff dest!: spec [of _ p] split: if_splits)
  have kc: "mCallback k = mCallback m" "mHandleCallback k = mHandleCallback m"
    using arg_cong [OF k(2), of mCallback] arg_cong [OF k(2), of mHandleCallback]
    by (simp_all add: makeInUse_def)
  have "remove1 p (waiting w') = waiting w"
  proof -
    have "p \<notin> set (takeWhile P (waiting w))" for P using p(2) by (auto dest: set_takeWhileD)
    then show ?thesis by (simp add: w'(3) ins_msg_def remove1_append)
  qed
  moreover have "qwhen w' p = ?t" using w'(4) by (simp add: qwhen_def)
  ultimately show ?thesis
    using w' hs due_time_unat [OF assms(9)] k kc p assms(6,7)
    by (intro exI [of _ w']) (simp add: sendMessageDelayed_eq dispatchMessage_def ldh_def)
qed

lemma extend_simps [simp]:
  "cells (mqueue.extend q x) = cells q" "brk (mqueue.extend q x) = brk q"
  "mMsgQueueHead (mqueue.extend q x) = mMsgQueueHead q"
  "mMsgQueueTail (mqueue.extend q x) = mMsgQueueTail q"
  "mMsgQueueSize (mqueue.extend q x) = mMsgQueueSize q" "mMsgPool (mqueue.extend q x) = mMsgPool q"
  "mMsgPoolSize (mqueue.extend q x) = mMsgPoolSize q"
  "mMsgPoolMaxSize (mqueue.extend q x) = mMsgPoolMaxSize q"
  "mMsgPoolIsFull (mqueue.extend q x) = mMsgPoolIsFull q"
  "mBlocked (mqueue.extend q x) = mBlocked q" "mQuit (mqueue.extend q x) = mQuit q"
  "mNotEnqueMsg (mqueue.extend q x) = mNotEnqueMsg q" "mqueue.more (mqueue.extend q x) = x"
  "msg_at (mqueue.extend q x) = msg_at q" "qwhen (mqueue.extend q x) = qwhen q"
  "waiting (mqueue.extend q x) = waiting q" "pooled (mqueue.extend q x) = pooled q"
  by (simp_all add: mqueue.defs msg_at_def qwhen_def waiting_def pooled_def fun_eq_iff)

lemma queue_ok_extend [simp]: "queue_ok (mqueue.extend q x) = queue_ok q"
  by (simp add: queue_ok_def queue_rel_def queue_shape_def wf_mem_def)

lemma owned_extend [simp]: "owned (mqueue.extend q x) = owned q"
  by (simp add: owned_def loose_def fun_eq_iff)

text \<open>The sample queue with one handler, at address 77, whose callback is 60.\<close>

definition sample_world :: "int \<Rightarrow> world" where
  "sample_world cap = mqueue.extend (sample_queue cap)
     \<lparr>handlers = [77 \<mapsto> MsgHandler_new\<lparr>mLooper := 50, mQueue := 51, mCallbackFn := 60,
        mContext := 61\<rparr>],
      hbrk = 78, curLooper = 50, looperQueue = 51\<rparr>"

lemma sample_world_simps [simp]:
  "handlers (sample_world cap) = [77 \<mapsto> MsgHandler_new\<lparr>mLooper := 50, mQueue := 51,
    mCallbackFn := 60, mContext := 61\<rparr>]"
  "curLooper (sample_world cap) = 50" "looperQueue (sample_world cap) = 51"
  "mQuit (sample_world cap) = False" "mNotEnqueMsg (sample_world cap) = False"
  "queue_ok (sample_world cap) = queue_ok (sample_queue cap)"
  "owned (sample_world cap) = owned (sample_queue cap)"
  "waiting (sample_world cap) = waiting (sample_queue cap)"
  "pooled (sample_world cap) = pooled (sample_queue cap)"
  "mMsgPoolSize (sample_world cap) = 1" "mMsgPoolMaxSize (sample_world cap) = cap"
  by (simp_all add: sample_world_def) (simp_all add: mqueue.defs)

theorem sendMessageDelayed_queues_witness:
  "\<exists>w'. sendMessageDelayed 9000000 77 4 20 (sample_world 9) = Inr w' \<and>
    4 \<in> set (waiting w') \<and> unat (qwhen w' 4) = 29 \<and>
    dispatchMessage 77 4 w' = Inr (CallFn 60 4 61)"
proof -
  let ?m = "Msg_new\<lparr>mWhat := 8, mTarget := 77\<rparr>"
  have nine: "1 \<le> (9::int)" by simp
  note s = sample_queue_ok [OF nine]
  have "queue_ok (sample_world 9)" "owned (sample_world 9) 4 ?m" using s by simp_all
  moreover have "\<not> isInUse ?m" by (simp add: isInUse_def Msg_new_def FLAGINUSE_def)
  moreover have "unat (9000000 :: 64 word) div 1000000 + nat (max 0 20) = 29" by simp
  ultimately show ?thesis
    using sendMessageDelayed_queues [of "sample_world 9" 4 ?m 77 _ 9000000 20]
    by (auto simp: MsgHandler_new_def Msg_new_def)
qed

text \<open>C28: sendEmptyMessage queues its message and then deletes the handler it was called on, because
  the temporary Handler built from this owns it: when the looper dispatches the message to its
  target, it uses freed memory.\<close>
theorem sendEmptyMessage_frees_handler:
  assumes "queue_ok w" and "\<not> mQuit w" and "\<not> mNotEnqueMsg w" and "handlers w h = Some H"
    and "h \<noteq> 0" and "mQueue H \<noteq> 0"
  shows "\<exists>w' p m. sendEmptyMessage ns h what w = Inr w' \<and> queue_ok w' \<and> p \<in> set (waiting w') \<and>
    msg_at w' p = Some m \<and> mTarget m = h \<and> mWhat m = what \<and> handlers w' h = None \<and>
    dispatchMessage h p w' = Inl Dangling"
proof -
  let ?f = "\<lambda>m. m\<lparr>mWhat := what\<rparr>"
  obtain p m w1 k where w1: "bnd (obtain_with ?f h w) (\<lambda>(p, w). sendMessageAtTime h p (due_time ns 0) w) = Inr w1"
    "queue_ok w1" "p \<noteq> 0" "p \<in> set (waiting w1)" "handlers w1 = handlers w" "cells w1 p = Some k"
    "mTarget k = h" "mWhat k = mWhat (?f m)" "mCallback k = 0" "mHandleCallback k = 0"
    using send_obtained_ok [OF assms(1-6), of ?f "due_time ns 0"] by auto
  let ?w = "w1\<lparr>handlers := (handlers w1)(h := None)\<rparr>"
  have "sendEmptyMessage ns h what w = bnd (bnd (obtain_with ?f h w)
      (\<lambda>(p, w). sendMessageAtTime h p (due_time ns 0) w)) (MsgHandler_delete h)"
    by (cases "obtain_with ?f h w")
      (auto simp: sendEmptyMessage_def obtain_what_def sendMessageDelayed_eq)
  then have "sendEmptyMessage ns h what w = Inr ?w"
    using w1(1,5) assms(4,5) by (simp add: MsgHandler_delete_def ldh_def)
  moreover have "msg_at ?w p = Some (strip k)" using w1(3,6) by (simp add: msg_at_def)
  moreover have "dispatchMessage h p ?w = Inl Dangling"
    using w1 assms(5) by (simp add: dispatchMessage_def ldh_def ld_def)
  ultimately show ?thesis using w1
    by (intro exI [of _ ?w] exI [of _ p] exI [of _ "strip k"]) simp
qed

theorem sendEmptyMessage_frees_handler_witness:
  "\<exists>w' p. sendEmptyMessage 9000000 77 3 (sample_world 9) = Inr w' \<and> p \<in> set (waiting w') \<and>
    dispatchMessage 77 p w' = Inl Dangling"
proof -
  have nine: "1 \<le> (9::int)" by simp
  note s = sample_queue_ok [OF nine]
  have "queue_ok (sample_world 9)" using s by simp
  then show ?thesis
    using sendEmptyMessage_frees_handler [of "sample_world 9" 77 _ 9000000 3]
    by (auto simp: MsgHandler_new_def)
qed

end
