(* ===== verification/Step_System.thy ===== *)
theory Step_System
  imports Base_Prelude
begin

text \<open>
  Systems of threads as step relations whose steps may fault. \<open>reach\<close> is reachability, and the
  locale \<open>safe_system\<close> is the proof obligation the concurrent components share: an invariant that
  holds initially and that every step keeps without a fault.
\<close>

inductive reach :: "('s \<Rightarrow> bool) \<Rightarrow> ('s \<Rightarrow> 'e + 's \<Rightarrow> bool) \<Rightarrow> 's \<Rightarrow> bool"
  for I :: "'s \<Rightarrow> bool" and S :: "'s \<Rightarrow> 'e + 's \<Rightarrow> bool" where
  reach_init: "I s \<Longrightarrow> reach I S s"
| reach_step: "reach I S s \<Longrightarrow> S s (Inr s') \<Longrightarrow> reach I S s'"

locale safe_system =
  fixes I :: "'s \<Rightarrow> bool"
    and S :: "'s \<Rightarrow> 'e + 's \<Rightarrow> bool"
    and inv :: "'s \<Rightarrow> bool"
  assumes init_inv: "I s \<Longrightarrow> inv s"
    and step_inv: "inv s \<Longrightarrow> S s r \<Longrightarrow> \<exists>s'. r = Inr s' \<and> inv s'"
begin

lemma reach_inv: "reach I S s \<Longrightarrow> inv s"
proof (induction rule: reach.induct)
  case (reach_init s)
  then show ?case by (rule init_inv)
next
  case (reach_step s s')
  then show ?case using step_inv [of s "Inr s'"] by auto
qed

lemma reach_no_fault: "reach I S s \<Longrightarrow> S s r \<Longrightarrow> \<exists>s'. r = Inr s' \<and> reach I S s'"
  using step_inv [OF reach_inv] reach.reach_step by metis

end

end
