(* ===== verification/Msg_Looper.thy ===== *)
theory Msg_Looper
  imports Msg_Handler Step_System
begin

text \<open>
  The looper (\<open>src/looper/MessageLooper.cpp\<close>): the loop thread that takes messages out of the
  queue with \<open>next\<close>, while any number of client threads work on the same queue.

  The concurrent system is a step relation between states \<open>sys\<close>. Every critical section of the
  queue's lock is one step, so all interleavings the lock allows are covered. The consumer's
  position (\<open>cpc\<close>) says where in \<open>loop\<close> and \<open>next\<close> its thread is; a thread in \<open>Condition::wait\<close>
  remembers the number of broadcasts at the moment it began to wait. Clients own the messages in
  \<open>held\<close>, as the holders of a \<open>std::unique_ptr\<close> do. A step yields a fault or a new state, so that
  the absence of faults is a theorem and not a side condition.
\<close>

subsection \<open>The loop thread\<close>

datatype cpc =
    CLoop
  | CTop int
  | CWait nat
  | CTimed int nat
  | CHave ptr
  | CExit

record sys =
  que :: mqueue
  held :: "ptr set"
  pc :: cpc
  clock :: "64 word"
  mExit :: bool
  mPromoteThrLevel :: bool
  delivered :: "(ptr \<times> 64 word \<times> 64 word) list"

definition sys_init :: "string \<Rightarrow> int \<Rightarrow> 64 word \<Rightarrow> sys" where
  "sys_init name n now = \<lparr>que = MsgQueue_new name n, held = {}, pc = CLoop, clock = now,
     mExit = False, mPromoteThrLevel = False, delivered = []\<rparr>"

text \<open>What \<open>next\<close> does after a scan: return the message, return null, or go round again.\<close>

definition after_scan :: "(next_out \<times> mqueue) res \<Rightarrow> sys \<Rightarrow> sys res" where
  "after_scan r s =
     bnd r (\<lambda>(out, q).
       case out of
         NReturn p \<Rightarrow>
           if p = 0 then Inr (s\<lparr>que := q, pc := CExit\<rparr>)
           else bnd (ld p q) (\<lambda>m. Inr (s\<lparr>que := q, pc := CHave p,
                  delivered := delivered s @ [(p, mWhen m, clock s)]\<rparr>))
       | NAgain t \<Rightarrow> Inr (s\<lparr>que := q, pc := CTop t\<rparr>))"

definition consumer_step :: "sys \<Rightarrow> sys res" where
  "consumer_step s =
     (case pc s of
        CLoop \<Rightarrow>
          if mExit s \<and> getQueueSize (que s) = 0 then Inr (s\<lparr>pc := CExit\<rparr>)
          else Inr (s\<lparr>mPromoteThrLevel := mPromoteThrLevel s \<and> \<not> mExit s, pc := CTop (-1)\<rparr>)
      | CTop t \<Rightarrow>
          (case next_begin t (que s) of
             NQuit \<Rightarrow> Inr (s\<lparr>pc := CExit\<rparr>)
           | NWait \<Rightarrow> Inr (s\<lparr>pc := CWait (mWait (que s))\<rparr>)
           | NPass t \<Rightarrow> after_scan (next_scan (clock s) t (que s)) s
           | NTimed t \<Rightarrow>
               if t = 0 then after_scan (next_timed (clock s) t (que s)) s
               else Inr (s\<lparr>pc := CTimed t (mWait (que s))\<rparr>))
      | CWait _ \<Rightarrow>
          if mBlocked (que s) then Inr (s\<lparr>pc := CWait (mWait (que s))\<rparr>)
          else after_scan (next_scan (clock s) (-1) (que s)) s
      | CTimed t _ \<Rightarrow> after_scan (next_timed (clock s) t (que s)) s
      | CHave p \<Rightarrow>
          bnd (ld p (que s)) (\<lambda>m.
            if mTarget m = 0 then Inl AssertFail
            else bnd (recycleMsg p (que s)) (\<lambda>q. Inr (s\<lparr>que := q, pc := CLoop\<rparr>)))
      | CExit \<Rightarrow> Inr s)"

subsection \<open>The clients\<close>

text \<open>
  What a client thread can do: allocate or obtain a message, write to one it owns, send it, drop
  it, remove waiting messages, ask the looper to quit (the queue first, the flags after it, as in
  \<open>MsgLooper::quit\<close>), and let time pass.
\<close>

datatype cop =
    OpNew
  | OpObtain
  | OpWrite ptr Msg
  | OpEnqueue ptr "64 word"
  | OpDrop ptr
  | OpRemove "Msg \<Rightarrow> bool" ptr
  | OpRemoveMsg ptr ptr
  | OpQuitQueue bool
  | OpQuitFlags bool
  | OpSetOutTime int
  | OpTick "64 word"

definition client_op :: "cop \<Rightarrow> sys \<Rightarrow> sys res" where
  "client_op op s =
     (case op of
        OpNew \<Rightarrow> (let (p, q) = new_Msg (que s) in Inr (s\<lparr>que := q, held := insert p (held s)\<rparr>))
      | OpObtain \<Rightarrow>
          bnd (obtain_pool (que s)) (\<lambda>(p, q).
            Inr (s\<lparr>que := q, held := (if p = 0 then held s else insert p (held s))\<rparr>))
      | OpWrite p m \<Rightarrow> Inr (s\<lparr>que := put p m (que s)\<rparr>)
      | OpEnqueue p t \<Rightarrow>
          bnd (enqueueMessage p t (que s)) (\<lambda>(_, q). Inr (s\<lparr>que := q, held := held s - {p}\<rparr>))
      | OpDrop p \<Rightarrow> bnd (Msg_reset p (que s)) (\<lambda>q. Inr (s\<lparr>que := q, held := held s - {p}\<rparr>))
      | OpRemove P h \<Rightarrow> bnd (remove_loop (\<lambda>_. P) h (que s)) (\<lambda>q. Inr (s\<lparr>que := q\<rparr>))
      | OpRemoveMsg p h \<Rightarrow>
          bnd (removeMessage_msg p h (que s)) (\<lambda>q. Inr (s\<lparr>que := q, held := held s - {p}\<rparr>))
      | OpQuitQueue b \<Rightarrow>
          if mExit s then Inr s else bnd (quit b (que s)) (\<lambda>q. Inr (s\<lparr>que := q\<rparr>))
      | OpQuitFlags b \<Rightarrow> Inr (s\<lparr>mPromoteThrLevel := b \<or> mPromoteThrLevel s, mExit := True\<rparr>)
      | OpSetOutTime t \<Rightarrow> Inr (s\<lparr>que := setTestOutTimeMillisExit t (que s)\<rparr>)
      | OpTick d \<Rightarrow> Inr (s\<lparr>clock := d\<rparr>))"

text \<open>
  What ownership allows: only the holder of a message writes, sends or drops it; a write leaves
  the link alone, which only the queue uses; the clock does not go back; the flags of the looper
  are set after its queue was told to quit.
\<close>

definition allowed :: "cop \<Rightarrow> sys \<Rightarrow> bool" where
  "allowed op s \<longleftrightarrow>
     (case op of
        OpWrite p m \<Rightarrow> p \<in> held s \<and> mNext m = 0
      | OpEnqueue p t \<Rightarrow> p \<in> held s
      | OpDrop p \<Rightarrow> p \<in> held s
      | OpRemove P h \<Rightarrow> stable (\<lambda>_. P)
      | OpRemoveMsg p h \<Rightarrow> p \<in> held s
      | OpQuitFlags b \<Rightarrow> mQuit (que s) \<or> mNotEnqueMsg (que s)
      | OpTick d \<Rightarrow> clock s \<le> d
      | _ \<Rightarrow> True)"

inductive sys_step :: "sys \<Rightarrow> sys res \<Rightarrow> bool" where
  consumer: "sys_step s (consumer_step s)"
| client: "allowed op s \<Longrightarrow> sys_step s (client_op op s)"

definition sys_start :: "sys \<Rightarrow> bool" where
  "sys_start s \<longleftrightarrow> (\<exists>name n now. 0 \<le> n \<and> s = sys_init name n now)"

definition reachable :: "sys \<Rightarrow> bool" where
  "reachable = reach sys_start sys_step"

lemma reachable_init: "0 \<le> n \<Longrightarrow> reachable (sys_init name n now)"
  unfolding reachable_def by (rule reach_init) (auto simp: sys_start_def)

lemma reachable_step: "reachable s \<Longrightarrow> sys_step s (Inr s') \<Longrightarrow> reachable s'"
  unfolding reachable_def by (rule reach_step)

inductive_cases sys_stepE [elim]: "sys_step s r"

subsection \<open>The invariant\<close>

definition live_at :: "cpc \<Rightarrow> ptr set" where
  "live_at c = (case c of CHave p \<Rightarrow> {p} | _ \<Rightarrow> {})"

definition pc_inv :: "sys \<Rightarrow> bool" where
  "pc_inv s \<longleftrightarrow>
     (case pc s of
        CWait e \<Rightarrow> e \<le> mWait (que s) \<and> (e = mWait (que s) \<longrightarrow> mBlocked (que s))
      | CTimed t e \<Rightarrow> e \<le> mWait (que s)
      | CHave p \<Rightarrow> p \<notin> held s \<and> (\<exists>m. owned (que s) p m \<and> mTarget m \<noteq> 0)
      | _ \<Rightarrow> True)"

text \<open>
  Every live cell is in one place: in a list of the queue or owned by exactly one thread.
\<close>

definition in_lists :: "mqueue \<Rightarrow> ptr set" where
  "in_lists q = set (waiting q) \<union> set (pooled q)"

definition inv_core :: "mqueue \<Rightarrow> ptr set \<Rightarrow> bool" where
  "inv_core q H \<longleftrightarrow>
     queue_ok q \<and> (\<forall>p\<in>H. \<exists>m. owned q p m) \<and> (\<forall>a. cells q a \<noteq> None \<longleftrightarrow> a \<in> in_lists q \<union> H)"

definition sys_inv :: "sys \<Rightarrow> bool" where
  "sys_inv s \<longleftrightarrow>
     inv_core (que s) (held s \<union> live_at (pc s)) \<and> pc_inv s \<and>
     (\<forall>(p, w, now)\<in>set (delivered s). w \<le> now)"

text \<open>
  The two ways an operation moves messages. \<open>consumes P\<close>: the queue takes the messages of \<open>P\<close>
  from their owner, into a list or freeing them. \<open>produces p\<close>: the queue gives up \<open>p\<close>. The last
  conjunct of each is about waking: the block flag falls only together with a broadcast.
\<close>

definition wakes :: "mqueue \<Rightarrow> mqueue \<Rightarrow> bool" where
  "wakes q q' \<longleftrightarrow>
     mWait q' = mWait q \<and> (mBlocked q \<longrightarrow> mBlocked q') \<or> mWait q < mWait q'"

definition consumes :: "ptr set \<Rightarrow> mqueue \<Rightarrow> mqueue \<Rightarrow> bool" where
  "consumes P q q' \<longleftrightarrow>
     queue_ok q' \<and> frame (P \<union> in_lists q) q q' \<and> in_lists q' \<subseteq> P \<union> in_lists q \<and>
     (\<forall>a. cells q' a \<noteq> None \<longleftrightarrow> a \<in> in_lists q' \<or> (a \<notin> P \<union> in_lists q \<and> cells q a \<noteq> None)) \<and>
     wakes q q'"

definition produces :: "ptr \<Rightarrow> mqueue \<Rightarrow> mqueue \<Rightarrow> bool" where
  "produces p q q' \<longleftrightarrow>
     queue_ok q' \<and> frame {p} q q' \<and> (\<exists>m. owned q' p m) \<and> in_lists q' \<union> {p} = in_lists q \<union> {p} \<and>
     (p \<in> in_lists q \<or> cells q p = None) \<and>
     (\<forall>a. cells q' a \<noteq> None \<longleftrightarrow> a = p \<or> cells q a \<noteq> None) \<and> wakes q q'"

lemma owned_iff:
  "owned q p m \<longleftrightarrow> p \<noteq> 0 \<and> cells q p = Some m \<and> mNext m = 0 \<and> p \<notin> in_lists q"
  by (auto simp: owned_def loose_def in_lists_def)

lemma core_owned: "inv_core q H \<Longrightarrow> p \<in> H \<Longrightarrow> \<exists>m. owned q p m"
  by (simp add: inv_core_def)

lemma core_consumes:
  assumes "inv_core q H" and "consumes P q q'" and "P \<subseteq> H"
  shows "inv_core q' (H - P)" and "p \<in> H - P \<Longrightarrow> owned q p m \<Longrightarrow> owned q' p m"
proof -
  have out: "p \<notin> in_lists q" if "p \<in> H" for p using assms(1) that by (auto simp: inv_core_def owned_iff)
  show own: "p \<in> H - P \<Longrightarrow> owned q p m \<Longrightarrow> owned q' p m" for p m
    using assms(2) by (auto simp: consumes_def frame_def owned_iff)
  have "\<forall>p\<in>H - P. \<exists>m. owned q' p m" using own assms(1) unfolding inv_core_def by blast
  moreover have "cells q' a \<noteq> None \<longleftrightarrow> a \<in> in_lists q' \<union> (H - P)" for a
  proof -
    have "cells q' a \<noteq> None \<longleftrightarrow> a \<in> in_lists q' \<or> (a \<notin> P \<union> in_lists q \<and> cells q a \<noteq> None)"
      using assms(2) by (simp add: consumes_def)
    moreover have "cells q a \<noteq> None \<longleftrightarrow> a \<in> in_lists q \<union> H" using assms(1) by (simp add: inv_core_def)
    ultimately show ?thesis using out by blast
  qed
  ultimately show "inv_core q' (H - P)" using assms(2) by (simp add: inv_core_def consumes_def)
qed

lemma core_produces:
  assumes "inv_core q H" and "produces p q q'"
  shows "inv_core q' (insert p H)" and "p \<notin> H" and "r \<in> H \<Longrightarrow> owned q r m \<Longrightarrow> owned q' r m"
proof -
  have out: "r \<notin> in_lists q" "cells q r \<noteq> None" if "r \<in> H" for r
    using assms(1) that by (auto simp: inv_core_def owned_iff)
  show new: "p \<notin> H" using out [of p] assms(2) by (auto simp: produces_def)
  show own: "r \<in> H \<Longrightarrow> owned q r m \<Longrightarrow> owned q' r m" for r m
    using assms(2) new out(1) [of r] by (auto simp: produces_def frame_def owned_iff)
  have "\<forall>r\<in>insert p H. \<exists>m. owned q' r m"
    using own assms unfolding inv_core_def produces_def by blast
  moreover have "cells q' a \<noteq> None \<longleftrightarrow> a \<in> in_lists q' \<union> insert p H" for a
  proof -
    have "cells q' a \<noteq> None \<longleftrightarrow> a = p \<or> cells q a \<noteq> None"
      using assms(2) by (simp add: produces_def)
    moreover have "cells q a \<noteq> None \<longleftrightarrow> a \<in> in_lists q \<union> H" using assms(1) by (simp add: inv_core_def)
    moreover have "in_lists q' \<union> {p} = in_lists q \<union> {p}" using assms(2) by (simp add: produces_def)
    ultimately show ?thesis by blast
  qed
  ultimately show "inv_core q' (insert p H)" using assms(2) by (simp add: inv_core_def produces_def)
qed

subsection \<open>Every operation of the queue consumes or produces\<close>

lemma wakes_refl [simp]: "mWait q' = mWait q \<Longrightarrow> mBlocked q' = mBlocked q \<Longrightarrow> wakes q q'"
  "mWait q' = Suc (mWait q) \<Longrightarrow> wakes q q'"
  by (simp_all add: wakes_def)

lemma cells_via_msg_at:
  "msg_at q' = (\<lambda>a. if a \<in> A then f a else msg_at q a) \<Longrightarrow>
    cells q' a \<noteq> None \<longleftrightarrow> (if a \<in> A then f a \<noteq> None else cells q a \<noteq> None)"
  by (metis msg_at_eq_None)

lemma cells_upd:
  "msg_at q' = (msg_at q)(p := x) \<Longrightarrow>
    cells q' a \<noteq> None \<longleftrightarrow> (if a = p then x \<noteq> None else cells q a \<noteq> None)"
  by (metis fun_upd_apply msg_at_eq_None)

lemma in_lists_live: "queue_ok q \<Longrightarrow> a \<in> in_lists q \<Longrightarrow> cells q a \<noteq> None"
  using queue_shape_live [OF queue_rel_shape [OF queue_ok_rel]] by (fastforce simp: in_lists_def)

lemma new_Msg_produces:
  "queue_ok q \<Longrightarrow> \<exists>p q'. new_Msg q = (p, q') \<and> produces p q q'"
proof -
  assume ok: "queue_ok q"
  let ?q = "snd (new_Msg q)"
  note n = new_Msg_ok [OF queue_ok_rel [OF ok]]
  note l = queue_rel_lists [OF n(1)]
  have "wakes q ?q" by (simp add: new_Msg_def)
  moreover have "\<exists>m. owned ?q (brk q) m" using n(2) by (auto simp: owned_def l)
  moreover have "queue_ok ?q" using n(1) by (simp add: queue_ok_iff)
  ultimately have "produces (brk q) q ?q"
    using n(4,5) cells_upd [OF n(3)] by (auto simp: produces_def in_lists_def l)
  then show ?thesis by (intro exI [of _ "brk q"] exI [of _ ?q]) (simp add: new_Msg_def)
qed

lemma obtain_pool_produces:
  assumes ok: "queue_ok q"
  shows "obtain_pool q = Inr (0, q) \<or> (\<exists>p q'. p \<noteq> 0 \<and> obtain_pool q = Inr (p, q') \<and> produces p q q')"
proof (cases "pool_ready q")
  case True
  obtain p ps' q' m where q': "pooled q = p # ps'" "obtain_pool q = Inr (p, q')"
    "queue_rel q' (waiting q) ps'" "loose q' (waiting q) ps' p m" "msg_at q' = msg_at q"
    "ctl q' = ctl q" "frame {p} q q'"
    using obtain_pool_some [OF queue_ok_rel [OF ok] True] by blast
  note l = queue_rel_lists [OF q'(3)]
  have p: "p \<in> in_lists q" "p \<noteq> 0" using q'(1,4) by (auto simp: in_lists_def loose_def)
  have "\<forall>a. cells q' a \<noteq> None \<longleftrightarrow> a = p \<or> cells q a \<noteq> None"
    using in_lists_live [OF ok p(1)] q'(5) by (metis msg_at_eq_None)
  moreover have "queue_ok q'" "\<exists>m. owned q' p m" using q'(3,4) l by (auto simp: queue_ok_iff owned_def)
  ultimately have "produces p q q'"
    using q' l p by (auto simp: produces_def in_lists_def)
  with q' p show ?thesis by blast
qed (simp add: obtain_pool_none)

text \<open>A message that goes into the queue, into the pool or away is consumed.\<close>

lemma consumes_message:
  assumes ok: "queue_ok q" and own: "owned q p m" and rel: "queue_rel q' ws ps"
    and lists: "set ws \<union> set ps = (if x = None then in_lists q else insert p (in_lists q))"
    and at: "msg_at q' = (msg_at q)(p := x)" and "wakes q q'" and "frame A q q'" and "A \<subseteq> insert p (in_lists q)"
  shows "consumes {p} q q'"
proof -
  have l: "in_lists q' = (if x = None then in_lists q else insert p (in_lists q))"
    using lists by (simp add: in_lists_def queue_rel_lists [OF rel])
  have p: "p \<notin> in_lists q" using own by (simp add: owned_iff)
  have lv: "cells q a \<noteq> None" if "a \<in> in_lists q" for a using in_lists_live [OF ok that] .
  have "queue_ok q'" using rel by (simp add: queue_ok_iff)
  moreover have "frame ({p} \<union> in_lists q) q q'" using assms(7,8) by (auto simp: frame_def)
  moreover have "cells q' a \<noteq> None \<longleftrightarrow> a \<in> in_lists q' \<or> a \<notin> {p} \<union> in_lists q \<and> cells q a \<noteq> None" for a
    using cells_upd [OF at, of a] p lv [of a] unfolding l by (cases x) auto
  ultimately show ?thesis using l assms(6) by (auto simp: consumes_def)
qed

lemma enqueueMessage_consumes:
  assumes ok: "queue_ok q" and own: "owned q p m"
  shows "\<exists>b q'. enqueueMessage p t q = Inr (b, q') \<and> consumes {p} q q'"
proof -
  note rel = queue_ok_rel [OF ok] and l = own [unfolded owned_def]
  consider "mTarget m = 0 \<or> isInUse m" | "mTarget m \<noteq> 0" "\<not> isInUse m" "mQuit q \<or> mNotEnqueMsg q"
    | "mTarget m \<noteq> 0" "\<not> isInUse m" "\<not> mQuit q" "\<not> mNotEnqueMsg q"
    by blast
  then show ?thesis
  proof cases
    case 1
    then obtain q' where q': "enqueueMessage p t q = Inr (False, q')"
      "queue_rel q' (waiting q) (pooled q)" "msg_at q' = (msg_at q)(p := None)" "ctl q' = ctl q"
      "frame {p} q q'"
      using enqueueMessage_reject [OF rel l 1] by blast
    have "wakes q q'" using q'(4) by (simp add: wakes_def)
    then show ?thesis using q'(1) consumes_message [OF ok own q'(2) _ q'(3) _ q'(5)] by (auto simp: in_lists_def)
  next
    case 2
    then obtain q' where q': "enqueueMessage p t q = Inr (False, q')"
      "queue_rel q' (waiting q) (if pools q then p # pooled q else pooled q)"
      "msg_at q' = (msg_at q)(p := if pools q then Some (recycled (strip m)) else None)"
      "ctl q' = ctl q" "frame {p} q q'"
      using enqueueMessage_closed [OF rel l 2] by blast
    have "wakes q q'" using q'(4) by (simp add: wakes_def)
    then show ?thesis using q'(1) consumes_message [OF ok own q'(2) _ q'(3) _ q'(5)] by (auto simp: in_lists_def)
  next
    case 3
    then obtain q' where q': "enqueueMessage p t q = Inr (True, q')"
      "queue_rel q' (ins_msg (qwhen q) t p (waiting q)) (pooled q)"
      "msg_at q' = (msg_at q)(p := Some (strip ((makeInUse m)\<lparr>mWhen := t\<rparr>)))"
      "mWait q' = Suc (mWait q)" "frame (insert p (set (waiting q))) q q'"
      using enqueueMessage_accept [OF rel l 3] by blast
    have "wakes q q'" using q'(4) by (simp add: wakes_def)
    then show ?thesis using q'(1) consumes_message [OF ok own q'(2) _ q'(3) _ q'(5)] by (auto simp: in_lists_def)
  qed
qed

lemma consumes_refl: "queue_ok q \<Longrightarrow> consumes {} q q"
  using in_lists_live by (auto simp: consumes_def)

lemma recycleMsg_consumes:
  assumes ok: "queue_ok q" and own: "owned q p m"
  shows "\<exists>q'. recycleMsg p q = Inr q' \<and> consumes {p} q q'"
proof -
  note rel = queue_ok_rel [OF ok]
  have p: "p \<notin> in_lists q" using own by (simp add: owned_iff)
  obtain q' where q': "recycleMsg p q = Inr q'"
    "queue_shape q' (waiting q) (if pools q then p # pooled q else pooled q)"
    "msg_at q' = (msg_at q)(p := if pools q then Some (recycled (strip m)) else None)"
    "ctl q' = ctl q" "mMsgQueueSize q' = mMsgQueueSize q" "frame {p} q q'"
    using recycleMsg_ok [OF queue_rel_shape [OF rel] own [unfolded owned_def]] by blast
  have r: "queue_rel q' (waiting q) (if pools q then p # pooled q else pooled q)"
    using q' rel by (auto simp: queue_rel_def)
  note w = queue_rel_lists [OF r]
  have "queue_ok q'" using r by (simp add: queue_ok_iff)
  moreover have "in_lists q' = (if pools q then insert p (in_lists q) else in_lists q)"
    by (auto simp: in_lists_def w)
  ultimately have "consumes {p} q q'"
    using q'(4,6) cells_upd [OF q'(3)] p in_lists_live [OF ok] by (auto simp: consumes_def frame_def)
  with q'(1) show ?thesis by blast
qed

lemma Msg_reset_consumes:
  assumes ok: "queue_ok q" and own: "owned q p m"
  shows "\<exists>q'. Msg_reset p q = Inr q' \<and> consumes {p} q q'"
proof -
  note rel = queue_ok_rel [OF ok]
  have p: "p \<noteq> 0" "cells q p = Some m" "mNext m = 0" "p \<notin> set (waiting q)" "p \<notin> set (pooled q)"
    using own by (auto simp: owned_def loose_def)
  let ?q = "(kill p q)\<lparr>calls := calls q @ recycle_calls m\<rparr>"
  have r: "queue_rel ?q (waiting q) (pooled q)"
    using rel queue_shape_delete(1) [OF queue_rel_shape [OF rel] p(4,5)] by (simp add: queue_rel_def)
  note w = queue_rel_lists [OF r]
  have "queue_ok ?q" "in_lists ?q = in_lists q" using r by (simp_all add: queue_ok_iff in_lists_def)
  then have "consumes {p} q ?q"
    using p in_lists_live [OF ok] by (auto simp: consumes_def frame_def in_lists_def)
  moreover have "Msg_reset p q = Inr ?q" using p by (simp add: Msg_reset_single)
  ultimately show ?thesis by blast
qed

lemma remove_loop_consumes:
  assumes ok: "queue_ok q" and st: "stable match"
  shows "\<exists>q'. remove_loop match h q = Inr q' \<and> consumes {} q q'"
proof (cases "List.find (sel q match h) (waiting q)")
  case None
  with remove_loop_ok [OF queue_ok_rel [OF ok] st, of h] consumes_refl [OF ok] show ?thesis by simp
next
  case (Some x)
  with remove_loop_ok [OF queue_ok_rel [OF ok] st, of h] obtain q' m where
    q': "remove_loop match h q = Inr q'"
    "queue_rel q' (remove1 x (waiting q)) (if pools q then x # pooled q else pooled q)"
    "msg_at q' = (msg_at q)(x := if pools q then Some (recycled m) else None)"
    "ctl q' = ctl q" "frame (set (waiting q)) q q'"
    by auto
  have x: "x \<in> set (waiting q)" using Some by (metis find_Some_iff nth_mem)
  have d: "distinct (waiting q)" "set (waiting q) \<inter> set (pooled q) = {}"
    using queue_okD(1) [OF ok] by auto
  note w = queue_rel_lists [OF q'(2)]
  have "queue_ok q'" using q'(2) by (simp add: queue_ok_iff)
  moreover have "in_lists q' = (if pools q then in_lists q else in_lists q - {x})"
    using d x by (auto simp: in_lists_def w)
  ultimately have "consumes {} q q'"
    using q'(4,5) cells_upd [OF q'(3)] x in_lists_live [OF ok]
    by (auto simp: consumes_def frame_def in_lists_def)
  with q'(1) show ?thesis by blast
qed

lemma removeMessage_msg_consumes:
  assumes ok: "queue_ok q" and own: "owned q p m"
  shows "\<exists>q'. removeMessage_msg p h q = Inr q' \<and> consumes {p} q q'"
proof -
  have p: "p \<noteq> 0" "p \<notin> set (waiting q)" using own by (auto simp: owned_def loose_def)
  show ?thesis
  proof (cases "mMsgQueueHead q = 0")
    case True
    with p recycleMsg_consumes [OF ok own] show ?thesis by (simp add: removeMessage_msg_def)
  next
    case False
    have "List.find (sel q (\<lambda>h _. h = p) h) (waiting q) = None"
      using p by (auto simp: find_None_iff sel_def split: option.splits)
    then have "remove_loop (\<lambda>h _. h = p) h q = Inr q"
      using remove_loop_ok [OF queue_ok_rel [OF ok], of "\<lambda>h _. h = p" h] by simp
    with False p Msg_reset_consumes [OF ok own] show ?thesis by (simp add: removeMessage_msg_def)
  qed
qed

lemma quit_consumes:
  assumes ok: "queue_ok q"
  shows "\<exists>q'. quit b q = Inr q' \<and> consumes {} q q'"
proof (cases "mQuit q")
  case True
  with consumes_refl [OF ok] show ?thesis by (simp add: quit_def)
next
  case False
  show ?thesis
  proof (cases b)
    case True
    obtain q' where q': "quit True q = Inr q'" "queue_rel q' (waiting q) (pooled q)"
      "msg_at q' = msg_at q" "mWait q' = Suc (mWait q)" "frame {} q q'"
      using quit_safely_ok [OF queue_ok_rel [OF ok] False] by blast
    have "queue_ok q'" "in_lists q' = in_lists q" using q'(2) by (simp_all add: queue_ok_iff in_lists_def)
    then have "consumes {} q q'"
      using q' in_lists_live [OF ok] by (auto simp: consumes_def frame_def)
    with q'(1) True show ?thesis by auto
  next
    case b: False
    obtain q' where q': "quit False q = Inr q'" "queue_rel q' [] (pooled q)"
      "msg_at q' = (\<lambda>a. if a \<in> set (waiting q) then None else msg_at q a)"
      "mWait q' = Suc (mWait q)" "frame (set (waiting q)) q q'"
      using quit_now_ok [OF queue_ok_rel [OF ok] False] by blast
    have "queue_ok q'" "in_lists q' = set (pooled q)"
      using q'(2) by (simp_all add: queue_ok_iff in_lists_def)
    moreover have "set (waiting q) \<inter> set (pooled q) = {}" using queue_okD(1) [OF ok] by auto
    ultimately have "consumes {} q q'"
      using q'(4,5) cells_via_msg_at [OF q'(3)] in_lists_live [OF ok]
      by (auto simp: consumes_def frame_def in_lists_def)
    with q'(1) b show ?thesis by auto
  qed
qed

text \<open>A scan hands out a due message, or leaves the lists alone.\<close>

lemma next_scan_due_produces:
  assumes ok: "queue_ok q" and w: "waiting q = x # xs" and due: "qwhen q x \<le> now"
  shows "\<exists>q' m. next_scan now t q = Inr (NReturn x, q') \<and> produces x q q' \<and>
    owned q' x m \<and> mTarget m \<noteq> 0 \<and> mWhen m \<le> now"
proof -
  from next_scan_due [OF queue_ok_rel [OF ok, unfolded w] due, of t] obtain q' m where q':
    "next_scan now t q = Inr (NReturn x, q')" "queue_rel q' xs (pooled q)"
    "loose q' xs (pooled q) x m" "mTarget m \<noteq> 0" "msg_at q' = msg_at q" "ctl q' = ctl q"
    "frame {x} q q'"
    by blast
  note l = queue_rel_lists [OF q'(2)]
  have own: "owned q' x m" using q'(3) l by (simp add: owned_def)
  then have "cells q' x = Some m" by (simp add: owned_iff)
  then have "msg_at q x = Some (strip m)" using q'(5) by (metis msg_at_Some)
  then have "mWhen m \<le> now" using due by (simp add: qwhen_def)
  moreover have "queue_ok q'" using q'(2) by (simp add: queue_ok_iff)
  moreover have "x \<in> in_lists q" by (simp add: in_lists_def w)
  moreover have "\<forall>a. cells q' a \<noteq> None \<longleftrightarrow> a = x \<or> cells q a \<noteq> None"
    using q'(5) in_lists_live [OF ok \<open>x \<in> in_lists q\<close>] by (metis msg_at_eq_None)
  ultimately have "produces x q q'"
    using q'(6,7) own l w unfolding produces_def by (auto simp: in_lists_def)
  with q'(1,4) own \<open>mWhen m \<le> now\<close> show ?thesis by blast
qed

lemma next_scan_produces:
  assumes ok: "queue_ok q"
  shows "(\<exists>x q' m. next_scan now t q = Inr (NReturn x, q') \<and> produces x q q' \<and>
        owned q' x m \<and> mTarget m \<noteq> 0 \<and> mWhen m \<le> now) \<or>
      next_scan now t q = Inr (NReturn 0, q) \<or>
      (\<exists>t'. next_scan now t q = Inr (NAgain t', q)) \<or>
      next_scan now t q = Inr (NAgain (-1), q\<lparr>mBlocked := True\<rparr>) \<and> consumes {} q (q\<lparr>mBlocked := True\<rparr>)"
proof (cases "waiting q")
  case Nil
  show ?thesis
  proof (cases "mQuit q \<or> mNotEnqueMsg q")
    case False
    then have r: "queue_rel (q\<lparr>mBlocked := True\<rparr>) [] (pooled q)"
      using queue_rel_block [of q "pooled q"] queue_ok_rel [OF ok] Nil by simp
    then have "queue_ok (q\<lparr>mBlocked := True\<rparr>)" by (simp add: queue_ok_iff)
    then have "consumes {} q (q\<lparr>mBlocked := True\<rparr>)"
      using in_lists_live [OF ok]
      by (auto simp: consumes_def in_lists_def queue_rel_lists [OF r] Nil wakes_def frame_def)
    with next_scan_cases [OF ok, of now t] Nil show ?thesis by (auto simp: pending_def)
  qed (use next_scan_cases [OF ok, of now t] Nil in \<open>auto simp: pending_def\<close>)
next
  case (Cons x xs)
  show ?thesis
  proof (cases "qwhen q x \<le> now")
    case False
    with next_scan_cases [OF ok, of now t] Cons show ?thesis by (auto simp: pending_def)
  next
    case True
    then show ?thesis using next_scan_due_produces [OF ok Cons] by blast
  qed
qed

subsection \<open>The steps keep the invariant and never fault\<close>

lemma pc_inv_wakes:
  assumes "pc_inv s" and "wakes (que s) q'"
    and "\<And>p m. pc s = CHave p \<Longrightarrow> owned (que s) p m \<Longrightarrow> owned q' p m \<and> p \<notin> H"
  shows "pc_inv (s\<lparr>que := q', held := H\<rparr>)"
  using assms by (cases "pc s") (fastforce simp: pc_inv_def wakes_def)+

lemma sys_inv_consumes:
  assumes inv: "sys_inv s" and c: "consumes P (que s) q'" and P: "P \<subseteq> held s"
  shows "sys_inv (s\<lparr>que := q', held := held s - P\<rparr>)"
proof -
  have core: "inv_core (que s) (held s \<union> live_at (pc s))" and pcs: "pc_inv s"
    using inv by (simp_all add: sys_inv_def)
  have apart: "held s \<inter> live_at (pc s) = {}"
    using pcs by (cases "pc s") (auto simp: pc_inv_def live_at_def)
  have "inv_core q' ((held s \<union> live_at (pc s)) - P)"
    using core_consumes(1) [OF core c] P by blast
  also have "(held s \<union> live_at (pc s)) - P = (held s - P) \<union> live_at (pc s)" using apart P by blast
  finally have "inv_core q' (held s - P \<union> live_at (pc s))" .
  moreover have "pc_inv (s\<lparr>que := q', held := held s - P\<rparr>)"
  proof (rule pc_inv_wakes [OF pcs])
    show "wakes (que s) q'" using c by (simp add: consumes_def)
    fix p m
    assume p: "pc s = CHave p" "owned (que s) p m"
    then have "p \<notin> held s" using pcs by (simp add: pc_inv_def)
    with p P core_consumes(2) [OF core c _ _ p(2)] show "owned q' p m \<and> p \<notin> held s - P"
      by (auto simp: live_at_def)
  qed
  ultimately show ?thesis using inv by (simp add: sys_inv_def)
qed

lemma sys_inv_produces:
  assumes inv: "sys_inv s" and c: "produces p (que s) q'"
  shows "sys_inv (s\<lparr>que := q', held := insert p (held s)\<rparr>)"
proof -
  have core: "inv_core (que s) (held s \<union> live_at (pc s))" and pcs: "pc_inv s"
    using inv by (simp_all add: sys_inv_def)
  have "inv_core q' (insert p (held s) \<union> live_at (pc s))"
    using core_produces(1) [OF core c] by simp
  moreover have "pc_inv (s\<lparr>que := q', held := insert p (held s)\<rparr>)"
  proof (rule pc_inv_wakes [OF pcs])
    show "wakes (que s) q'" using c by (simp add: produces_def)
    fix r m
    assume r: "pc s = CHave r" "owned (que s) r m"
    then have "r \<notin> held s" using pcs by (simp add: pc_inv_def)
    with r core_produces(2,3) [OF core c] show "owned q' r m \<and> r \<notin> insert p (held s)"
      by (auto simp: live_at_def)
  qed
  ultimately show ?thesis using inv by (simp add: sys_inv_def)
qed

lemma sys_inv_write:
  assumes inv: "sys_inv s" and p: "p \<in> held s" and m: "mNext m = 0"
  shows "sys_inv (s\<lparr>que := put p m (que s)\<rparr>)"
proof -
  let ?q = "que s"
  have core: "inv_core ?q (held s \<union> live_at (pc s))" and pcs: "pc_inv s"
    using inv by (simp_all add: sys_inv_def)
  obtain k where k: "owned ?q p k" using core p by (auto simp: inv_core_def)
  have ok: "queue_ok ?q" using core by (simp add: inv_core_def)
  note put = queue_rel_put [OF queue_ok_rel [OF ok] k [unfolded owned_def] m]
  note l = queue_rel_lists [OF put(1)]
  have lists: "in_lists (put p m ?q) = in_lists ?q" by (simp add: in_lists_def l)
  have own: "owned (put p m ?q) r k'" if "owned ?q r k'" "r \<noteq> p" for r k'
    using that lists by (simp add: owned_iff)
  have pown: "owned (put p m ?q) p m" using put(2) by (simp add: owned_def l)
  have "\<exists>k'. owned (put p m ?q) r k'" if "r \<in> held s \<union> live_at (pc s)" for r
  proof (cases "r = p")
    case True
    with pown show ?thesis by auto
  next
    case False
    with core_owned [OF core that] own show ?thesis by blast
  qed
  moreover have "cells (put p m ?q) a \<noteq> None \<longleftrightarrow> a \<in> in_lists ?q \<union> (held s \<union> live_at (pc s))" for a
    using core p by (auto simp: inv_core_def)
  ultimately have "inv_core (put p m ?q) (held s \<union> live_at (pc s))"
    using put(1) unfolding inv_core_def lists by (auto simp: queue_ok_iff)
  moreover have "pc_inv (s\<lparr>que := put p m ?q, held := held s\<rparr>)"
    using own pcs p by (intro pc_inv_wakes [OF pcs]) (auto simp: pc_inv_def)
  then have "pc_inv (s\<lparr>que := put p m ?q\<rparr>)" by (simp add: pc_inv_def)
  ultimately show ?thesis using inv by (simp add: sys_inv_def)
qed

lemma sys_inv_fields [simp]:
  "sys_inv (s\<lparr>mExit := b\<rparr>) = sys_inv s" "sys_inv (s\<lparr>mPromoteThrLevel := b\<rparr>) = sys_inv s"
  "sys_inv (s\<lparr>clock := d\<rparr>) = sys_inv s"
  by (simp_all add: sys_inv_def pc_inv_def split: cpc.split)

lemma held_id [simp]: "s\<lparr>que := q, held := held s\<rparr> = s\<lparr>que := q\<rparr>"
  by simp

lemma sys_inv_outtime:
  assumes "sys_inv s" shows "sys_inv (s\<lparr>que := setTestOutTimeMillisExit t (que s)\<rparr>)"
proof -
  let ?q = "setTestOutTimeMillisExit t (que s)"
  have ok: "queue_ok (que s)" using assms by (simp add: sys_inv_def inv_core_def)
  have m: "msg_at ?q = msg_at (que s)" by (rule msg_at_cong) (simp add: setTestOutTimeMillisExit_def)
  have "qwhen ?q = qwhen (que s)" using m by (simp add: qwhen_def fun_eq_iff)
  then have "queue_rel ?q (waiting (que s)) (pooled (que s))"
    using queue_ok_rel [OF ok] m unfolding queue_rel_def queue_shape_def
    by (auto simp: setTestOutTimeMillisExit_def wf_mem_def)
  then have "consumes {} (que s) ?q"
    using in_lists_live [OF ok]
    by (auto simp: consumes_def queue_ok_iff in_lists_def frame_def setTestOutTimeMillisExit_def)
  from sys_inv_consumes [OF assms this] show ?thesis by simp
qed

lemma client_op_inv:
  assumes inv: "sys_inv s" and al: "allowed op s"
  shows "\<exists>s'. client_op op s = Inr s' \<and> sys_inv s'"
proof -
  have core: "inv_core (que s) (held s \<union> live_at (pc s))" and ok: "queue_ok (que s)"
    using inv by (simp_all add: sys_inv_def inv_core_def)
  have own: "\<exists>m. owned (que s) p m" if "p \<in> held s" for p using core that by (simp add: inv_core_def)
  show ?thesis
  proof (cases op)
    case OpNew
    with new_Msg_produces [OF ok] sys_inv_produces [OF inv] show ?thesis
      by (auto simp: client_op_def)
  next
    case OpObtain
    with obtain_pool_produces [OF ok] sys_inv_produces [OF inv] inv show ?thesis
      by (auto simp: client_op_def)
  next
    case (OpWrite p m)
    with al inv show ?thesis by (auto simp: client_op_def allowed_def intro: sys_inv_write)
  next
    case (OpEnqueue p t)
    with al own obtain m where "owned (que s) p m" by (auto simp: allowed_def)
    with enqueueMessage_consumes [OF ok this, of t] al OpEnqueue sys_inv_consumes [OF inv] show ?thesis
      by (force simp: client_op_def allowed_def)
  next
    case (OpDrop p)
    with al own obtain m where "owned (que s) p m" by (auto simp: allowed_def)
    with Msg_reset_consumes [OF ok this] al OpDrop sys_inv_consumes [OF inv] show ?thesis
      by (force simp: client_op_def allowed_def)
  next
    case (OpRemove P h)
    with al have "stable (\<lambda>_. P)" by (simp add: allowed_def)
    from remove_loop_consumes [OF ok this, of h] OpRemove sys_inv_consumes [OF inv, of "{}"]
    show ?thesis by (auto simp: client_op_def)
  next
    case (OpRemoveMsg p h)
    with al own obtain m where "owned (que s) p m" by (auto simp: allowed_def)
    with removeMessage_msg_consumes [OF ok this, of h] al OpRemoveMsg sys_inv_consumes [OF inv]
    show ?thesis by (force simp: client_op_def allowed_def)
  next
    case (OpQuitQueue b)
    with quit_consumes [OF ok, of b] sys_inv_consumes [OF inv, of "{}"] inv show ?thesis
      by (auto simp: client_op_def)
  next
    case (OpSetOutTime t)
    with sys_inv_outtime [OF inv, of t] show ?thesis by (simp add: client_op_def)
  qed (use inv in \<open>simp_all add: client_op_def\<close>)
qed

lemma after_scan_inv:
  assumes inv: "sys_inv s" and idle: "live_at (pc s) = {}"
    and r: "r = next_scan (clock s) t (que s) \<or> r = Inr (NReturn 0, que s)"
  shows "\<exists>s'. after_scan r s = Inr s' \<and> sys_inv s'"
proof -
  have core: "inv_core (que s) (held s)" and ok: "queue_ok (que s)"
    and dl: "\<forall>(p, w, now)\<in>set (delivered s). w \<le> now"
    using inv idle by (auto simp: sys_inv_def inv_core_def)
  have same: "sys_inv (s\<lparr>pc := c\<rparr>)" if "c = CExit \<or> (\<exists>t. c = CTop t)" for c
    using that core dl by (auto simp: sys_inv_def pc_inv_def live_at_def)
  consider (taken) x q' m where "r = Inr (NReturn x, q')" "produces x (que s) q'" "owned q' x m"
      "mTarget m \<noteq> 0" "mWhen m \<le> clock s"
    | (null) "r = Inr (NReturn 0, que s)"
    | (again) t' where "r = Inr (NAgain t', que s)"
    | (block) "r = Inr (NAgain (-1), (que s)\<lparr>mBlocked := True\<rparr>)"
        "consumes {} (que s) ((que s)\<lparr>mBlocked := True\<rparr>)"
    using next_scan_produces [OF ok, of "clock s" t] r by blast
  then show ?thesis
  proof cases
    case taken
    have x: "x \<noteq> 0" "cells q' x = Some m" using taken(3) by (simp_all add: owned_iff)
    let ?s = "s\<lparr>que := q', pc := CHave x, delivered := delivered s @ [(x, mWhen m, clock s)]\<rparr>"
    have "inv_core q' (held s \<union> {x})" "x \<notin> held s"
      using core_produces [OF core taken(2)] by simp_all
    then have "sys_inv ?s"
      using taken dl by (auto simp: sys_inv_def pc_inv_def live_at_def)
    with taken(1) x show ?thesis by (simp add: after_scan_def)
  next
    case null
    then show ?thesis using same [of CExit] by (simp add: after_scan_def)
  next
    case (again t')
    then show ?thesis using same [of "CTop t'"] by (simp add: after_scan_def)
  next
    case block
    have "inv_core ((que s)\<lparr>mBlocked := True\<rparr>) (held s)"
      using core_consumes(1) [OF core block(2)] by simp
    then have "sys_inv (s\<lparr>que := (que s)\<lparr>mBlocked := True\<rparr>, pc := CTop (-1)\<rparr>)"
      using dl by (simp add: sys_inv_def pc_inv_def live_at_def)
    with block show ?thesis by (simp add: after_scan_def)
  qed
qed

lemma next_scans_inv:
  assumes "sys_inv s" and "live_at (pc s) = {}"
  shows "\<exists>s'. after_scan (next_scan (clock s) t (que s)) s = Inr s' \<and> sys_inv s'"
    and "\<exists>s'. after_scan (next_timed (clock s) t (que s)) s = Inr s' \<and> sys_inv s'"
  using after_scan_inv [OF assms] by (auto simp: next_timed_def)

lemma sys_inv_move:
  "sys_inv s \<Longrightarrow> live_at (pc s) = {} \<Longrightarrow> live_at c = {} \<Longrightarrow> pc_inv (s\<lparr>pc := c\<rparr>) \<Longrightarrow> sys_inv (s\<lparr>pc := c\<rparr>)"
  by (simp add: sys_inv_def)

lemma next_top_inv:
  assumes inv: "sys_inv s" and CTop: "pc s = CTop t"
  shows "\<exists>s'. consumer_step s = Inr s' \<and> sys_inv s'"
proof -
  have lv: "live_at (pc s) = {}" by (simp add: CTop live_at_def)
  note scan = next_scans_inv [OF inv lv] and move = sys_inv_move [OF inv lv]
  show ?thesis
  proof (cases "next_begin t (que s)")
    case NQuit
    with move [of CExit] CTop show ?thesis by (simp add: consumer_step_def live_at_def pc_inv_def)
  next
    case NWait
    then have "mBlocked (que s)" by (auto simp: next_begin_def Let_def split: if_splits)
    with NWait move [of "CWait (mWait (que s))"] CTop show ?thesis
      by (simp add: consumer_step_def live_at_def pc_inv_def)
  next
    case (NPass t')
    with scan(1) [of t'] CTop show ?thesis by (simp add: consumer_step_def)
  next
    case (NTimed t')
    with scan(2) [of t'] move [of "CTimed t' (mWait (que s))"] CTop show ?thesis
      by (cases "t' = 0") (simp_all add: consumer_step_def live_at_def pc_inv_def)
  qed
qed

lemma dispatch_inv:
  assumes inv: "sys_inv s" and CHave: "pc s = CHave p"
  shows "\<exists>s'. consumer_step s = Inr s' \<and> sys_inv s'"
proof -
  have core: "inv_core (que s) (held s \<union> live_at (pc s))" using inv by (simp add: sys_inv_def)
  obtain m where m: "owned (que s) p m" "mTarget m \<noteq> 0" "p \<notin> held s"
    using inv CHave by (auto simp: sys_inv_def pc_inv_def)
  have "queue_ok (que s)" using core by (simp add: inv_core_def)
  from recycleMsg_consumes [OF this m(1)] obtain q' where
    q': "recycleMsg p (que s) = Inr q'" "consumes {p} (que s) q'" by blast
  have "inv_core q' (held s)"
    using core_consumes(1) [OF core q'(2)] CHave m(3) by (simp add: live_at_def)
  then have "sys_inv (s\<lparr>que := q', pc := CLoop\<rparr>)"
    using inv by (simp add: sys_inv_def live_at_def pc_inv_def)
  moreover have "ld p (que s) = Inr m" using m(1) by (simp add: owned_iff)
  ultimately show ?thesis using CHave m q' by (simp add: consumer_step_def)
qed

lemma consumer_step_inv:
  assumes inv: "sys_inv s"
  shows "\<exists>s'. consumer_step s = Inr s' \<and> sys_inv s'"
proof (cases "pc s")
  case CLoop
  then have "sys_inv (s\<lparr>pc := CExit\<rparr>)" "sys_inv (s\<lparr>mPromoteThrLevel := b, pc := CTop (-1)\<rparr>)" for b
    using inv by (simp_all add: sys_inv_def live_at_def pc_inv_def)
  with CLoop show ?thesis by (simp add: consumer_step_def)
next
  case (CWait e)
  then have lv: "live_at (pc s) = {}" by (simp add: live_at_def)
  from CWait next_scans_inv(1) [OF inv lv, of "-1"] sys_inv_move [OF inv lv, of "CWait (mWait (que s))"]
  show ?thesis by (simp add: consumer_step_def live_at_def pc_inv_def)
next
  case (CTimed t e)
  then have lv: "live_at (pc s) = {}" by (simp add: live_at_def)
  from CTimed next_scans_inv(2) [OF inv lv, of t] show ?thesis by (simp add: consumer_step_def)
next
  case CExit
  with inv show ?thesis by (simp add: consumer_step_def)
qed (use next_top_inv [OF inv] dispatch_inv [OF inv] in blast)+

lemma sys_inv_init: "0 \<le> n \<Longrightarrow> sys_inv (sys_init name n now)"
proof -
  assume "0 \<le> n"
  from queue_rel_MsgQueue_new [OF this, of name] have "queue_rel (MsgQueue_new name n) [] []" .
  then have "queue_ok (MsgQueue_new name n)" "in_lists (MsgQueue_new name n) = {}"
    by (auto simp: queue_ok_iff in_lists_def dest: queue_rel_lists)
  then show ?thesis
    by (simp add: sys_inv_def sys_init_def inv_core_def pc_inv_def live_at_def)
      (simp add: MsgQueue_new_def)
qed

lemma sys_step_inv: "sys_inv s \<Longrightarrow> sys_step s r \<Longrightarrow> \<exists>s'. r = Inr s' \<and> sys_inv s'"
  using consumer_step_inv client_op_inv by blast

interpretation lp: safe_system sys_start sys_step sys_inv
proof (unfold_locales, goal_cases)
  case (1 s)
  then show ?case using sys_inv_init by (auto simp: sys_start_def)
next
  case (2 s r)
  then show ?case by (rule sys_step_inv)
qed

lemma reachable_inv: "reachable s \<Longrightarrow> sys_inv s"
  unfolding reachable_def by (rule lp.reach_inv)

subsection \<open>Safety of the concurrent system\<close>


text \<open>A reachable state in which a client owns one fresh message.\<close>

definition sample_sys :: sys where
  "sample_sys = (sys_init ''q'' 9 0)\<lparr>held := {1}, que := snd (new_Msg (MsgQueue_new ''q'' 9))\<rparr>"

lemma sample_sys_reachable: "reachable sample_sys" "held sample_sys = {1}"
proof -
  have "reachable (sys_init ''q'' 9 0)" by (rule reachable_init) simp
  moreover have "client_op OpNew (sys_init ''q'' 9 0) = Inr sample_sys"
    by (simp add: sample_sys_def client_op_def sys_init_def new_Msg_def MsgQueue_new_def)
  moreover have "allowed OpNew (sys_init ''q'' 9 0)" by (simp add: allowed_def)
  ultimately show "reachable sample_sys" using reachable_step sys_step.client by metis
qed (simp add: sample_sys_def)


text \<open>C25: In every reachable state each live message is in exactly one place: waiting in the queue,
  in its pool, owned by one client, or in the hands of the loop thread. So no message leaks and
  none is freed twice or used after it was freed.\<close>
theorem reachable_ownership:
  assumes "reachable s"
  shows "distinct (waiting (que s) @ pooled (que s)) \<and>
    (\<forall>a. cells (que s) a \<noteq> None \<longleftrightarrow>
      a \<in> set (waiting (que s)) \<union> set (pooled (que s)) \<union> held s \<union> live_at (pc s)) \<and>
    (held s \<union> live_at (pc s)) \<inter> (set (waiting (que s)) \<union> set (pooled (que s))) = {} \<and>
    held s \<inter> live_at (pc s) = {}"
proof -
  have inv: "inv_core (que s) (held s \<union> live_at (pc s))" "pc_inv s"
    using reachable_inv [OF assms] by (simp_all add: sys_inv_def)
  then have "queue_ok (que s)" by (simp add: inv_core_def)
  moreover have "(held s \<union> live_at (pc s)) \<inter> in_lists (que s) = {}"
    using inv(1) by (auto simp: inv_core_def owned_iff)
  moreover have "held s \<inter> live_at (pc s) = {}"
    using inv(2) by (cases "pc s") (auto simp: pc_inv_def live_at_def)
  ultimately show ?thesis
    using inv(1) queue_okD(1) by (auto simp: inv_core_def in_lists_def)
qed

theorem reachable_ownership_witness:
  "1 \<notin> set (waiting (que sample_sys)) \<and> 1 \<notin> set (pooled (que sample_sys))"
  using reachable_ownership [OF sample_sys_reachable(1)] sample_sys_reachable(2) by auto


lemma reachable_consumer: "reachable s \<Longrightarrow> consumer_step s = Inr s' \<Longrightarrow> reachable s'"
  using reachable_step sys_step.consumer by metis

lemma reachable_client: "reachable s \<Longrightarrow> allowed op s \<Longrightarrow> client_op op s = Inr s' \<Longrightarrow> reachable s'"
  using reachable_step sys_step.client by metis



text \<open>Schedules: client operations, and \<open>None\<close> for a step of the loop thread.\<close>

primrec run_sys :: "cop option list \<Rightarrow> sys \<Rightarrow> sys res" where
  "run_sys [] s = Inr s"
| "run_sys (x # xs) s =
     (case x of
        None \<Rightarrow> bnd (consumer_step s) (run_sys xs)
      | Some op \<Rightarrow> if allowed op s then bnd (client_op op s) (run_sys xs) else Inl AssertFail)"

lemma run_sys_reachable: "run_sys xs s = Inr s' \<Longrightarrow> reachable s \<Longrightarrow> reachable s'"
  by (induction xs arbitrary: s)
    (auto simp: bnd_eq_Inr_iff split: option.splits if_splits
      intro: reachable_consumer reachable_client)

definition idle_msg :: Msg where
  "idle_msg = Msg_new\<lparr>mTarget := 77\<rparr>"

lemma idle_msg_simps [simp]: "mTarget idle_msg = 77" "mNext idle_msg = 0" "isInUse idle_msg = False"
  by (simp_all add: idle_msg_def)

lemmas run_simps = client_op_def allowed_def consumer_step_def after_scan_def new_Msg_def
  enqueueMessage_def enqueue_front_def enqueue_back_def enqueue_middle_def set_next_def take_next_def
  upd_def next_begin_def next_scan_def next_timed_def sys_init_def MsgQueue_new_def getQueueSize_def
  Let_def notifyAll_mWait_def put_def ld_def

definition sample_schedule :: "cop option list" where
  "sample_schedule = [Some OpNew, Some (OpWrite 1 idle_msg), Some (OpEnqueue 1 5), Some (OpTick 7),
     None, None]"

lemma sample_schedule_run:
  "\<exists>s. run_sys sample_schedule (sys_init ''q'' 9 0) = Inr s \<and> delivered s = [(1, 5, 7)]"
  by (simp add: sample_schedule_def run_simps)


definition late_schedule :: "cop option list" where
  "late_schedule = [Some OpNew, Some (OpWrite 1 idle_msg), Some (OpEnqueue 1 100), None, None,
     Some OpNew, Some (OpWrite (Suc 1) idle_msg), Some (OpEnqueue (Suc 1) 1), None]"

lemma late_schedule_run:
  "\<exists>s. run_sys late_schedule (sys_init ''q'' 9 0) = Inr s \<and> pc s = CTimed 100 (Suc 1) \<and>
    mWait (que s) = Suc 1 \<and> clock s = 0 \<and> waiting (que s) = [Suc 1, 1] \<and>
    qwhen (que s) (Suc 1) = 1"
  by (simp add: late_schedule_def run_simps waiting_def qwhen_def msg_at_def makeInUse_def)


subsection \<open>A safe quit delivers what is due\<close>

primrec run_consumer :: "nat \<Rightarrow> sys \<Rightarrow> sys res" where
  "run_consumer 0 s = Inr s"
| "run_consumer (Suc n) s = bnd (consumer_step s) (run_consumer n)"

lemma run_consumer_add:
  "run_consumer n s = Inr s' \<Longrightarrow> run_consumer k s' = r \<Longrightarrow> run_consumer (n + k) s = r"
  by (induction n arbitrary: s) (auto simp: bnd_eq_Inr_iff)

lemma run_consumer_Suc:
  "consumer_step s = Inr s' \<Longrightarrow> run_consumer n s' = r \<Longrightarrow> run_consumer (Suc n) s = r"
  by simp

definition closing :: "sys \<Rightarrow> bool" where
  "closing s \<longleftrightarrow> mNotEnqueMsg (que s) \<and> \<not> mQuit (que s) \<and> mOutTimeTest (que s) \<le> 0"

text \<open>The outcome of the drain, as a relation between the state before and after.\<close>

definition drained :: "sys \<Rightarrow> sys \<Rightarrow> bool" where
  "drained s s' \<longleftrightarrow> pc s' = CExit \<and> waiting (que s') = [] \<and>
     delivered s' = delivered s @ map (\<lambda>(w, x). (x, w, clock s)) (pending (que s))"

lemma closing_next_begin: "closing s \<Longrightarrow> next_begin t (que s) = NTimed 0"
  by (simp add: closing_def next_begin_def)

lemma closing_next_timed: "closing s \<Longrightarrow> next_timed now 0 (que s) = next_scan now 0 (que s)"
  by (simp add: closing_def next_timed_def)

lemma closing_scan_empty:
  assumes "sys_inv s" and "closing s" and "pending (que s) = []"
  shows "after_scan (next_scan (clock s) t (que s)) s = Inr (s\<lparr>pc := CExit\<rparr>)"
proof -
  have "queue_ok (que s)" using assms(1) by (simp add: sys_inv_def inv_core_def)
  from next_scan_cases [OF this, of "clock s" t] assms(2,3) show ?thesis
    by (simp add: closing_def after_scan_def)
qed

text \<open>One delivery: from a scan to the top of the loop, in two steps.\<close>

lemma closing_scan_due:
  assumes inv: "sys_inv s" and c: "closing s" and p: "pending (que s) = (w, x) # rest"
    and due: "w \<le> clock s" and idle: "live_at (pc s) = {}"
  shows "\<exists>s1 s2. after_scan (next_scan (clock s) t (que s)) s = Inr s1 \<and>
    consumer_step s1 = Inr s2 \<and> sys_inv s2 \<and> closing s2 \<and> pc s2 = CLoop \<and> clock s2 = clock s \<and>
    pending (que s2) = rest \<and> delivered s2 = delivered s @ [(x, w, clock s)]"
proof -
  have ok: "queue_ok (que s)" using inv by (simp add: sys_inv_def inv_core_def)
  obtain q1 m where q1: "next_scan (clock s) t (que s) = Inr (NReturn x, q1)" "queue_ok q1"
    "pending q1 = rest" "owned q1 x m" "mTarget m \<noteq> 0" "msg_at q1 = msg_at (que s)"
    "ctl q1 = ctl (que s)"
    using next_scan_cases [OF ok, of "clock s" t] p due by auto
  have m: "x \<noteq> 0" "cells q1 x = Some m" using q1(4) by (simp_all add: owned_iff)
  have "qwhen (que s) x = w"
    using p by (cases "waiting (que s)") (auto simp: pending_def)
  then have w: "mWhen m = w" using q1(6) qwhen_cell [OF m(2)] by (simp add: qwhen_def)
  let ?s1 = "s\<lparr>que := q1, pc := CHave x, delivered := delivered s @ [(x, w, clock s)]\<rparr>"
  have s1: "after_scan (next_scan (clock s) t (que s)) s = Inr ?s1"
    using q1(1) m w by (simp add: after_scan_def)
  have inv1: "sys_inv ?s1" using after_scan_inv [OF inv idle, of _ t] s1 by force
  obtain q2 where q2: "recycleMsg x q1 = Inr q2"
    "queue_shape q2 (waiting q1) (if pools q1 then x # pooled q1 else pooled q1)"
    "msg_at q2 = (msg_at q1)(x := if pools q1 then Some (recycled (strip m)) else None)"
    "ctl q2 = ctl q1" "mMsgQueueSize q2 = mMsgQueueSize q1"
    using recycleMsg_ok [OF queue_rel_shape [OF queue_ok_rel [OF q1(2)]] q1(4) [unfolded owned_def]]
    by blast
  let ?s2 = "?s1\<lparr>que := q2, pc := CLoop\<rparr>"
  have s2: "consumer_step ?s1 = Inr ?s2" using m q1(5) q2(1) by (simp add: consumer_step_def)
  have rel2: "queue_rel q2 (waiting q1) (if pools q1 then x # pooled q1 else pooled q1)"
    using q2 queue_ok_rel [OF q1(2)] by (auto simp: queue_rel_def)
  have "x \<notin> set (waiting q1)" using q1(4) by (simp add: owned_iff in_lists_def)
  then have "map (\<lambda>a. (qwhen q2 a, a)) (waiting q1) = map (\<lambda>a. (qwhen q1 a, a)) (waiting q1)"
    using q2(3) by (intro map_cong) (auto intro: qwhen_cong)
  then have "pending q2 = rest"
    using q1(3) unfolding pending_def queue_rel_lists(1) [OF rel2] by (rule trans)
  moreover have "closing ?s2" using c q1(7) q2(4) by (simp add: closing_def)
  moreover have "sys_inv ?s2" using consumer_step_inv [OF inv1] s2 by simp
  ultimately show ?thesis using s1 s2 by (intro exI [of _ ?s1] exI [of _ ?s2]) simp
qed

text \<open>Three steps of the loop thread deliver the first message.\<close>

lemma drain_one:
  assumes inv: "sys_inv s" and cl: "closing s" and at: "pc s = CLoop" and due: "\<forall>x\<in>set (pending (que s)). fst x \<le> clock s"
    and p: "pending (que s) = (w, x) # rest"
  shows "\<exists>s'. run_consumer 3 s = Inr s' \<and> sys_inv s' \<and> closing s' \<and> pc s' = CLoop \<and> clock s' = clock s \<and>
    pending (que s') = rest \<and> delivered s' = delivered s @ [(x, w, clock s)]"
proof -
  have ok: "queue_ok (que s)" using inv by (simp add: sys_inv_def inv_core_def)
  have "getQueueSize (que s) \<noteq> 0"
    using p queue_okD(4) [OF ok] cl
    by (cases "waiting (que s)") (auto simp: getQueueSize_def closing_def pending_def)
  let ?s = "s\<lparr>mPromoteThrLevel := mPromoteThrLevel s \<and> \<not> mExit s, pc := CTop (-1)\<rparr>"
  have s1: "consumer_step s = Inr ?s" using \<open>getQueueSize (que s) \<noteq> 0\<close> at by (simp add: consumer_step_def)
  have inv: "sys_inv ?s" "closing ?s"
    using consumer_step_inv [OF inv] s1 cl by (auto simp: closing_def)
  have "pending (que ?s) = (w, x) # rest" "w \<le> clock ?s" "live_at (pc ?s) = {}"
    using p due by (auto simp: live_at_def)
  from closing_scan_due [OF inv this, of 0] obtain s2 s3 where
    s2: "after_scan (next_scan (clock ?s) 0 (que ?s)) ?s = Inr s2" "consumer_step s2 = Inr s3"
    "sys_inv s3" "closing s3" "pc s3 = CLoop" "clock s3 = clock ?s" "pending (que s3) = rest"
    "delivered s3 = delivered ?s @ [(x, w, clock ?s)]"
    by blast
  have "consumer_step ?s = Inr s2"
    using closing_next_begin [OF inv(2)] closing_next_timed [OF inv(2)] s2(1)
    by (simp add: consumer_step_def)
  then have "run_consumer 3 s = Inr s3" using s1 s2(2) by (simp add: numeral_3_eq_3)
  with s2 show ?thesis by (intro exI [of _ s3]) simp
qed

lemma drain_from_loop:
  assumes "sys_inv s" and "closing s" and "pc s = CLoop" and "\<forall>x\<in>set (pending (que s)). fst x \<le> clock s"
  shows "\<exists>n s'. run_consumer n s = Inr s' \<and> drained s s'"
  using assms
proof (induction "pending (que s)" arbitrary: s)
  case Nil
  then have w: "waiting (que s) = []" by (simp add: pending_def)
  let ?s = "s\<lparr>mPromoteThrLevel := mPromoteThrLevel s \<and> \<not> mExit s, pc := CTop (-1)\<rparr>"
  show ?case
  proof (cases "mExit s \<and> getQueueSize (que s) = 0")
    case True
    then have "run_consumer 1 s = Inr (s\<lparr>pc := CExit\<rparr>)" using Nil by (simp add: consumer_step_def)
    with w Nil show ?thesis
      by (intro exI [of _ 1] exI [of _ "s\<lparr>pc := CExit\<rparr>"]) (simp add: drained_def)
  next
    case False
    then have s1: "consumer_step s = Inr ?s" using Nil by (auto simp: consumer_step_def)
    have inv: "sys_inv ?s" "closing ?s" using consumer_step_inv [OF Nil(2)] s1 Nil(3)
      by (auto simp: closing_def)
    have "consumer_step ?s = after_scan (next_scan (clock ?s) 0 (que ?s)) ?s"
      using closing_next_begin [OF inv(2)] closing_next_timed [OF inv(2)]
      by (simp add: consumer_step_def)
    also have "\<dots> = Inr (?s\<lparr>pc := CExit\<rparr>)" using closing_scan_empty [OF inv] Nil(1) by simp
    finally have "run_consumer 2 s = Inr (?s\<lparr>pc := CExit\<rparr>)"
      using s1 by (simp add: numeral_2_eq_2)
    with w Nil show ?thesis
      by (intro exI [of _ 2] exI [of _ "?s\<lparr>pc := CExit\<rparr>"]) (simp add: drained_def)
  qed
next
  case (Cons y rest)
  obtain w x where y: "y = (w, x)" by (cases y)
  have p: "pending (que s) = (w, x) # rest" using Cons.hyps(2) y by simp
  from drain_one [OF Cons.prems p] obtain s3 where
    s3: "run_consumer 3 s = Inr s3" "sys_inv s3" "closing s3" "pc s3 = CLoop" "clock s3 = clock s"
    "pending (que s3) = rest" "delivered s3 = delivered s @ [(x, w, clock s)]"
    by blast
  have "\<forall>x\<in>set (pending (que s3)). fst x \<le> clock s3" using Cons.prems(4) s3(5,6) p by simp
  from Cons.hyps(1) [OF s3(6) [symmetric] s3(2-4) this] obtain n s' where
    n: "run_consumer n s3 = Inr s'" "drained s3 s'"
    by blast
  have "drained s s'" using n(2) s3(5-7) p by (simp add: drained_def)
  with run_consumer_add [OF s3(1) n(1)] show ?case by blast
qed

text \<open>The same from inside \<open>next\<close>, before a scan, and from the hands of the loop thread.\<close>

lemma drain_from_scan:
  assumes inv: "sys_inv s" and c: "closing s" and idle: "live_at (pc s) = {}"
    and step: "consumer_step s = after_scan (next_scan (clock s) t (que s)) s"
    and due: "\<forall>x\<in>set (pending (que s)). fst x \<le> clock s"
  shows "\<exists>n s'. run_consumer n s = Inr s' \<and> drained s s'"
proof (cases "pending (que s)")
  case Nil
  then have "run_consumer 1 s = Inr (s\<lparr>pc := CExit\<rparr>)"
    using step closing_scan_empty [OF inv c Nil, of t] by simp
  with Nil show ?thesis
    by (intro exI [of _ 1] exI [of _ "s\<lparr>pc := CExit\<rparr>"]) (simp add: drained_def pending_def)
next
  case (Cons y rest)
  obtain w x where y: "y = (w, x)" by (cases y)
  have "w \<le> clock s" using due Cons y by simp
  from closing_scan_due [OF inv c Cons [unfolded y] this idle, of t] obtain s1 s2 where
    s2: "after_scan (next_scan (clock s) t (que s)) s = Inr s1" "consumer_step s1 = Inr s2"
    "sys_inv s2" "closing s2" "pc s2 = CLoop" "clock s2 = clock s" "pending (que s2) = rest"
    "delivered s2 = delivered s @ [(x, w, clock s)]"
    by blast
  have r2: "run_consumer 2 s = Inr s2" using step s2(1,2) by (simp add: numeral_2_eq_2)
  have "\<forall>x\<in>set (pending (que s2)). fst x \<le> clock s2" using due Cons s2(6,7) by simp
  from drain_from_loop [OF s2(3-5) this] obtain n s' where
    n: "run_consumer n s2 = Inr s'" "drained s2 s'" by blast
  have "drained s s'" using n(2) s2(6-8) Cons y by (simp add: drained_def)
  with run_consumer_add [OF r2 n(1)] show ?thesis by blast
qed

lemma drain_from_have:
  assumes inv: "sys_inv s" and c: "closing s" and CHave: "pc s = CHave p"
    and due: "\<forall>x\<in>set (pending (que s)). fst x \<le> clock s"
  shows "\<exists>n s'. run_consumer n s = Inr s' \<and> drained s s'"
proof -
  have ok: "queue_ok (que s)" using inv by (simp add: sys_inv_def inv_core_def)
  obtain m where own: "owned (que s) p m" and tg: "mTarget m \<noteq> 0"
    using inv CHave by (auto simp: sys_inv_def pc_inv_def)
  obtain q' where q': "recycleMsg p (que s) = Inr q'"
    "queue_shape q' (waiting (que s)) (if pools (que s) then p # pooled (que s) else pooled (que s))"
    "msg_at q' = (msg_at (que s))(p := if pools (que s) then Some (recycled (strip m)) else None)"
    "ctl q' = ctl (que s)" "mMsgQueueSize q' = mMsgQueueSize (que s)"
    using recycleMsg_ok [OF queue_rel_shape [OF queue_ok_rel [OF ok]] own [unfolded owned_def]]
    by blast
  let ?s = "s\<lparr>que := q', pc := CLoop\<rparr>"
  have step: "consumer_step s = Inr ?s"
    using own tg q'(1) CHave by (simp add: consumer_step_def owned_iff)
  have rel: "queue_rel q' (waiting (que s))
      (if pools (que s) then p # pooled (que s) else pooled (que s))"
    using q' queue_ok_rel [OF ok] by (auto simp: queue_rel_def)
  have "p \<notin> set (waiting (que s))" using own by (simp add: owned_iff in_lists_def)
  then have pend: "pending q' = pending (que s)"
    using q'(3) unfolding pending_def queue_rel_lists(1) [OF rel]
    by (intro map_cong) (auto intro: qwhen_cong)
  have "sys_inv ?s" using consumer_step_inv [OF inv] step by simp
  moreover have "closing ?s" using c q'(4) by (simp add: closing_def)
  ultimately obtain n s' where n: "run_consumer n ?s = Inr s'" "drained ?s s'"
    using drain_from_loop [of ?s] due pend by auto
  have "drained s s'" using n(2) pend by (simp add: drained_def)
  with run_consumer_Suc [OF step n(1)] show ?thesis by blast
qed

lemma drain_reachable:
  assumes "reachable s" and "mNotEnqueMsg (que s)" and "\<not> mQuit (que s)"
    and "mOutTimeTest (que s) \<le> 0" and "pc s \<noteq> CExit"
    and "\<forall>x\<in>set (pending (que s)). fst x \<le> clock s"
  shows "\<exists>n s'. run_consumer n s = Inr s' \<and> pc s' = CExit \<and> waiting (que s') = [] \<and>
    delivered s' = delivered s @ map (\<lambda>(w, x). (x, w, clock s)) (pending (que s))"
proof -
  have inv: "sys_inv s" by (rule reachable_inv [OF assms(1)])
  have ok: "queue_ok (que s)" using inv by (simp add: sys_inv_def inv_core_def)
  have c: "closing s" using assms(2-4) by (simp add: closing_def)
  have nb: "\<not> mBlocked (que s)"
    using ok assms(2) by (auto simp: queue_ok_def queue_rel_def queue_shape_def)
  have "\<exists>n s'. run_consumer n s = Inr s' \<and> drained s s'"
  proof (cases "pc s")
    case CLoop
    then show ?thesis using drain_from_loop [OF inv c] assms(6) by blast
  next
    case (CTop t)
    then show ?thesis
      using closing_next_begin [OF c, of t] closing_next_timed [OF c]
      by (intro drain_from_scan [OF inv c _ _ assms(6), of 0]) (simp_all add: consumer_step_def live_at_def)
  next
    case (CWait e)
    then show ?thesis using nb by (intro drain_from_scan [OF inv c _ _ assms(6), of "-1"]) (simp_all add: consumer_step_def live_at_def)
  next
    case (CTimed t e)
    then show ?thesis
      using c by (intro drain_from_scan [OF inv c _ _ assms(6), of t]) (simp_all add: consumer_step_def live_at_def next_timed_def closing_def)
  next
    case (CHave p)
    then show ?thesis using drain_from_have [OF inv c] assms(6) by blast
  qed (use assms(5) in simp)
  then show ?thesis by (simp add: drained_def)
qed


definition quit_schedule :: "cop option list" where
  "quit_schedule = [Some OpNew, Some (OpWrite 1 idle_msg), Some (OpEnqueue 1 5), Some (OpTick 7),
     Some (OpQuitQueue True)]"

lemma quit_schedule_run:
  "\<exists>s. run_sys quit_schedule (sys_init ''q'' 9 0) = Inr s \<and> mNotEnqueMsg (que s) \<and>
    \<not> mQuit (que s) \<and> mOutTimeTest (que s) = 0 \<and> pc s = CLoop \<and> clock s = 7 \<and>
    waiting (que s) = [1] \<and> qwhen (que s) 1 = 5 \<and> delivered s = []"
  by (simp add: quit_schedule_def run_simps quit_def waiting_def qwhen_def msg_at_def makeInUse_def)


end
