(* ===== verification/Decimal_Text.thy ===== *)
theory Decimal_Text
  imports Base_Prelude
begin

text \<open>
  Numbers as text: what \<open>printf\<close> and the output streams write for a natural number in decimal, and how
  the digits are read back. Shared by the names of threads and queues, \<open>std::stoi\<close>, and the input and
  output of the sample program.
\<close>

definition digit :: "nat \<Rightarrow> char" where
  "digit n = char_of (48 + n)"

fun decimal :: "nat \<Rightarrow> string" where
  "decimal n = (if n < 10 then [digit n] else decimal (n div 10) @ [digit (n mod 10)])"

declare decimal.simps [simp del]

definition is_digit :: "char \<Rightarrow> bool" where
  "is_digit c \<longleftrightarrow> 48 \<le> (of_char c :: nat) \<and> (of_char c :: nat) \<le> 57"

definition is_space :: "char \<Rightarrow> bool" where
  "is_space c \<longleftrightarrow> (of_char c :: nat) = 32 \<or> 9 \<le> (of_char c :: nat) \<and> (of_char c :: nat) \<le> 13"

definition digits_value :: "string \<Rightarrow> nat" where
  "digits_value cs = foldl (\<lambda>n c. 10 * n + (of_char c - 48)) 0 cs"

lemma length_decimal: "n < 10 ^ k \<Longrightarrow> 0 < k \<Longrightarrow> length (decimal n) \<le> k"
proof (induction n arbitrary: k rule: decimal.induct)
  case (1 n)
  show ?case
  proof (cases "n < 10")
    case True
    with 1(3) show ?thesis by (subst decimal.simps) simp
  next
    case False
    then obtain j where j: "k = Suc j" "0 < j" using 1(2,3) by (cases k; cases "k - 1") auto
    have "n div 10 < 10 ^ j" using 1(2) j by (simp add: less_mult_imp_div_less mult.commute)
    with 1(1) [OF False _ j(2)] False j show ?thesis by (subst decimal.simps) simp
  qed
qed

lemma of_char_digit: "d < 10 \<Longrightarrow> (of_char (digit d) :: nat) = 48 + d"
  by (simp add: digit_def)

lemma digits_value_snoc: "digits_value (cs @ [c]) = 10 * digits_value cs + (of_char c - 48)"
  by (simp add: digits_value_def)

lemma decimal_digits:
  "decimal n \<noteq> [] \<and> (\<forall>c\<in>set (decimal n). is_digit c) \<and> digits_value (decimal n) = n"
proof (induction n rule: decimal.induct)
  case (1 n)
  show ?case
  proof (cases "n < 10")
    case True
    then have "decimal n = [digit n]" by (subst decimal.simps) simp
    then show ?thesis using True by (simp add: is_digit_def digits_value_def of_char_digit)
  next
    case False
    have d: "is_digit (digit (n mod 10))" by (simp add: is_digit_def of_char_digit)
    have "decimal n = decimal (n div 10) @ [digit (n mod 10)]" using False by (subst decimal.simps) simp
    then show ?thesis using 1 [OF False] d by (auto simp: digits_value_snoc of_char_digit)
  qed
qed

lemma is_digit_other: "is_digit c \<Longrightarrow> \<not> is_space c \<and> c \<noteq> CHR ''-'' \<and> c \<noteq> CHR ''+''"
  by (auto simp: is_digit_def is_space_def)

text \<open>Integers: a sign in front of the digits of a negative one.\<close>

definition decimal_int :: "int \<Rightarrow> string" where
  "decimal_int v = (if v < 0 then CHR ''-'' # decimal (nat (- v)) else decimal (nat v))"

text \<open>What is read of a text that does not go on with another digit.\<close>

lemma takeWhile_decimal:
  assumes "rest = [] \<or> \<not> is_digit (hd rest)"
  shows "takeWhile is_digit (decimal n @ rest) = decimal n" "dropWhile is_digit (decimal n @ rest) = rest"
proof -
  have d: "\<forall>c\<in>set (decimal n). is_digit c" using decimal_digits by blast
  have "takeWhile is_digit rest = []" "dropWhile is_digit rest = rest" using assms by (cases rest; auto)+
  then show "takeWhile is_digit (decimal n @ rest) = decimal n" "dropWhile is_digit (decimal n @ rest) = rest"
    using d by (simp_all add: takeWhile_append2 dropWhile_append2)
qed

lemma decimal_Cons: "\<exists>c cs. decimal n = c # cs \<and> is_digit c"
  using decimal_digits [of n] by (cases "decimal n") auto

end
