(* ===== verification/Looper_Thread.thy ===== *)
theory Looper_Thread
  imports Msg_Looper Decimal_Text
begin

text \<open>
  The looper objects of a process (\<open>prepare\<close>, \<open>myLooper\<close>, \<open>quit\<close> of
  \<open>src/looper/MessageLooper.cpp\<close>) and the thread that runs one (\<open>src/looper/LooperThread.cpp\<close>, the
  POSIX branch). The thread-local slot \<open>mThreadLocal\<close> is a map from thread ids; the looper's queue
  is the queue of \<open>Msg_Queue\<close>. A \<open>LooperThread\<close> is a small system of two threads, the owner of
  the object and the worker; \<open>lt_step\<close> interleaves them at the accesses to the shared fields.
\<close>

subsection \<open>Loopers of a process\<close>

record MsgLooper =
  lpQueue :: mqueue
  mThreadId :: "64 word"
  lpExit :: bool
  lpPromote :: bool

record process =
  mThreadLocal :: "64 word \<Rightarrow> ptr"
  loopers :: "ptr \<Rightarrow> MsgLooper option"
  lbrk :: ptr

text \<open>
  The id of the calling thread, from what the call of the system returns: a \<open>DWORD\<close> on Windows, a \<open>long\<close> on
  Linux and Android, a number of 64 bits on Apple.
\<close>

datatype thread_call = GetCurrentThreadId "32 word" | SYS_gettid "64 word" | pthread_threadid_np "64 word"

definition getCurrentThreadId :: "thread_call \<Rightarrow> 64 word" where
  "getCurrentThreadId c =
     (case c of GetCurrentThreadId d \<Rightarrow> ucast d | SYS_gettid l \<Rightarrow> l | pthread_threadid_np t \<Rightarrow> t)"

text \<open>Different threads of a system get different slots.\<close>

lemma getCurrentThreadId_inj:
  "getCurrentThreadId (GetCurrentThreadId d) = getCurrentThreadId (GetCurrentThreadId e) \<longleftrightarrow> d = e"
proof -
  have "ucast (ucast x :: 64 word) = x" for x :: "32 word" by (simp add: ucast_up_ucast_id is_up)
  then show ?thesis unfolding getCurrentThreadId_def thread_call.case by metis
qed

text \<open>\<open>SNPRINTF(name, 64, "%s%llu%s", "Thread_", tid, "_MsgQueue")\<close>: at most 63 characters.\<close>

definition queue_name :: "64 word \<Rightarrow> string" where
  "queue_name tid = take 63 (''Thread_'' @ decimal (unat tid) @ ''_MsgQueue'')"

definition MsgLooper_new :: "string \<Rightarrow> int \<Rightarrow> 64 word \<Rightarrow> MsgLooper" where
  "MsgLooper_new msgQueueName msgQueuePoolMaxSize tid =
     \<lparr>lpQueue = MsgQueue_new msgQueueName msgQueuePoolMaxSize, mThreadId = tid, lpExit = False,
      lpPromote = False\<rparr>"

definition prepare :: "int \<Rightarrow> 64 word \<Rightarrow> process \<Rightarrow> ptr \<times> process" where
  "prepare msgQueuePoolMaxSize tid P =
     (if mThreadLocal P tid = 0 then
        (lbrk P, P\<lparr>loopers := (loopers P)(lbrk P := Some (MsgLooper_new (queue_name tid)
           msgQueuePoolMaxSize tid)), mThreadLocal := (mThreadLocal P)(tid := lbrk P),
           lbrk := Suc (lbrk P)\<rparr>)
      else (mThreadLocal P tid, P))"

definition myLooper :: "64 word \<Rightarrow> process \<Rightarrow> ptr" where
  "myLooper tid P = mThreadLocal P tid"

definition ldl :: "ptr \<Rightarrow> process \<Rightarrow> MsgLooper res" where
  "ldl p P =
     (if p = 0 then Inl NullDeref
      else case loopers P p of None \<Rightarrow> Inl Dangling | Some L \<Rightarrow> Inr L)"

definition getMsgQueue :: "ptr \<Rightarrow> process \<Rightarrow> mqueue res" where
  "getMsgQueue p P = bnd (ldl p P) (\<lambda>L. Inr (lpQueue L))"

definition hadExit :: "ptr \<Rightarrow> process \<Rightarrow> bool res" where
  "hadExit p P = bnd (ldl p P) (\<lambda>L. Inr (lpExit L))"

definition getThredId :: "ptr \<Rightarrow> process \<Rightarrow> 64 word res" where
  "getThredId p P = bnd (ldl p P) (\<lambda>L. Inr (mThreadId L))"

definition MsgLooper_quit :: "bool \<Rightarrow> MsgLooper \<Rightarrow> MsgLooper res" where
  "MsgLooper_quit safely L =
     (if lpExit L then Inr L
      else
        bnd (quit safely (lpQueue L)) (\<lambda>q.
          Inr (L\<lparr>lpQueue := q, lpPromote := safely \<or> lpPromote L, lpExit := True\<rparr>)))"

definition looper_quit :: "bool \<Rightarrow> ptr \<Rightarrow> process \<Rightarrow> process res" where
  "looper_quit safely p P =
     bnd (ldl p P) (\<lambda>L. bnd (MsgLooper_quit safely L) (\<lambda>L.
       Inr (P\<lparr>loopers := (loopers P)(p := Some L)\<rparr>)))"

definition setTestWaitTime :: "int \<Rightarrow> ptr \<Rightarrow> process \<Rightarrow> process res" where
  "setTestWaitTime outTimeMillisExit p P =
     bnd (ldl p P) (\<lambda>L. Inr (P\<lparr>loopers := (loopers P)
       (p := Some (L\<lparr>lpQueue := setTestOutTimeMillisExit outTimeMillisExit (lpQueue L)\<rparr>))\<rparr>))"

subsection \<open>Properties of the loopers\<close>

definition process_ok :: "process \<Rightarrow> bool" where
  "process_ok P \<longleftrightarrow>
     0 < lbrk P \<and> (\<forall>p. loopers P p \<noteq> None \<longrightarrow> 0 < p \<and> p < lbrk P) \<and>
     (\<forall>t. mThreadLocal P t \<noteq> 0 \<longrightarrow>
        (\<exists>L. loopers P (mThreadLocal P t) = Some L \<and> mThreadId L = t \<and> queue_ok (lpQueue L)))"

lemma queue_name_whole: "queue_name tid = ''Thread_'' @ decimal (unat tid) @ ''_MsgQueue''"
proof -
  have "unat tid < 10 ^ 20" using unsigned_less [where 'a = nat, of tid] by simp
  then have "length (decimal (unat tid)) \<le> 20" by (rule length_decimal) simp
  then show ?thesis by (simp add: queue_name_def)
qed

text \<open>The loopers of two threads are different objects, and a new one differs from all of them.\<close>

lemma process_ok_inj:
  assumes "process_ok P" and "mThreadLocal P t \<noteq> 0" and "mThreadLocal P u = mThreadLocal P t"
  shows "t = u"
  using assms unfolding process_ok_def by (metis option.inject)

lemma process_ok_fresh: "process_ok P \<Longrightarrow> loopers P (lbrk P) = None \<and> 0 < lbrk P \<and> mThreadLocal P t \<noteq> lbrk P"
  unfolding process_ok_def by (metis less_irrefl option.distinct(1))

text \<open>Prepare gives every thread one looper: it is created on the first call, with an empty
  queue named after the thread (never truncated), and returned unchanged by every later call on
  the thread; different threads get different loopers.\<close>
theorem prepare_per_thread:
  assumes "process_ok P" and "0 \<le> n" and "prepare n tid P = (p, P')"
  shows "process_ok P' \<and> p \<noteq> 0 \<and> myLooper tid P' = p \<and> prepare k tid P' = (p, P') \<and>
    (\<forall>t. t \<noteq> tid \<longrightarrow> myLooper t P' = myLooper t P \<and> myLooper t P' \<noteq> p) \<and>
    (myLooper tid P = 0 \<longrightarrow> (\<exists>L. loopers P' p = Some L \<and> waiting (lpQueue L) = [] \<and>
       mThreadId L = tid \<and>
       getQueueName (lpQueue L) = ''Thread_'' @ decimal (unat tid) @ ''_MsgQueue''))"
proof (cases "mThreadLocal P tid = 0")
  case True
  have new: "queue_ok (MsgQueue_new m n)" "waiting (MsgQueue_new m n) = []" for m
    using queue_rel_MsgQueue_new [OF assms(2), of m] by (simp_all add: queue_ok_iff)
  have P': "p = lbrk P" "P' = P\<lparr>loopers := (loopers P)(lbrk P := Some (MsgLooper_new
      (queue_name tid) n tid)), mThreadLocal := (mThreadLocal P)(tid := lbrk P), lbrk := Suc (lbrk P)\<rparr>"
    using assms(3) True by (auto simp: prepare_def)
  note fresh = process_ok_fresh [OF assms(1)]
  have "process_ok P'"
    using assms(1) fresh new by (auto simp: P' process_ok_def MsgLooper_new_def less_Suc_eq)
  moreover have "myLooper t P' = myLooper t P \<and> myLooper t P' \<noteq> p" if "t \<noteq> tid" for t
    using fresh [of t] that by (auto simp: P' myLooper_def)
  ultimately show ?thesis
    using fresh new
    by (simp add: P' myLooper_def prepare_def MsgLooper_new_def queue_name_whole getQueueName_def)
      (simp add: MsgQueue_new_def)
next
  case False
  then have P': "p = mThreadLocal P tid" "P' = P" using assms(3) by (auto simp: prepare_def)
  have "myLooper t P \<noteq> p" if "t \<noteq> tid" for t
    using process_ok_inj [OF assms(1) False, of t] that by (auto simp: P' myLooper_def)
  then show ?thesis using False assms(1) by (simp add: P' myLooper_def prepare_def)
qed

definition empty_process :: process where
  "empty_process = \<lparr>mThreadLocal = (\<lambda>_. 0), loopers = (\<lambda>_. None), lbrk = 1\<rparr>"

theorem prepare_per_thread_witness:
  "myLooper 42 (snd (prepare 50 42 empty_process)) = 1 \<and>
    prepare 7 42 (snd (prepare 50 42 empty_process)) = (1, snd (prepare 50 42 empty_process))"
proof -
  have "process_ok empty_process" by (simp add: process_ok_def empty_process_def)
  moreover have "prepare 50 42 empty_process = (1, snd (prepare 50 42 empty_process))"
    by (simp add: prepare_def empty_process_def)
  ultimately show ?thesis using prepare_per_thread [of empty_process 50 42 1] by simp
qed

subsection \<open>The looper thread\<close>

record LooperThread =
  mLooperInCurrThread :: bool
  mLooperThr :: bool
  mThreadName :: string
  mIsRunning :: bool
  ltLooper :: ptr
  mMsgPoolSize :: int
  mLooperExited :: bool

text \<open>
  Where the two threads are. The worker runs \<open>looper()\<close>; the owner is between calls, inside
  \<open>getLooper\<close> waiting for the worker, or inside the destructor waiting to join.
\<close>

datatype wpc = WNone | WEntry | WPrepared | WLooping | WDone
datatype opc = OIdle | OSpin | OJoin | ODead

record lts =
  proc :: process
  lt :: LooperThread
  worker :: wpc
  owner :: opc
  wtid :: "64 word"

definition LooperThread_new ::
  "string \<Rightarrow> int \<Rightarrow> bool \<Rightarrow> 64 word \<Rightarrow> 64 word \<Rightarrow> process \<Rightarrow> lts" where
  "LooperThread_new name msgPoolSize looperInCurrThread otid wt P =
     (let (p, P) = (if looperInCurrThread then prepare msgPoolSize otid P else (0, P)) in
      \<lparr>proc = P,
       lt = \<lparr>mLooperInCurrThread = looperInCurrThread, mLooperThr = False, mThreadName = name,
             mIsRunning = False, ltLooper = p, mMsgPoolSize = msgPoolSize, mLooperExited = False\<rparr>,
       worker = WNone, owner = OIdle, wtid = wt\<rparr>)"

definition start :: "lts \<Rightarrow> lts" where
  "start s =
     (if \<not> mLooperInCurrThread (lt s) \<and> \<not> mLooperThr (lt s)
      then s\<lparr>lt := (lt s)\<lparr>mLooperThr := True\<rparr>, worker := WEntry\<rparr> else s)"

definition isRunning :: "lts \<Rightarrow> bool" where
  "isRunning s \<longleftrightarrow>
     (if \<not> mLooperInCurrThread (lt s) then mIsRunning (lt s) \<and> ltLooper (lt s) \<noteq> 0 else True)"

text \<open>\<open>getLooper\<close>: the call starts the worker, then spins until it runs.\<close>

definition getLooper_begin :: "lts \<Rightarrow> lts" where
  "getLooper_begin s =
     (if \<not> mLooperInCurrThread (lt s) then (start s)\<lparr>owner := OSpin\<rparr> else s)"

definition getLooper_spin :: "lts \<Rightarrow> lts" where
  "getLooper_spin s = (if isRunning s then s\<lparr>owner := OIdle\<rparr> else s)"

definition LooperThread_quit :: "bool \<Rightarrow> lts \<Rightarrow> (bool \<times> lts) res" where
  "LooperThread_quit safely s =
     (if mLooperExited (lt s) then Inr (True, s)
      else if ltLooper (lt s) \<noteq> 0 then
        bnd (looper_quit safely (ltLooper (lt s)) (proc s)) (\<lambda>P.
          Inr (True, s\<lparr>proc := P, lt := (lt s)\<lparr>mLooperExited := True\<rparr>\<rparr>))
      else Inr (False, s))"

definition LooperThread_delete :: "lts \<Rightarrow> lts res" where
  "LooperThread_delete s =
     (let s = s\<lparr>lt := (lt s)\<lparr>mLooperExited := True\<rparr>\<rparr> in
      if \<not> mLooperInCurrThread (lt s) then
        if mLooperThr (lt s) then
          bnd (looper_quit False (ltLooper (lt s)) (proc s)) (\<lambda>P.
            Inr (s\<lparr>proc := P, owner := OJoin\<rparr>))
        else Inr (s\<lparr>owner := ODead\<rparr>)
      else
        bnd (looper_quit False (ltLooper (lt s)) (proc s)) (\<lambda>P.
          Inr (s\<lparr>proc := P, owner := ODead\<rparr>)))"

definition join :: "lts \<Rightarrow> lts" where
  "join s =
     (if worker s = WDone then s\<lparr>lt := (lt s)\<lparr>mLooperThr := False\<rparr>, owner := ODead\<rparr> else s)"

text \<open>The worker: \<open>looper()\<close> of the object, up to the return of \<open>loop\<close> once the looper was told to quit.\<close>

definition worker_step :: "lts \<Rightarrow> lts res" where
  "worker_step s =
     (case worker s of
        WEntry \<Rightarrow>
          if ltLooper (lt s) = 0 then
            (let (p, P) = prepare (mMsgPoolSize (lt s)) (wtid s) (proc s) in
             Inr (s\<lparr>proc := P, lt := (lt s)\<lparr>ltLooper := p\<rparr>, worker := WPrepared\<rparr>))
          else Inr (s\<lparr>worker := WLooping\<rparr>)
      | WPrepared \<Rightarrow> Inr (s\<lparr>lt := (lt s)\<lparr>mIsRunning := True\<rparr>, worker := WLooping\<rparr>)
      | WLooping \<Rightarrow>
          bnd (hadExit (ltLooper (lt s)) (proc s)) (\<lambda>b.
            Inr (if b then s\<lparr>worker := WDone\<rparr> else s))
      | _ \<Rightarrow> Inr s)"

inductive lt_step :: "lts \<Rightarrow> lts res \<Rightarrow> bool" where
  worker: "lt_step s (worker_step s)"
| getLooper: "owner s = OIdle \<Longrightarrow> lt_step s (Inr (getLooper_begin s))"
| spin: "owner s = OSpin \<Longrightarrow> lt_step s (Inr (getLooper_spin s))"
| quit: "owner s = OIdle \<Longrightarrow> lt_step s (bnd (LooperThread_quit safely s) (\<lambda>(_, s). Inr s))"
| delete: "owner s = OIdle \<Longrightarrow> lt_step s (LooperThread_delete s)"
| join: "owner s = OJoin \<Longrightarrow> lt_step s (Inr (join s))"

definition lt_start :: "lts \<Rightarrow> bool" where
  "lt_start s \<longleftrightarrow> (\<exists>name n b otid wt P. process_ok P \<and> 0 \<le> n \<and>
     (\<forall>p L. loopers P p = Some L \<longrightarrow> queue_ok (lpQueue L)) \<and>
     s = LooperThread_new name n b otid wt P)"

inductive_cases lt_stepE [elim]: "lt_step s r"

subsection \<open>The thread never uses a looper it does not have\<close>

definition loopers_ok :: "process \<Rightarrow> bool" where
  "loopers_ok P \<longleftrightarrow> process_ok P \<and> (\<forall>p L. loopers P p = Some L \<longrightarrow> queue_ok (lpQueue L))"

definition lt_inv :: "lts \<Rightarrow> bool" where
  "lt_inv s \<longleftrightarrow>
     loopers_ok (proc s) \<and> 0 \<le> mMsgPoolSize (lt s) \<and>
     (ltLooper (lt s) \<noteq> 0 \<longrightarrow> loopers (proc s) (ltLooper (lt s)) \<noteq> None) \<and>
     (mIsRunning (lt s) \<longrightarrow> ltLooper (lt s) \<noteq> 0) \<and>
     (mLooperInCurrThread (lt s) \<longrightarrow> ltLooper (lt s) \<noteq> 0 \<and> \<not> mLooperThr (lt s) \<and> worker s = WNone) \<and>
     (worker s = WNone \<longrightarrow> \<not> mLooperThr (lt s)) \<and>
     (worker s = WPrepared \<longrightarrow> ltLooper (lt s) \<noteq> 0) \<and>
     (worker s \<in> {WLooping, WDone} \<longrightarrow> mIsRunning (lt s)) \<and>
     (worker s = WEntry \<longrightarrow> ltLooper (lt s) = 0) \<and>
     (owner s = OIdle \<and> mLooperThr (lt s) \<longrightarrow> mIsRunning (lt s)) \<and>
     (owner s \<noteq> ODead \<and> \<not> mLooperThr (lt s) \<longrightarrow> worker s = WNone) \<and>
     (\<not> mLooperInCurrThread (lt s) \<and> worker s = WNone \<longrightarrow> ltLooper (lt s) = 0)"

lemma process_ok_tls:
  "process_ok P \<Longrightarrow> mThreadLocal P t \<noteq> 0 \<Longrightarrow>
    \<exists>L. loopers P (mThreadLocal P t) = Some L \<and> mThreadId L = t \<and> queue_ok (lpQueue L)"
  by (simp add: process_ok_def)

lemma looper_quit_ok:
  assumes "loopers_ok P" and "loopers P p = Some L" and "p \<noteq> 0"
  shows "\<exists>P'. looper_quit b p P = Inr P' \<and> loopers_ok P' \<and>
    (\<forall>r. loopers P' r \<noteq> None \<longleftrightarrow> loopers P r \<noteq> None)"
proof -
  have ok: "queue_ok (lpQueue L)" using assms(1,2) by (simp add: loopers_ok_def)
  obtain q' where q': "quit b (lpQueue L) = Inr q'" "consumes {} (lpQueue L) q'"
    using quit_consumes [OF ok] by blast
  obtain L' where L': "MsgLooper_quit b L = Inr L'" "queue_ok (lpQueue L')" "mThreadId L' = mThreadId L"
    using ok q' by (cases "lpExit L") (auto simp: MsgLooper_quit_def consumes_def)
  let ?P = "P\<lparr>loopers := (loopers P)(p := Some L')\<rparr>"
  have pok: "process_ok P" using assms(1) by (simp add: loopers_ok_def)
  have "\<exists>K. loopers ?P (mThreadLocal ?P t) = Some K \<and> mThreadId K = t \<and> queue_ok (lpQueue K)"
    if "mThreadLocal ?P t \<noteq> 0" for t
    using process_ok_tls [OF pok, of t] that assms(2) L' by auto
  then have "process_ok ?P" using pok assms(2) unfolding process_ok_def by auto
  then have "loopers_ok ?P" using assms(1) L' by (auto simp: loopers_ok_def)
  moreover have "looper_quit b p P = Inr ?P"
    using assms(2,3) L' by (simp add: looper_quit_def ldl_def)
  ultimately show ?thesis using assms(2) by auto
qed

lemma prepare_ok:
  assumes "loopers_ok P" and "0 \<le> n"
  shows "\<exists>p P'. prepare n tid P = (p, P') \<and> p \<noteq> 0 \<and> loopers_ok P' \<and> loopers P' p \<noteq> None \<and>
    (\<forall>r. loopers P r \<noteq> None \<longrightarrow> loopers P' r = loopers P r)"
proof (cases "mThreadLocal P tid = 0")
  case False
  then show ?thesis using assms process_ok_tls [of P tid] by (auto simp: prepare_def loopers_ok_def)
next
  case True
  have new: "queue_ok (MsgQueue_new m n)" for m
    using queue_rel_MsgQueue_new [OF assms(2), of m] by (simp add: queue_ok_iff)
  have fresh: "loopers P (lbrk P) = None" "0 < lbrk P"
    using assms(1) by (auto simp: process_ok_def loopers_ok_def)
  let ?L = "MsgLooper_new (queue_name tid) n tid"
  let ?P = "P\<lparr>loopers := (loopers P)(lbrk P := Some ?L),
    mThreadLocal := (mThreadLocal P)(tid := lbrk P), lbrk := Suc (lbrk P)\<rparr>"
  have "process_ok ?P"
    using assms(1) fresh new unfolding loopers_ok_def process_ok_def
    by (auto simp: MsgLooper_new_def less_Suc_eq) (metis option.distinct(1))+
  then have "loopers_ok ?P"
    using assms(1) new by (auto simp: loopers_ok_def MsgLooper_new_def)
  with True fresh show ?thesis by (auto simp: prepare_def)
qed

lemma lt_inv_init: "lt_start s \<Longrightarrow> lt_inv s"
proof -
  assume "lt_start s"
  then obtain name n b ot wt P where P: "loopers_ok P" "0 \<le> n"
    and s: "s = LooperThread_new name n b ot wt P"
    by (auto simp: lt_start_def loopers_ok_def)
  obtain p P' where p: "prepare n ot P = (p, P')" "p \<noteq> 0" "loopers_ok P'" "loopers P' p \<noteq> None"
    using prepare_ok [OF P, of ot] by auto
  show ?thesis using P p by (cases b) (auto simp: s LooperThread_new_def lt_inv_def)
qed

lemma worker_step_inv:
  assumes inv: "lt_inv s" shows "\<exists>s'. worker_step s = Inr s' \<and> lt_inv s'"
proof (cases "worker s")
  case WEntry
  then have "ltLooper (lt s) = 0" and ok: "loopers_ok (proc s)" "0 \<le> mMsgPoolSize (lt s)"
    using inv by (auto simp: lt_inv_def)
  then obtain p P' where p: "prepare (mMsgPoolSize (lt s)) (wtid s) (proc s) = (p, P')" "p \<noteq> 0"
    "loopers_ok P'" "loopers P' p \<noteq> None"
    using prepare_ok [OF ok, of "wtid s"] by auto
  then show ?thesis
    using inv WEntry \<open>ltLooper (lt s) = 0\<close> by (auto simp: worker_step_def lt_inv_def)
next
  case WPrepared
  then show ?thesis using inv by (auto simp: worker_step_def lt_inv_def)
next
  case WLooping
  then obtain L where L: "ltLooper (lt s) \<noteq> 0" "loopers (proc s) (ltLooper (lt s)) = Some L"
    using inv by (auto simp: lt_inv_def)
  then show ?thesis
    using inv WLooping by (auto simp: worker_step_def hadExit_def ldl_def lt_inv_def)
qed (use inv in \<open>auto simp: worker_step_def\<close>)

lemma LooperThread_quit_inv:
  assumes inv: "lt_inv s" shows "\<exists>b s'. LooperThread_quit f s = Inr (b, s') \<and> lt_inv s'"
proof (cases "mLooperExited (lt s) \<or> ltLooper (lt s) = 0")
  case True
  then show ?thesis using inv by (auto simp: LooperThread_quit_def)
next
  case False
  then obtain L where "loopers (proc s) (ltLooper (lt s)) = Some L" and ok: "loopers_ok (proc s)"
    using inv by (auto simp: lt_inv_def)
  with False looper_quit_ok [OF ok, of _ L f] obtain P' where
    "looper_quit f (ltLooper (lt s)) (proc s) = Inr P'" "loopers_ok P'"
    "\<forall>r. loopers P' r \<noteq> None \<longleftrightarrow> loopers (proc s) r \<noteq> None"
    by blast
  with False inv show ?thesis by (auto simp: LooperThread_quit_def lt_inv_def)
qed

lemma LooperThread_delete_inv:
  assumes inv: "lt_inv s" and idle: "owner s = OIdle"
  shows "\<exists>s'. LooperThread_delete s = Inr s' \<and> lt_inv s'"
proof (cases "mLooperInCurrThread (lt s) \<or> mLooperThr (lt s)")
  case False
  then show ?thesis using inv idle by (auto simp: LooperThread_delete_def lt_inv_def)
next
  case True
  then have nz: "ltLooper (lt s) \<noteq> 0" using inv idle by (auto simp: lt_inv_def)
  then obtain L where "loopers (proc s) (ltLooper (lt s)) = Some L" and ok: "loopers_ok (proc s)"
    using inv by (auto simp: lt_inv_def)
  with nz looper_quit_ok [OF ok, of _ L False] obtain P' where
    "looper_quit False (ltLooper (lt s)) (proc s) = Inr P'" "loopers_ok P'"
    "\<forall>r. loopers P' r \<noteq> None \<longleftrightarrow> loopers (proc s) r \<noteq> None"
    by blast
  with True nz inv idle show ?thesis by (auto simp: LooperThread_delete_def lt_inv_def)
qed

lemma lt_step_inv: "lt_inv s \<Longrightarrow> lt_step s r \<Longrightarrow> \<exists>s'. r = Inr s' \<and> lt_inv s'"
proof (erule lt_stepE)
  assume inv: "lt_inv s"
  show "\<exists>s'. r = Inr s' \<and> lt_inv s'" if "r = worker_step s" using worker_step_inv [OF inv] that by simp
  show "\<exists>s'. r = Inr s' \<and> lt_inv s'" if "r = Inr (getLooper_begin s)" "owner s = OIdle"
    using inv that by (auto simp: getLooper_begin_def start_def lt_inv_def)
  show "\<exists>s'. r = Inr s' \<and> lt_inv s'" if "r = Inr (getLooper_spin s)" "owner s = OSpin"
    using inv that by (auto simp: getLooper_spin_def isRunning_def lt_inv_def)
  show "\<exists>s'. r = Inr s' \<and> lt_inv s'" if "r = bnd (LooperThread_quit safely s) (\<lambda>(_, s). Inr s)"
    for safely using LooperThread_quit_inv [OF inv, of safely] that by auto
  show "\<exists>s'. r = Inr s' \<and> lt_inv s'" if "r = LooperThread_delete s" "owner s = OIdle"
    using LooperThread_delete_inv [OF inv] that by simp
  show "\<exists>s'. r = Inr s' \<and> lt_inv s'" if "r = Inr (join s)" "owner s = OJoin"
    using inv that by (auto simp: join_def lt_inv_def)
qed

interpretation ltp: safe_system lt_start lt_step lt_inv
  by unfold_locales (fact lt_inv_init lt_step_inv)+

text \<open>C29: However the owner and the worker thread of a LooperThread interleave, no call of its public
  operations, the destructor included, uses a null looper; and when getLooper has returned, the
  looper exists.\<close>
theorem LooperThread_safe:
  assumes "reach lt_start lt_step s" and "lt_step s r"
  shows "\<exists>s'. r = Inr s' \<and>
    (owner s = OSpin \<and> r = Inr (getLooper_spin s) \<and> owner s' = OIdle \<longrightarrow>
      ltLooper (lt s') \<noteq> 0 \<and> loopers (proc s') (ltLooper (lt s')) \<noteq> None)"
proof -
  from ltp.reach_no_fault [OF assms] obtain s' where s': "r = Inr s'" "reach lt_start lt_step s'"
    by blast
  have inv: "lt_inv s'" by (rule ltp.reach_inv [OF s'(2)])
  have "ltLooper (lt s') \<noteq> 0 \<and> loopers (proc s') (ltLooper (lt s')) \<noteq> None"
    if "owner s = OSpin" "r = Inr (getLooper_spin s)" "owner s' = OIdle"
  proof -
    from that s'(1) have "isRunning s" "s' = s\<lparr>owner := OIdle\<rparr>"
      by (auto simp: getLooper_spin_def split: if_splits)
    then show ?thesis using inv by (cases "mLooperInCurrThread (lt s)")
        (auto simp: isRunning_def lt_inv_def)
  qed
  with s' show ?thesis by blast
qed

definition sample_lts :: lts where
  "sample_lts = LooperThread_new ''worker'' 50 False 1 2 empty_process"

theorem LooperThread_safe_witness:
  "\<exists>s'. lt_step sample_lts (Inr (getLooper_begin sample_lts)) \<and> Inr (getLooper_begin sample_lts) = Inr s'"
proof -
  have "lt_start sample_lts"
    unfolding lt_start_def sample_lts_def
    by (intro exI [of _ "''worker''"] exI [of _ 50] exI [of _ False] exI [of _ 1] exI [of _ 2]
        exI [of _ empty_process]) (simp add: process_ok_def empty_process_def)
  then have r: "reach lt_start lt_step sample_lts" by (rule reach_init)
  have "owner sample_lts = OIdle" by (simp add: sample_lts_def LooperThread_new_def)
  then have st: "lt_step sample_lts (Inr (getLooper_begin sample_lts))" by (rule lt_step.getLooper)
  from LooperThread_safe [OF r st] st show ?thesis by blast
qed

end
