(* ===== verification/Fifo_Queue.thy ===== *)
theory Fifo_Queue
  imports Base_Prelude
begin

text \<open>
  The interface of a bounded first-in first-out buffer, as the clients of \<open>CircularQueue\<close>,
  \<open>RingQueue\<close> and \<open>LockFreeQueue\<close> use it: a push that says whether it took the element and a pop
  that says whether there was one. From the laws alone, whatever a sequence of calls does, what
  comes out is what went in, in order, each element once.
\<close>

datatype 'a fifo_op = Push 'a | Pop

primrec run_fifo ::
  "('a \<Rightarrow> 'q \<Rightarrow> bool \<times> 'q) \<Rightarrow> ('q \<Rightarrow> 'a option \<times> 'q) \<Rightarrow> 'a fifo_op list \<Rightarrow> 'q
    \<Rightarrow> 'a list \<times> 'a list \<times> 'q" where
  "run_fifo push pop [] q = ([], [], q)"
| "run_fifo push pop (c # cs) q =
     (case c of
        Push x \<Rightarrow>
          (let (b, q) = push x q; (i, out, q) = run_fifo push pop cs q
           in (if b then x # i else i, out, q))
      | Pop \<Rightarrow>
          (let (r, q) = pop q; (i, out, q) = run_fifo push pop cs q
           in (i, case r of None \<Rightarrow> out | Some x \<Rightarrow> x # out, q)))"

locale fifo_queue =
  fixes inv :: "'q \<Rightarrow> bool"
    and items :: "'q \<Rightarrow> 'a list"
    and push :: "'a \<Rightarrow> 'q \<Rightarrow> bool \<times> 'q"
    and pop :: "'q \<Rightarrow> 'a option \<times> 'q"
  assumes push_law: "inv q \<Longrightarrow>
      \<exists>b q'. push x q = (b, q') \<and> inv q' \<and> items q' = items q @ (if b then [x] else [])"
    and pop_law: "inv q \<Longrightarrow>
      \<exists>r q'. pop q = (r, q') \<and> inv q' \<and>
        items q = (case r of None \<Rightarrow> [] | Some x \<Rightarrow> [x]) @ items q'"
begin

lemma run_fifo_order:
  "inv q \<Longrightarrow> run_fifo push pop cs q = (i, out, q') \<Longrightarrow> inv q' \<and> items q @ i = out @ items q'"
proof (induction cs arbitrary: q i out)
  case Nil
  then show ?case by simp
next
  case (Cons c cs)
  show ?case
  proof (cases c)
    case (Push x)
    obtain b q1 where q1: "push x q = (b, q1)" "inv q1" "items q1 = items q @ (if b then [x] else [])"
      using push_law [OF Cons.prems(1), of x] by auto
    obtain i1 where "run_fifo push pop cs q1 = (i1, out, q')" "i = (if b then x # i1 else i1)"
      using Cons.prems(2) q1(1) by (auto simp: Push Let_def split: prod.splits if_splits)
    with Cons.IH [OF q1(2) this(1)] q1 show ?thesis by (auto split: if_splits)
  next
    case Pop
    obtain r q1 where q1: "pop q = (r, q1)" "inv q1"
      "items q = (case r of None \<Rightarrow> [] | Some x \<Rightarrow> [x]) @ items q1"
      using pop_law [OF Cons.prems(1)] by blast
    obtain o1 where "run_fifo push pop cs q1 = (i, o1, q')"
      "out = (case r of None \<Rightarrow> o1 | Some x \<Rightarrow> x # o1)"
      using Cons.prems(2) q1(1) by (auto simp: Pop Let_def split: prod.splits)
    with Cons.IH [OF q1(2) this(1)] q1 show ?thesis by (auto split: option.splits)
  qed
qed

end

text \<open>
  A bounded queue says more: it refuses an element only when it is full and yields none only when
  it is empty. It is a queue in the sense above, which is what \<open>sublocale\<close> records.
\<close>

locale bounded_fifo =
  fixes inv :: "'q \<Rightarrow> bool"
    and items :: "'q \<Rightarrow> 'a list"
    and cap :: "'q \<Rightarrow> nat"
    and push :: "'a \<Rightarrow> 'q \<Rightarrow> bool \<times> 'q"
    and pop :: "'q \<Rightarrow> 'a option \<times> 'q"
  assumes bounded: "inv q \<Longrightarrow> length (items q) \<le> cap q"
    and push_room: "inv q \<Longrightarrow> length (items q) < cap q \<Longrightarrow>
      \<exists>q'. push x q = (True, q') \<and> inv q' \<and> items q' = items q @ [x] \<and> cap q' = cap q"
    and push_full: "inv q \<Longrightarrow> length (items q) = cap q \<Longrightarrow> push x q = (False, q)"
    and pop_some: "inv q \<Longrightarrow> items q = x # xs \<Longrightarrow>
      \<exists>q'. pop q = (Some x, q') \<and> inv q' \<and> items q' = xs \<and> cap q' = cap q"
    and pop_none: "inv q \<Longrightarrow> items q = [] \<Longrightarrow> pop q = (None, q)"
begin

lemma push_cases:
  assumes "inv q"
  shows "\<exists>b q'. push x q = (b, q') \<and> inv q' \<and> cap q' = cap q \<and>
    (b \<longleftrightarrow> length (items q) < cap q) \<and> items q' = items q @ (if b then [x] else [])"
proof (cases "length (items q) < cap q")
  case True
  with push_room [OF assms True, of x] show ?thesis by auto
next
  case False
  with bounded [OF assms] have "length (items q) = cap q" by simp
  with push_full [OF assms this, of x] assms show ?thesis
    by (intro exI [of _ False] exI [of _ q]) simp
qed

lemma pop_cases:
  assumes "inv q"
  shows "\<exists>r q'. pop q = (r, q') \<and> inv q' \<and> cap q' = cap q \<and>
    items q = (case r of None \<Rightarrow> [] | Some x \<Rightarrow> [x]) @ items q'"
proof (cases "items q")
  case Nil
  with pop_none [OF assms Nil] assms show ?thesis by simp
next
  case (Cons x xs)
  from pop_some [OF assms Cons] obtain q' where "pop q = (Some x, q')" "inv q'" "items q' = xs"
    "cap q' = cap q" by blast
  with Cons show ?thesis by simp
qed

lemma run_fifo_cap:
  "inv q \<Longrightarrow> run_fifo push pop cs q = (i, out, q') \<Longrightarrow> inv q' \<and> cap q' = cap q"
proof (induction cs arbitrary: q i out)
  case Nil
  then show ?case by simp
next
  case (Cons c cs)
  show ?case
  proof (cases c)
    case (Push x)
    obtain b q1 where q1: "push x q = (b, q1)" "inv q1" "cap q1 = cap q"
      using push_cases [OF Cons.prems(1), of x] by auto
    then obtain i1 where "run_fifo push pop cs q1 = (i1, out, q')"
      using Cons.prems(2) by (auto simp: Push Let_def split: prod.splits if_splits)
    with Cons.IH [OF q1(2) this] q1 show ?thesis by simp
  next
    case Pop
    obtain r q1 where q1: "pop q = (r, q1)" "inv q1" "cap q1 = cap q"
      using pop_cases [OF Cons.prems(1)] by blast
    then obtain o1 where "run_fifo push pop cs q1 = (i, o1, q')"
      using Cons.prems(2) by (auto simp: Pop Let_def split: prod.splits)
    with Cons.IH [OF q1(2) this] q1 show ?thesis by simp
  qed
qed

end

sublocale bounded_fifo < fifo_queue inv items push pop
proof (unfold_locales, goal_cases)
  case (1 q x)
  from push_cases [OF this, of x] show ?case by blast
next
  case (2 q)
  from pop_cases [OF this] show ?case by blast
qed

end
