(* ===== verification/Circular_Queue.thy ===== *)
theory Circular_Queue
  imports Fifo_Queue Step_System
begin

text \<open>
  The two ring buffers of \<open>inc/os/CircularQueue.hpp\<close>. Indices stay below the capacity, so
  \<open>size_t\<close> arithmetic does not wrap and indices are natural numbers here.

  \<open>CircularQueue\<close> keeps every operation under one mutex with two condition variables: an attempt
  of an operation either waits or returns, and the concurrent system counts the threads that wait
  and those that were notified. \<open>RingQueue\<close> is lock-free for one producer and one consumer: its
  threads are interleaved at every access to a shared variable.
\<close>

subsection \<open>CircularQueue: operations\<close>

record 'a CircularQueue =
  cCapacity :: nat
  cSize :: nat
  cHead :: nat
  cTail :: nat
  cBuffer :: "'a list"

definition CircularQueue_new :: "'a \<Rightarrow> nat \<Rightarrow> 'a CircularQueue" where
  "CircularQueue_new x n = \<lparr>cCapacity = n, cSize = 0, cHead = 0, cTail = 0, cBuffer = replicate n x\<rparr>"

definition cq_empty :: "'a CircularQueue \<Rightarrow> bool" where
  "cq_empty q \<longleftrightarrow> cSize q = 0"

definition cq_full :: "'a CircularQueue \<Rightarrow> bool" where
  "cq_full q \<longleftrightarrow> cSize q = cCapacity q"

definition cq_size :: "'a CircularQueue \<Rightarrow> nat" where
  "cq_size q = cSize q"

definition cq_capacity :: "'a CircularQueue \<Rightarrow> nat" where
  "cq_capacity q = cCapacity q"

text \<open>One pass through the critical section: wait, or return with a result.\<close>

datatype ('r, 'q) attempt = Wait | Ret 'r 'q

definition cq_push :: "'a \<Rightarrow> bool \<Rightarrow> 'a CircularQueue \<Rightarrow> (bool, 'a CircularQueue) attempt" where
  "cq_push value block q =
     (if cSize q = cCapacity q then (if block then Wait else Ret False q)
      else Ret True (q\<lparr>cBuffer := (cBuffer q)[cTail q := value],
             cTail := (cTail q + 1) mod cCapacity q, cSize := cSize q + 1\<rparr>))"

definition cq_pop :: "bool \<Rightarrow> 'a CircularQueue \<Rightarrow> ('a option, 'a CircularQueue) attempt" where
  "cq_pop block q =
     (if cSize q = 0 then (if block then Wait else Ret None q)
      else Ret (Some (cBuffer q ! cHead q))
             (q\<lparr>cHead := (cHead q + 1) mod cCapacity q, cSize := cSize q - 1\<rparr>))"

subsection \<open>CircularQueue: a bounded FIFO queue\<close>

definition cq_items :: "'a CircularQueue \<Rightarrow> 'a list" where
  "cq_items q = map (\<lambda>i. cBuffer q ! ((cHead q + i) mod cCapacity q)) [0..<cSize q]"

definition cq_inv :: "'a CircularQueue \<Rightarrow> bool" where
  "cq_inv q \<longleftrightarrow>
     cSize q \<le> cCapacity q \<and> length (cBuffer q) = cCapacity q \<and>
     (0 < cCapacity q \<longrightarrow> cHead q < cCapacity q \<and> cTail q = (cHead q + cSize q) mod cCapacity q)"

definition push_nb :: "'a \<Rightarrow> 'a CircularQueue \<Rightarrow> bool \<times> 'a CircularQueue" where
  "push_nb x q = (case cq_push x False q of Wait \<Rightarrow> (False, q) | Ret b q' \<Rightarrow> (b, q'))"

definition pop_nb :: "'a CircularQueue \<Rightarrow> 'a option \<times> 'a CircularQueue" where
  "pop_nb q = (case cq_pop False q of Wait \<Rightarrow> (None, q) | Ret r q' \<Rightarrow> (r, q'))"

lemma length_cq_items [simp]: "length (cq_items q) = cSize q"
  by (simp add: cq_items_def)

lemma mod_add_neq:
  fixes c h i j :: nat
  assumes "i < j" and "j < c"
  shows "(h + i) mod c \<noteq> (h + j) mod c"
proof
  assume "(h + i) mod c = (h + j) mod c"
  then have "c dvd (h + j) - (h + i)" using assms by (metis mod_eq_dvd_iff_nat nat_add_left_cancel_le less_imp_le_nat)
  with assms show False by (auto dest: dvd_imp_le)
qed

lemma cq_push_room:
  assumes inv: "cq_inv q" and room: "cSize q < cCapacity q"
  shows "\<exists>q'. cq_push x b q = Ret True q' \<and> cq_inv q' \<and> cq_items q' = cq_items q @ [x] \<and>
    cCapacity q' = cCapacity q \<and> cSize q' = Suc (cSize q)"
proof -
  let ?q = "q\<lparr>cBuffer := (cBuffer q)[cTail q := x], cTail := (cTail q + 1) mod cCapacity q,
    cSize := cSize q + 1\<rparr>"
  have t: "cTail q = (cHead q + cSize q) mod cCapacity q" "cTail q < length (cBuffer q)"
    using inv room by (auto simp: cq_inv_def)
  have "cBuffer ?q ! ((cHead q + i) mod cCapacity q) = cBuffer q ! ((cHead q + i) mod cCapacity q)"
    if "i < cSize q" for i
    using mod_add_neq [OF that room, of "cHead q"] t by simp
  then have "cq_items ?q = cq_items q @ [x]" using t by (simp add: cq_items_def)
  moreover have "cq_inv ?q" using inv room by (auto simp: cq_inv_def mod_simps)
  ultimately show ?thesis using room by (simp add: cq_push_def)
qed

lemma cq_pop_some:
  assumes inv: "cq_inv q" and it: "cq_items q = x # xs"
  shows "\<exists>q'. cq_pop b q = Ret (Some x) q' \<and> cq_inv q' \<and> cq_items q' = xs \<and>
    cCapacity q' = cCapacity q \<and> cSize q = Suc (cSize q')"
proof -
  let ?q = "q\<lparr>cHead := (cHead q + 1) mod cCapacity q, cSize := cSize q - 1\<rparr>"
  have s: "cSize q = Suc (length xs)" using arg_cong [OF it, of length] by simp
  then have up: "[0..<cSize q] = 0 # map Suc [0..<length xs]" by (simp add: upt_conv_Cons map_Suc_upt del: upt_Suc)
  have hd: "cBuffer q ! (cHead q mod cCapacity q) = x"
    and tl: "map (\<lambda>i. cBuffer q ! ((cHead q + Suc i) mod cCapacity q)) [0..<length xs] = xs"
    using it unfolding cq_items_def up by (simp_all add: comp_def)
  have "cq_items ?q = xs" using tl s by (simp add: cq_items_def mod_simps)
  moreover have "0 < cCapacity q" "cHead q < cCapacity q" using inv s by (auto simp: cq_inv_def)
  moreover have "cq_inv ?q" using inv s by (auto simp: cq_inv_def mod_simps)
  ultimately show ?thesis using s hd by (simp add: cq_pop_def)
qed

interpretation cq: bounded_fifo cq_inv cq_items cCapacity push_nb pop_nb
proof (unfold_locales, goal_cases)
  case (1 q)
  then show ?case by (simp add: cq_inv_def)
next
  case (2 q x)
  then show ?case using cq_push_room [of q x False] by (auto simp: push_nb_def)
next
  case (3 q x)
  then show ?case by (simp add: push_nb_def cq_push_def)
next
  case (4 q x xs)
  then show ?case using cq_pop_some [of q x xs False] by (auto simp: pop_nb_def)
next
  case (5 q)
  then have "cSize q = 0" using length_cq_items [of q] by (metis list.size(3))
  then show ?case by (simp add: pop_nb_def cq_pop_def)
qed

text \<open>C15: Whatever sequence of non-blocking pushes and pops a client makes on a CircularQueue of any
  capacity, what comes out is what was accepted, in the same order and each element once, and the
  number of elements never exceeds the capacity.\<close>
theorem CircularQueue_fifo:
  assumes "run_fifo push_nb pop_nb cs (CircularQueue_new d n) = (i, out, q)"
  shows "i = out @ cq_items q \<and> length (cq_items q) \<le> n"
proof -
  have inv: "cq_inv (CircularQueue_new d n)" and e: "cq_items (CircularQueue_new d n) = []"
    by (simp_all add: cq_inv_def CircularQueue_new_def cq_items_def)
  from cq.run_fifo_order [OF inv assms] cq.run_fifo_cap [OF inv assms]
  have r: "cq_inv q" "cCapacity q = n" "i = out @ cq_items q"
    by (simp_all add: e) (simp add: CircularQueue_new_def)
  with cq.bounded [OF r(1)] show ?thesis by simp
qed

theorem CircularQueue_fifo_witness:
  "run_fifo push_nb pop_nb [Push 7, Push 8, Push 9, Pop, Push 10, Pop, Pop] (CircularQueue_new 0 2) =
    ([7, 8, 10], [7, 8, 10 :: nat], \<lparr>cCapacity = 2, cSize = 0, cHead = 1, cTail = 1, cBuffer = [10, 8]\<rparr>) \<and>
   [7, 8, 10] = [7, 8, 10] @ cq_items \<lparr>cCapacity = 2, cSize = 0, cHead = 1, cTail = 1, cBuffer = [10, 8 :: nat]\<rparr>"
proof -
  have r: "run_fifo push_nb pop_nb [Push 7, Push 8, Push 9, Pop, Push 10, Pop, Pop]
      (CircularQueue_new 0 2) = ([7, 8, 10], [7, 8, 10 :: nat],
        \<lparr>cCapacity = 2, cSize = 0, cHead = 1, cTail = 1, cBuffer = [10, 8]\<rparr>)"
    by (simp add: push_nb_def pop_nb_def cq_push_def cq_pop_def CircularQueue_new_def Let_def
        numeral_2_eq_2)
  with CircularQueue_fifo [OF r] show ?thesis by blast
qed

subsection \<open>CircularQueue: blocked threads\<close>

text \<open>
  The blocking operations of any number of producers and consumers. A thread whose attempt must
  wait joins the waiters of its condition variable; \<open>notify_one\<close> moves one waiter to the notified,
  who will try again; a spurious wake-up does the same. The four counters are those threads.
\<close>

record 'a cqs =
  ring :: "'a CircularQueue"
  pWaiting :: nat
  pNotified :: nat
  cWaiting :: nat
  cNotified :: nat

definition notify_not_empty :: "'a cqs \<Rightarrow> 'a cqs" where
  "notify_not_empty s =
     (if cWaiting s = 0 then s
      else s\<lparr>cWaiting := cWaiting s - 1, cNotified := cNotified s + 1\<rparr>)"

definition notify_not_full :: "'a cqs \<Rightarrow> 'a cqs" where
  "notify_not_full s =
     (if pWaiting s = 0 then s
      else s\<lparr>pWaiting := pWaiting s - 1, pNotified := pNotified s + 1\<rparr>)"

definition push_attempt :: "'a \<Rightarrow> 'a cqs \<Rightarrow> 'a cqs" where
  "push_attempt x s =
     (case cq_push x True (ring s) of
        Wait \<Rightarrow> s\<lparr>pWaiting := pWaiting s + 1\<rparr>
      | Ret _ q \<Rightarrow> notify_not_empty (s\<lparr>ring := q\<rparr>))"

definition pop_attempt :: "'a cqs \<Rightarrow> 'a cqs" where
  "pop_attempt s =
     (case cq_pop True (ring s) of
        Wait \<Rightarrow> s\<lparr>cWaiting := cWaiting s + 1\<rparr>
      | Ret _ q \<Rightarrow> notify_not_full (s\<lparr>ring := q\<rparr>))"

inductive cqs_step :: "'a cqs \<Rightarrow> 'a cqs res \<Rightarrow> bool" where
  push: "cqs_step s (Inr (push_attempt x s))"
| pop: "cqs_step s (Inr (pop_attempt s))"
| push_again: "0 < pNotified s \<Longrightarrow>
    cqs_step s (Inr (push_attempt x (s\<lparr>pNotified := pNotified s - 1\<rparr>)))"
| pop_again: "0 < cNotified s \<Longrightarrow>
    cqs_step s (Inr (pop_attempt (s\<lparr>cNotified := cNotified s - 1\<rparr>)))"
| spurious_push: "0 < pWaiting s \<Longrightarrow>
    cqs_step s (Inr (s\<lparr>pWaiting := pWaiting s - 1, pNotified := pNotified s + 1\<rparr>))"
| spurious_pop: "0 < cWaiting s \<Longrightarrow>
    cqs_step s (Inr (s\<lparr>cWaiting := cWaiting s - 1, cNotified := cNotified s + 1\<rparr>))"

definition cqs_start :: "'a cqs \<Rightarrow> bool" where
  "cqs_start s \<longleftrightarrow> (\<exists>d n. s = \<lparr>ring = CircularQueue_new d n, pWaiting = 0, pNotified = 0,
     cWaiting = 0, cNotified = 0\<rparr>)"

text \<open>Waiting threads are covered: for every free slot, or every element, somebody was notified.\<close>

definition cqs_inv :: "'a cqs \<Rightarrow> bool" where
  "cqs_inv s \<longleftrightarrow>
     cq_inv (ring s) \<and>
     (0 < cWaiting s \<longrightarrow> cSize (ring s) \<le> cNotified s) \<and>
     (0 < pWaiting s \<longrightarrow> cCapacity (ring s) - cSize (ring s) \<le> pNotified s)"

lemma push_attempt_cases:
  assumes "cq_inv (ring s)"
  shows "if cSize (ring s) = cCapacity (ring s)
    then push_attempt x s = s\<lparr>pWaiting := pWaiting s + 1\<rparr>
    else \<exists>q. push_attempt x s = notify_not_empty (s\<lparr>ring := q\<rparr>) \<and> cq_inv q \<and>
      cCapacity q = cCapacity (ring s) \<and> cSize q = Suc (cSize (ring s))"
proof (cases "cSize (ring s) = cCapacity (ring s)")
  case False
  then have "cSize (ring s) < cCapacity (ring s)" using assms by (simp add: cq_inv_def)
  from cq_push_room [OF assms this, of x True] False show ?thesis by (auto simp: push_attempt_def)
qed (simp add: push_attempt_def cq_push_def)

lemma pop_attempt_cases:
  assumes "cq_inv (ring s)"
  shows "if cSize (ring s) = 0 then pop_attempt s = s\<lparr>cWaiting := cWaiting s + 1\<rparr>
    else \<exists>q. pop_attempt s = notify_not_full (s\<lparr>ring := q\<rparr>) \<and> cq_inv q \<and>
      cCapacity q = cCapacity (ring s) \<and> cSize (ring s) = Suc (cSize q)"
proof (cases "cq_items (ring s)")
  case Nil
  then have "cSize (ring s) = 0" by (metis length_cq_items list.size(3))
  then show ?thesis by (simp add: pop_attempt_def cq_pop_def)
next
  case (Cons x xs)
  then have "cSize (ring s) \<noteq> 0" by (metis length_cq_items list.size(3) list.distinct(1) length_0_conv)
  with cq_pop_some [OF assms Cons, of True] show ?thesis by (auto simp: pop_attempt_def)
qed

lemma push_attempt_inv:
  assumes "cq_inv (ring s)" and "0 < cWaiting s \<longrightarrow> cSize (ring s) \<le> cNotified s"
    and "0 < pWaiting s \<longrightarrow> cCapacity (ring s) - cSize (ring s) \<le> Suc (pNotified s)"
  shows "cqs_inv (push_attempt x s)"
proof (cases "cSize (ring s) = cCapacity (ring s)")
  case True
  then show ?thesis using push_attempt_cases [OF assms(1), of x] assms by (auto simp: cqs_inv_def)
next
  case False
  then obtain q where q: "push_attempt x s = notify_not_empty (s\<lparr>ring := q\<rparr>)" "cq_inv q"
    "cCapacity q = cCapacity (ring s)" "cSize q = Suc (cSize (ring s))"
    using push_attempt_cases [OF assms(1), of x] by auto
  then have "cqs_inv (notify_not_empty (s\<lparr>ring := q\<rparr>))"
    using assms by (auto simp: cqs_inv_def notify_not_empty_def)
  with q(1) show ?thesis by simp
qed

lemma pop_attempt_inv:
  assumes "cq_inv (ring s)" and "0 < cWaiting s \<longrightarrow> cSize (ring s) \<le> Suc (cNotified s)"
    and "0 < pWaiting s \<longrightarrow> cCapacity (ring s) - cSize (ring s) \<le> pNotified s"
  shows "cqs_inv (pop_attempt s)"
proof (cases "cSize (ring s) = 0")
  case True
  then show ?thesis using pop_attempt_cases [OF assms(1)] assms by (auto simp: cqs_inv_def)
next
  case False
  then obtain q where q: "pop_attempt s = notify_not_full (s\<lparr>ring := q\<rparr>)" "cq_inv q"
    "cCapacity q = cCapacity (ring s)" "cSize (ring s) = Suc (cSize q)"
    using pop_attempt_cases [OF assms(1)] by auto
  then have "cqs_inv (notify_not_full (s\<lparr>ring := q\<rparr>))"
    using assms by (auto simp: cqs_inv_def notify_not_full_def)
  with q(1) show ?thesis by simp
qed

interpretation cqp: safe_system cqs_start cqs_step cqs_inv
proof (unfold_locales, goal_cases)
  case (1 s)
  then show ?case by (auto simp: cqs_start_def cqs_inv_def cq_inv_def CircularQueue_new_def)
next
  case (2 s r)
  note inv = 2(1) [unfolded cqs_inv_def]
  from 2(2) show ?case
  proof cases
    case (push x)
    have "cqs_inv (push_attempt x s)" using inv by (intro push_attempt_inv) auto
    with push show ?thesis by blast
  next
    case pop
    have "cqs_inv (pop_attempt s)" using inv by (intro pop_attempt_inv) auto
    with pop show ?thesis by blast
  next
    case (push_again x)
    have "cqs_inv (push_attempt x (s\<lparr>pNotified := pNotified s - 1\<rparr>))"
      using inv push_again(2) by (intro push_attempt_inv) auto
    with push_again show ?thesis by blast
  next
    case pop_again
    have "cqs_inv (pop_attempt (s\<lparr>cNotified := cNotified s - 1\<rparr>))"
      using inv pop_again(2) by (intro pop_attempt_inv) auto
    with pop_again show ?thesis by blast
  qed (use inv in \<open>auto simp: cqs_inv_def\<close>)
qed

text \<open>C30: No wake-up is lost in a CircularQueue: in every reachable state, as long as some consumer
  waits un-notified there are at least as many notified consumers still to run as elements, and as
  long as some producer waits un-notified at least as many notified producers as free slots. So the
  threads never all sleep while one of them could proceed.\<close>
theorem CircularQueue_no_lost_wakeup:
  assumes "reach cqs_start cqs_step s"
  shows "(0 < cWaiting s \<and> 0 < cSize (ring s) \<longrightarrow> cSize (ring s) \<le> cNotified s) \<and>
    (0 < pWaiting s \<and> cSize (ring s) < cCapacity (ring s) \<longrightarrow>
      cCapacity (ring s) - cSize (ring s) \<le> pNotified s)"
  using cqp.reach_inv [OF assms] by (simp add: cqs_inv_def)

theorem CircularQueue_no_lost_wakeup_witness:
  "\<exists>s :: nat cqs. reach cqs_start cqs_step s \<and> cWaiting s = 0 \<and> cNotified s = 1 \<and> cSize (ring s) = 1"
proof -
  let ?s = "\<lparr>ring = CircularQueue_new (0 :: nat) 2, pWaiting = 0, pNotified = 0, cWaiting = 0,
    cNotified = 0\<rparr>"
  have "reach cqs_start cqs_step ?s" by (rule reach_init) (auto simp: cqs_start_def)
  then have "reach cqs_start cqs_step (pop_attempt ?s)" by (rule reach_step) (rule cqs_step.pop)
  then have r: "reach cqs_start cqs_step (push_attempt 7 (pop_attempt ?s))"
    by (rule reach_step) (rule cqs_step.push)
  from CircularQueue_no_lost_wakeup [OF r] r show ?thesis
    by (intro exI [of _ "push_attempt 7 (pop_attempt ?s)"])
      (simp add: pop_attempt_def push_attempt_def cq_pop_def cq_push_def CircularQueue_new_def
        notify_not_empty_def)
qed

subsection \<open>RingQueue: operations\<close>

text \<open>The template parameter \<open>N\<close> is \<open>length rData - 1\<close>: the array has one slot more than it holds.\<close>

record 'a RingQueue =
  read_idx :: nat
  write_idx :: nat
  rData :: "'a list"

definition RingQueue_new :: "'a \<Rightarrow> nat \<Rightarrow> 'a RingQueue" where
  "RingQueue_new d n = \<lparr>read_idx = 0, write_idx = 0, rData = replicate (n + 1) d\<rparr>"

definition Next :: "'a RingQueue \<Rightarrow> nat \<Rightarrow> nat" where
  "Next q current_idx = (current_idx + 1) mod length (rData q)"

definition rq_isEmpty :: "'a RingQueue \<Rightarrow> bool" where
  "rq_isEmpty q \<longleftrightarrow> read_idx q = write_idx q"

definition rq_isFull :: "'a RingQueue \<Rightarrow> bool" where
  "rq_isFull q \<longleftrightarrow> Next q (write_idx q) = read_idx q"

text \<open>The operations run alone, without blocking.\<close>

definition pushImpl :: "'a \<Rightarrow> 'a RingQueue \<Rightarrow> bool \<times> 'a RingQueue" where
  "pushImpl item q =
     (let current = write_idx q; nxt = Next q current in
      if nxt = read_idx q then (False, q)
      else (True, q\<lparr>rData := (rData q)[current := item], write_idx := nxt\<rparr>))"

definition rq_pop :: "'a RingQueue \<Rightarrow> 'a option \<times> 'a RingQueue" where
  "rq_pop q =
     (let current = read_idx q in
      if current = write_idx q then (None, q)
      else (Some (rData q ! current), q\<lparr>read_idx := Next q current\<rparr>))"

definition rq_pop_func :: "('a \<Rightarrow> 'b) \<Rightarrow> 'a RingQueue \<Rightarrow> 'b option \<times> 'a RingQueue" where
  "rq_pop_func func q = (let (r, q) = rq_pop q in (map_option func r, q))"

subsection \<open>RingQueue: refinement to the other ring\<close>

definition rq_count :: "'a RingQueue \<Rightarrow> nat" where
  "rq_count q =
     (if read_idx q \<le> write_idx q then write_idx q - read_idx q
      else write_idx q + length (rData q) - read_idx q)"

definition as_cq :: "'a RingQueue \<Rightarrow> 'a CircularQueue" where
  "as_cq q = \<lparr>cCapacity = length (rData q), cSize = rq_count q, cHead = read_idx q,
     cTail = write_idx q, cBuffer = rData q\<rparr>"

definition rq_inv :: "'a RingQueue \<Rightarrow> bool" where
  "rq_inv q \<longleftrightarrow> read_idx q < length (rData q) \<and> write_idx q < length (rData q)"

definition rq_items :: "'a RingQueue \<Rightarrow> 'a list" where
  "rq_items q = cq_items (as_cq q)"

lemma Next_if: "i < length (rData q) \<Longrightarrow> Next q i = (if Suc i = length (rData q) then 0 else Suc i)"
  by (auto simp: Next_def)

lemma as_cq_inv: "rq_inv q \<Longrightarrow> cq_inv (as_cq q)"
  by (auto simp: rq_inv_def cq_inv_def as_cq_def rq_count_def mod_if)

lemma rq_count_less: "rq_inv q \<Longrightarrow> rq_count q < length (rData q)"
  by (auto simp: rq_inv_def rq_count_def)

lemma rq_full_iff:
  "rq_inv q \<Longrightarrow> Next q (write_idx q) = read_idx q \<longleftrightarrow> Suc (rq_count q) = length (rData q)"
  by (auto simp: rq_inv_def rq_count_def Next_if)

lemma rq_empty_iff: "rq_inv q \<Longrightarrow> read_idx q = write_idx q \<longleftrightarrow> rq_count q = 0"
  by (auto simp: rq_inv_def rq_count_def)

text \<open>Writing the free slot is invisible; publishing it appends the element.\<close>

lemma rq_write_items:
  assumes "rq_inv q"
  shows "rq_items (q\<lparr>rData := (rData q)[write_idx q := x]\<rparr>) = rq_items q"
proof -
  have w: "write_idx q = (read_idx q + rq_count q) mod length (rData q)"
    using as_cq_inv [OF assms] assms by (auto simp: cq_inv_def as_cq_def rq_inv_def)
  have "(rData q)[write_idx q := x] ! ((read_idx q + i) mod length (rData q)) =
      rData q ! ((read_idx q + i) mod length (rData q))" if "i < rq_count q" for i
    using mod_add_neq [OF that rq_count_less [OF assms], of "read_idx q"] w assms
    by (simp add: rq_inv_def)
  then show ?thesis by (simp add: rq_items_def cq_items_def as_cq_def rq_count_def)
qed

lemma rq_publish_items:
  assumes inv: "rq_inv q" and room: "Next q (write_idx q) \<noteq> read_idx q"
  shows "rq_items (q\<lparr>write_idx := Next q (write_idx q)\<rparr>) = rq_items q @ [rData q ! write_idx q]"
proof -
  let ?q = "q\<lparr>write_idx := Next q (write_idx q)\<rparr>"
  have c: "rq_count ?q = Suc (rq_count q)"
    using inv room by (auto simp: rq_inv_def rq_count_def Next_if)
  have w: "write_idx q = (read_idx q + rq_count q) mod length (rData q)"
    using as_cq_inv [OF inv] inv by (auto simp: cq_inv_def as_cq_def rq_inv_def)
  show ?thesis by (simp add: rq_items_def cq_items_def as_cq_def c) (simp add: w)
qed

lemma rq_items_Cons:
  assumes inv: "rq_inv q" and ne: "read_idx q \<noteq> write_idx q"
  shows "rq_items q = rData q ! read_idx q # rq_items (q\<lparr>read_idx := Next q (read_idx q)\<rparr>)"
proof -
  let ?q = "q\<lparr>read_idx := Next q (read_idx q)\<rparr>"
  have c: "rq_count q = Suc (rq_count ?q)"
    using inv ne by (auto simp: rq_inv_def rq_count_def Next_if)
  have up: "[0..<Suc k] = 0 # map Suc [0..<k]" for k
    by (simp add: upt_conv_Cons map_Suc_upt del: upt_Suc)
  have "(Next q (read_idx q) + i) mod length (rData q) = (read_idx q + Suc i) mod length (rData q)" for i
    by (simp add: Next_def mod_simps)
  then show ?thesis
    using inv unfolding rq_items_def cq_items_def as_cq_def CircularQueue.simps c up
    by (simp add: comp_def rq_inv_def)
qed

lemma rq_items_Nil: "rq_inv q \<Longrightarrow> rq_items q = [] \<longleftrightarrow> read_idx q = write_idx q"
  using rq_empty_iff [of q] length_cq_items [of "as_cq q"]
  by (auto simp: rq_items_def as_cq_def cq_items_def)

lemma rq_inv_Next: "rq_inv q \<Longrightarrow> i < length (rData q) \<Longrightarrow> Next q i < length (rData q)"
  by (auto simp: Next_if)

interpretation rq: bounded_fifo rq_inv rq_items "\<lambda>q. length (rData q) - 1" pushImpl rq_pop
proof (unfold_locales, goal_cases)
  case (1 q)
  then show ?case using rq_count_less [of q] by (simp add: rq_items_def as_cq_def)
next
  case (2 q x)
  let ?q = "q\<lparr>rData := (rData q)[write_idx q := x]\<rparr>"
  have l: "length (rq_items q) = rq_count q" by (simp add: rq_items_def as_cq_def)
  have room: "Next q (write_idx q) \<noteq> read_idx q"
    using rq_full_iff [OF 2(1)] 2(2) l by simp
  have n: "Next ?q i = Next q i" for i by (simp add: Next_def)
  have "rq_inv ?q" using 2(1) by (simp add: rq_inv_def)
  with rq_publish_items [of ?q] room rq_write_items [OF 2(1), of x] 2(1)
  have "rq_items (?q\<lparr>write_idx := Next q (write_idx q)\<rparr>) = rq_items q @ [x]"
    by (simp add: n rq_inv_def)
  moreover have "rq_inv (?q\<lparr>write_idx := Next q (write_idx q)\<rparr>)"
    using rq_inv_Next [OF 2(1), of "write_idx q"] 2(1) by (simp add: rq_inv_def)
  ultimately show ?case using room by (simp add: pushImpl_def Let_def)
next
  case (3 q x)
  have "Next q (write_idx q) = read_idx q"
    using rq_full_iff [OF 3(1)] 3(2) rq_count_less [OF 3(1)] by (auto simp: rq_items_def as_cq_def)
  then show ?case by (simp add: pushImpl_def Let_def)
next
  case (4 q x xs)
  have ne: "read_idx q \<noteq> write_idx q" using rq_items_Nil [OF 4(1)] 4(2) by simp
  then show ?case
    using rq_items_Cons [OF 4(1) ne] 4 rq_inv_Next [OF 4(1), of "read_idx q"]
    by (auto simp: rq_pop_def Let_def rq_inv_def)
next
  case (5 q)
  then show ?case using rq_items_Nil [of q] by (simp add: rq_pop_def Let_def)
qed

subsection \<open>RingQueue: one producer and one consumer\<close>

text \<open>
  The two threads, cut at every access to \<open>read_idx_\<close>, \<open>write_idx_\<close> and \<open>data_\<close>; the
  acquire/release pairs make the interleaving model adequate. An attempt that finds the queue full
  (empty) leaves its thread where it was: it returns false or tries again. \<open>produced\<close> and
  \<open>consumed\<close> record the elements of the completed calls.
\<close>

datatype 'a rq_ppc = PIdle | PChecked 'a nat | PWritten 'a nat
datatype 'a rq_cpc = CIdle | CChecked nat | CRead nat 'a

record 'a spsc =
  rq :: "'a RingQueue"
  pPc :: "'a rq_ppc"
  cPc :: "'a rq_cpc"
  produced :: "'a list"
  consumed :: "'a list"

definition rq_producer_step :: "'a \<Rightarrow> 'a spsc \<Rightarrow> 'a spsc" where
  "rq_producer_step item s =
     (case pPc s of
        PIdle \<Rightarrow>
          if Next (rq s) (write_idx (rq s)) = read_idx (rq s) then s
          else s\<lparr>pPc := PChecked item (write_idx (rq s))\<rparr>
      | PChecked x i \<Rightarrow> s\<lparr>rq := (rq s)\<lparr>rData := (rData (rq s))[i := x]\<rparr>, pPc := PWritten x i\<rparr>
      | PWritten x i \<Rightarrow> s\<lparr>rq := (rq s)\<lparr>write_idx := Next (rq s) i\<rparr>, pPc := PIdle,
                          produced := produced s @ [x]\<rparr>)"

definition rq_consumer_step :: "'a spsc \<Rightarrow> 'a spsc" where
  "rq_consumer_step s =
     (case cPc s of
        CIdle \<Rightarrow>
          if read_idx (rq s) = write_idx (rq s) then s else s\<lparr>cPc := CChecked (read_idx (rq s))\<rparr>
      | CChecked i \<Rightarrow> s\<lparr>cPc := CRead i (rData (rq s) ! i)\<rparr>
      | CRead i x \<Rightarrow> s\<lparr>rq := (rq s)\<lparr>read_idx := Next (rq s) i\<rparr>, cPc := CIdle,
                       consumed := consumed s @ [x]\<rparr>)"

inductive spsc_step :: "'a spsc \<Rightarrow> 'a spsc res \<Rightarrow> bool" where
  producer: "spsc_step s (Inr (rq_producer_step x s))"
| consumer: "spsc_step s (Inr (rq_consumer_step s))"

definition spsc_start :: "'a spsc \<Rightarrow> bool" where
  "spsc_start s \<longleftrightarrow> (\<exists>d n. s = \<lparr>rq = RingQueue_new d n, pPc = PIdle, cPc = CIdle, produced = [],
     consumed = []\<rparr>)"

definition spsc_inv :: "'a spsc \<Rightarrow> bool" where
  "spsc_inv s \<longleftrightarrow>
     rq_inv (rq s) \<and> produced s = consumed s @ rq_items (rq s) \<and>
     (case pPc s of
        PIdle \<Rightarrow> True
      | PChecked x i \<Rightarrow> i = write_idx (rq s) \<and> Next (rq s) i \<noteq> read_idx (rq s)
      | PWritten x i \<Rightarrow> i = write_idx (rq s) \<and> Next (rq s) i \<noteq> read_idx (rq s) \<and> rData (rq s) ! i = x) \<and>
     (case cPc s of
        CIdle \<Rightarrow> True
      | CChecked i \<Rightarrow> i = read_idx (rq s) \<and> i \<noteq> write_idx (rq s)
      | CRead i x \<Rightarrow> i = read_idx (rq s) \<and> i \<noteq> write_idx (rq s) \<and> rData (rq s) ! i = x)"

lemma Next_inj:
  "i < length (rData q) \<Longrightarrow> j < length (rData q) \<Longrightarrow> Next q i = Next q j \<longleftrightarrow> i = j"
  by (auto simp: Next_if split: if_splits)

lemma rq_producer_step_inv: "spsc_inv s \<Longrightarrow> spsc_inv (rq_producer_step x s)"
proof (cases "pPc s")
  case PIdle
  assume "spsc_inv s"
  with PIdle show ?thesis by (auto simp: spsc_inv_def rq_producer_step_def split: rq_cpc.splits)
next
  case (PChecked y i)
  assume inv: "spsc_inv s"
  let ?q = "(rq s)\<lparr>rData := (rData (rq s))[i := y]\<rparr>"
  have i: "i = write_idx (rq s)" "rq_inv (rq s)" using inv PChecked by (auto simp: spsc_inv_def)
  have "rq_items ?q = rq_items (rq s)" using rq_write_items [OF i(2), of y] by (simp add: i(1))
  moreover have "rq_inv ?q" using i(2) by (simp add: rq_inv_def)
  moreover have "Next ?q j = Next (rq s) j" for j by (simp add: Next_def)
  ultimately show ?thesis
    using inv PChecked i by (auto simp: spsc_inv_def rq_producer_step_def rq_inv_def split: rq_cpc.splits)
next
  case (PWritten y i)
  assume inv: "spsc_inv s"
  have i: "i = write_idx (rq s)" "rq_inv (rq s)" "Next (rq s) i \<noteq> read_idx (rq s)"
    "rData (rq s) ! i = y"
    using inv PWritten by (auto simp: spsc_inv_def)
  let ?q = "(rq s)\<lparr>write_idx := Next (rq s) i\<rparr>"
  have "rq_items ?q = rq_items (rq s) @ [y]" using rq_publish_items [OF i(2)] i by simp
  moreover have "rq_inv ?q" using rq_inv_Next [OF i(2), of i] i by (simp add: rq_inv_def)
  ultimately show ?thesis
    using inv PWritten i by (auto simp: spsc_inv_def rq_producer_step_def split: rq_cpc.splits)
qed

lemma rq_consumer_step_inv: "spsc_inv s \<Longrightarrow> spsc_inv (rq_consumer_step s)"
proof (cases "cPc s")
  case CIdle
  assume "spsc_inv s"
  with CIdle show ?thesis by (auto simp: spsc_inv_def rq_consumer_step_def split: rq_ppc.splits)
next
  case (CChecked i)
  assume "spsc_inv s"
  with CChecked show ?thesis by (auto simp: spsc_inv_def rq_consumer_step_def split: rq_ppc.splits)
next
  case (CRead i x)
  assume inv: "spsc_inv s"
  have i: "i = read_idx (rq s)" "rq_inv (rq s)" "i \<noteq> write_idx (rq s)" "rData (rq s) ! i = x"
    using inv CRead by (auto simp: spsc_inv_def)
  let ?q = "(rq s)\<lparr>read_idx := Next (rq s) i\<rparr>"
  have it: "rq_items (rq s) = x # rq_items ?q" using rq_items_Cons [OF i(2)] i by simp
  have "rq_inv ?q" using rq_inv_Next [OF i(2), of i] i by (simp add: rq_inv_def)
  moreover have "Next (rq s) (write_idx (rq s)) \<noteq> Next (rq s) i"
    using Next_inj [of "write_idx (rq s)" "rq s" i] i by (simp add: rq_inv_def)
  moreover have "Next ?q j = Next (rq s) j" for j by (simp add: Next_def)
  ultimately show ?thesis
    using inv CRead i it by (auto simp: spsc_inv_def rq_consumer_step_def split: rq_ppc.splits)
qed

interpretation spscp: safe_system spsc_start spsc_step spsc_inv
proof (unfold_locales, goal_cases)
  case (1 s)
  then show ?case
    by (auto simp: spsc_start_def spsc_inv_def rq_inv_def RingQueue_new_def rq_items_def cq_items_def
        as_cq_def rq_count_def)
next
  case (2 s r)
  from 2(2,1) show ?case
    by (cases rule: spsc_step.cases) (auto dest: rq_producer_step_inv rq_consumer_step_inv)
qed

text \<open>C13: With one producer and one consumer in any interleaving, a RingQueue delivers exactly the
  pushed elements in order: those popped followed by those still in the ring are those pushed, never
  more than N of them wait, and the producer never writes the slot the consumer is reading.\<close>
theorem RingQueue_spsc:
  assumes "reach spsc_start spsc_step s"
  shows "produced s = consumed s @ rq_items (rq s) \<and> length (rq_items (rq s)) < length (rData (rq s)) \<and>
    (\<forall>x i j. pPc s = PChecked x i \<and> cPc s = CChecked j \<longrightarrow> i \<noteq> j)"
  using spscp.reach_inv [OF assms] rq_count_less [of "rq s"]
  by (auto simp: spsc_inv_def rq_items_def as_cq_def)

definition sample_spsc :: "nat spsc" where
  "sample_spsc = \<lparr>rq = RingQueue_new 0 2, pPc = PIdle, cPc = CIdle, produced = [], consumed = []\<rparr>"

theorem RingQueue_spsc_witness:
  "\<exists>s :: nat spsc. reach spsc_start spsc_step s \<and> pPc s = PIdle \<and> produced s = [7] \<and>
    produced s = consumed s @ rq_items (rq s)"
proof -
  let ?s = "rq_producer_step 7 (rq_producer_step 7 (rq_producer_step 7 sample_spsc))"
  have "reach spsc_start spsc_step sample_spsc"
    by (rule reach_init) (auto simp: sample_spsc_def spsc_start_def)
  then have r: "reach spsc_start spsc_step ?s"
    using reach_step spsc_step.producer by metis
  have "pPc ?s = PIdle \<and> produced ?s = [7]"
    by (simp add: sample_spsc_def rq_producer_step_def RingQueue_new_def Next_def)
  with r RingQueue_spsc [OF r] show ?thesis by blast
qed

end
