(* ===== verification/Lock_Free_Queue.thy ===== *)
theory Lock_Free_Queue
  imports Fifo_Queue "HOL-Library.Word"
begin

text \<open>
  The linked queue with compare-and-swap of \<open>inc/os/LockFreeQueue.hpp\<close>: nodes, the memory pool with
  its free list, \<open>enqueue\<close>, \<open>try_dequeue\<close> and the dequeues built on it.

  Nodes are never returned to the system before the queue is destroyed, so a node is a total map
  from addresses. The union of a node holds an element exactly when \<open>elem_initialized\<close>; the model
  is the option \<open>elem\<close>, and reading an element that is not there is a fault.
  \<open>compare_exchange_weak\<close> may fail although the value is the expected one: the field \<open>weak\<close> says
  for the n-th exchange whether it goes through. The retry loops of the free list have no effect
  when an exchange fails and are one step.
\<close>

record 'a qNode =
  elem :: "'a option"
  qnext :: ptr
  version :: "64 word"

record 'a QueueCAS =
  nodes :: "ptr \<Rightarrow> 'a qNode"
  nbrk :: ptr
  pool_size :: nat
  free_list :: ptr
  qhead :: ptr
  qtail :: ptr
  weak :: "nat \<Rightarrow> bool"
  casn :: nat

definition Node_new :: "'a option \<Rightarrow> 'a qNode" where
  "Node_new x = \<lparr>elem = x, qnext = 0, version = 0\<rparr>"

definition set_node :: "ptr \<Rightarrow> 'a qNode \<Rightarrow> 'a QueueCAS \<Rightarrow> 'a QueueCAS" where
  "set_node p n q = q\<lparr>nodes := (nodes q)(p := n)\<rparr>"

definition push_free :: "ptr \<Rightarrow> 'a QueueCAS \<Rightarrow> 'a QueueCAS" where
  "push_free p q =
     (set_node p ((nodes q p)\<lparr>qnext := free_list q\<rparr>) q)\<lparr>free_list := p\<rparr>"

definition pop_free :: "'a QueueCAS \<Rightarrow> ptr \<times> 'a QueueCAS" where
  "pop_free q =
     (if free_list q = 0 then (0, q)
      else (free_list q, q\<lparr>free_list := qnext (nodes q (free_list q))\<rparr>))"

primrec expand_loop :: "nat \<Rightarrow> 'a QueueCAS \<Rightarrow> 'a QueueCAS" where
  "expand_loop 0 q = q"
| "expand_loop (Suc k) q =
     expand_loop k (push_free (nbrk q)
       ((set_node (nbrk q) (Node_new None) q)\<lparr>nbrk := Suc (nbrk q), pool_size := Suc (pool_size q)\<rparr>))"

definition expand :: "nat \<Rightarrow> 'a QueueCAS \<Rightarrow> 'a QueueCAS" where
  "expand new_size q = (if new_size \<le> pool_size q then q else expand_loop (new_size - pool_size q) q)"

definition allocate :: "'a option \<Rightarrow> 'a QueueCAS \<Rightarrow> ptr \<times> 'a QueueCAS" where
  "allocate x q =
     (let (p, q) = pop_free q;
          (p, q) = (if p = 0 then pop_free (expand (pool_size q * 2) q) else (p, q))
      in (p, if p \<noteq> 0 then set_node p (Node_new x) q else q))"

definition deallocate :: "ptr \<Rightarrow> 'a QueueCAS \<Rightarrow> 'a QueueCAS" where
  "deallocate p q =
     (if p \<noteq> 0 then
        let q = set_node p ((nodes q p)\<lparr>version := version (nodes q p) + 1\<rparr>) q
        in push_free p (set_node p (Node_new None) q)
      else q)"

text \<open>The fields before the pool grows, and the constructor of the pool, then of the queue.\<close>

definition QueueCAS_fields :: "(nat \<Rightarrow> bool) \<Rightarrow> 'a QueueCAS" where
  "QueueCAS_fields w = \<lparr>nodes = (\<lambda>_. Node_new None), nbrk = 1, pool_size = 0, free_list = 0, qhead = 0,
     qtail = 0, weak = w, casn = 0\<rparr>"

definition QueueCAS_new :: "nat \<Rightarrow> (nat \<Rightarrow> bool) \<Rightarrow> 'a QueueCAS" where
  "QueueCAS_new init_size w =
     (let (dummy, q) = allocate None (expand init_size (QueueCAS_fields w))
      in q\<lparr>qhead := dummy, qtail := dummy\<rparr>)"

subsection \<open>Enqueueing\<close>

text \<open>The outcome of one weak exchange whose expected value is right, and the count of exchanges.\<close>

definition cas :: "'a QueueCAS \<Rightarrow> bool \<times> 'a QueueCAS" where
  "cas q = (weak q (casn q), q\<lparr>casn := Suc (casn q)\<rparr>)"

text \<open>
  One round of \<open>enqueue\<close>: link the new node behind the last one, or help the tail forward. The
  second component says whether the loop is left. Run alone, the validation of \<open>tail\<close> and
  \<open>version\<close> always succeeds.
\<close>

definition enqueue_round :: "ptr \<Rightarrow> 'a QueueCAS \<Rightarrow> bool \<times> 'a QueueCAS" where
  "enqueue_round new_node q =
     (let old_tail = qtail q; nxt = qnext (nodes q old_tail); (b, q) = cas q in
      if nxt = 0 then
        (b, if b then set_node old_tail ((nodes q old_tail)\<lparr>qnext := new_node\<rparr>) q else q)
      else (False, if b then q\<lparr>qtail := nxt\<rparr> else q))"

partial_function (option) enqueue_loop :: "ptr \<Rightarrow> 'a QueueCAS \<Rightarrow> (ptr \<times> 'a QueueCAS) option" where
  "enqueue_loop new_node q =
     (let old_tail = qtail q; (b, q) = enqueue_round new_node q in
      if b then Some (old_tail, q) else enqueue_loop new_node q)"

definition enqueue_result :: "'a \<Rightarrow> 'a QueueCAS \<Rightarrow> (bool \<times> 'a QueueCAS) option" where
  "enqueue_result x q =
     (let (new_node, q) = allocate (Some x) q in
      if new_node = 0 then Some (False, q)
      else
        map_option (\<lambda>(old_tail, q).
          let (b, q) = cas q in (True, if b then q\<lparr>qtail := new_node\<rparr> else q))
          (enqueue_loop new_node q))"

subsection \<open>Dequeueing\<close>

datatype 'a round = Again | Empty | Got 'a | Uninitialised
datatype claim = Retry | Nothing | Claim ptr ptr

text \<open>
  A round has two halves. The first, up to the exchange of \<open>head\<close>, claims a node; the second reads the
  element of the claimed node and gives the old dummy back to the pool. Another consumer may run
  between them.
\<close>

definition dequeue_claim :: "'a QueueCAS \<Rightarrow> claim \<times> 'a QueueCAS" where
  "dequeue_claim q =
     (let old_head = qhead q; old_tail = qtail q; nxt = qnext (nodes q old_head) in
      if old_head = old_tail then
        if nxt = 0 then (Nothing, q)
        else (let (b, q) = cas q in (Retry, if b then q\<lparr>qtail := nxt\<rparr> else q))
      else if nxt = 0 then (Retry, q)
      else if elem (nodes q nxt) = None then (Retry, q)
      else
        (let (b, q) = cas q in
         if b then (Claim old_head nxt, q\<lparr>qhead := nxt\<rparr>) else (Retry, q)))"

definition dequeue_take :: "ptr \<Rightarrow> ptr \<Rightarrow> 'a QueueCAS \<Rightarrow> 'a round \<times> 'a QueueCAS" where
  "dequeue_take old_head nxt q =
     (case elem (nodes q nxt) of
        None \<Rightarrow> (Uninitialised, q)
      | Some x \<Rightarrow> (Got x, deallocate old_head q))"

definition dequeue_round :: "'a QueueCAS \<Rightarrow> 'a round \<times> 'a QueueCAS" where
  "dequeue_round q =
     (let (c, q) = dequeue_claim q in
      case c of
        Retry \<Rightarrow> (Again, q)
      | Nothing \<Rightarrow> (Empty, q)
      | Claim old_head nxt \<Rightarrow> dequeue_take old_head nxt q)"

lemmas dequeue_defs = dequeue_round_def dequeue_claim_def dequeue_take_def cas_def Let_def

primrec try_dequeue :: "nat \<Rightarrow> 'a QueueCAS \<Rightarrow> 'a option \<times> 'a QueueCAS" where
  "try_dequeue 0 q = (None, q)"
| "try_dequeue (Suc max_attempts) q =
     (let (r, q) = dequeue_round q in
      case r of
        Got x \<Rightarrow> (Some x, q)
      | Again \<Rightarrow> try_dequeue max_attempts q
      | _ \<Rightarrow> (None, q))"

definition dequeue :: "'a QueueCAS \<Rightarrow> 'a option \<times> 'a QueueCAS" where
  "dequeue q = try_dequeue 16 q"

definition dequeue_once :: "'a QueueCAS \<Rightarrow> 'a option \<times> 'a QueueCAS" where
  "dequeue_once q = try_dequeue 1 q"

text \<open>\<open>dump\<close>: the printed elements, following the links from the dummy.\<close>

primrec dump_loop :: "nat \<Rightarrow> ptr \<Rightarrow> 'a QueueCAS \<Rightarrow> 'a list" where
  "dump_loop 0 p q = []"
| "dump_loop (Suc n) p q =
     (if p = 0 then []
      else (case elem (nodes q p) of None \<Rightarrow> [] | Some x \<Rightarrow> [x]) @ dump_loop n (qnext (nodes q p)) q)"

definition dump :: "'a QueueCAS \<Rightarrow> 'a list" where
  "dump q = dump_loop (nbrk q) (qnext (nodes q (qhead q))) q"

subsection \<open>Lists of nodes\<close>

primrec npath :: "(ptr \<Rightarrow> 'a qNode) \<Rightarrow> ptr \<Rightarrow> ptr list \<Rightarrow> bool" where
  "npath n p [] \<longleftrightarrow> p = 0"
| "npath n p (a # as) \<longleftrightarrow> p = a \<and> a \<noteq> 0 \<and> npath n (qnext (n a)) as"

lemma npath_cong: "(\<And>a. a \<in> set as \<Longrightarrow> qnext (m a) = qnext (n a)) \<Longrightarrow> npath m p as = npath n p as"
  by (induction as arbitrary: p) auto

lemma npath_upd [simp]: "p \<notin> set as \<Longrightarrow> npath (n(p := x)) a as = npath n a as"
  by (rule npath_cong) auto

lemma npath_snoc:
  "npath n p (as @ [a]) \<Longrightarrow> distinct (as @ [a]) \<Longrightarrow> b \<noteq> 0 \<Longrightarrow> b \<notin> set (as @ [a]) \<Longrightarrow>
    qnext (n b) = 0 \<Longrightarrow> qnext x = b \<Longrightarrow> npath (n(a := x)) p (as @ [a, b])"
  by (induction as arbitrary: p) auto

lemma npath_last: "npath n p (as @ [a]) \<Longrightarrow> qnext (n a) = 0"
  by (induction as arbitrary: p) auto

lemma npath_before_last: "npath n p (as @ [a, b]) \<Longrightarrow> qnext (n a) = b"
  by (induction as arbitrary: p) auto

lemma npath_nonzero: "npath n p as \<Longrightarrow> \<forall>a\<in>set as. a \<noteq> 0"
  by (induction as arbitrary: p) auto

subsection \<open>The invariant\<close>

definition lf_rel :: "'a QueueCAS \<Rightarrow> ptr \<Rightarrow> ptr list \<Rightarrow> ptr list \<Rightarrow> bool" where
  "lf_rel q d xs fs \<longleftrightarrow>
     npath (nodes q) (qhead q) (d # xs) \<and> npath (nodes q) (free_list q) fs \<and>
     distinct (d # xs @ fs) \<and> (\<forall>a\<in>set (d # xs @ fs). a < nbrk q) \<and> 0 < nbrk q \<and> 0 < pool_size q \<and>
     (\<forall>x\<in>set xs. elem (nodes q x) \<noteq> None) \<and>
     (qtail q = last (d # xs) \<or> xs \<noteq> [] \<and> qtail q = last (butlast (d # xs))) \<and>
     (\<forall>a. version (nodes q a) = 0) \<and> (\<forall>i. \<exists>j\<ge>i. weak q j)"

definition lf_inv :: "'a QueueCAS \<Rightarrow> bool" where
  "lf_inv q \<longleftrightarrow> (\<exists>d xs fs. lf_rel q d xs fs)"

lemma dump_loop_path:
  "npath (nodes q) p xs \<Longrightarrow> length xs \<le> n \<Longrightarrow>
    dump_loop n p q = concat (map (\<lambda>x. case elem (nodes q x) of None \<Rightarrow> [] | Some y \<Rightarrow> [y]) xs)"
proof (induction xs arbitrary: p n)
  case Nil
  then show ?case by (cases n) simp_all
next
  case (Cons x xs)
  then show ?case by (cases n) auto
qed

lemma dump_rel:
  assumes "lf_rel q d xs fs"
  shows "dump q = concat (map (\<lambda>x. case elem (nodes q x) of None \<Rightarrow> [] | Some y \<Rightarrow> [y]) xs)"
proof -
  have np: "npath (nodes q) (qnext (nodes q (qhead q))) xs" using assms by (auto simp: lf_rel_def)
  have "distinct xs" "\<forall>a\<in>set xs. 0 < a \<and> a < nbrk q"
    using assms npath_nonzero [OF np] by (auto simp: lf_rel_def)
  then have "length xs \<le> nbrk q" by (rule card_bounded_distinct)
  with np show ?thesis by (simp add: dump_def dump_loop_path)
qed

lemma push_free_rel:
  assumes "npath (nodes q) (free_list q) fs" and "p \<noteq> 0" and "p \<notin> set fs"
  shows "npath (nodes (push_free p q)) (free_list (push_free p q)) (p # fs)"
  using assms by (simp add: push_free_def set_node_def)

lemma push_free_simps [simp]:
  "nbrk (push_free p q) = nbrk q" "pool_size (push_free p q) = pool_size q"
  "qhead (push_free p q) = qhead q" "qtail (push_free p q) = qtail q"
  "weak (push_free p q) = weak q" "casn (push_free p q) = casn q"
  "nodes (push_free p q) a =
    (if a = p then (nodes q p)\<lparr>qnext := free_list q\<rparr> else nodes q a)"
  by (simp_all add: push_free_def set_node_def)

lemma set_node_simps [simp]:
  "nbrk (set_node p n q) = nbrk q" "pool_size (set_node p n q) = pool_size q"
  "qhead (set_node p n q) = qhead q" "qtail (set_node p n q) = qtail q"
  "weak (set_node p n q) = weak q" "casn (set_node p n q) = casn q"
  "free_list (set_node p n q) = free_list q" "nodes (set_node p n q) = (nodes q)(p := n)"
  by (simp_all add: set_node_def)

lemma Node_new_simps [simp]:
  "elem (Node_new x) = x" "qnext (Node_new x) = 0" "version (Node_new x) = 0"
  by (simp_all add: Node_new_def)

text \<open>Everything that expanding and allocating leave alone.\<close>

definition same_queue :: "'a QueueCAS \<Rightarrow> 'a QueueCAS \<Rightarrow> bool" where
  "same_queue q q' \<longleftrightarrow> qhead q' = qhead q \<and> qtail q' = qtail q \<and> weak q' = weak q \<and>
     casn q' = casn q"

lemma expand_loop_rel:
  assumes "lf_rel q d xs fs"
  shows "\<exists>gs. lf_rel (expand_loop k q) d xs (gs @ fs) \<and> length gs = k \<and>
    same_queue q (expand_loop k q) \<and>
    (\<forall>a\<in>set (d # xs). nodes (expand_loop k q) a = nodes q a)"
  using assms
proof (induction k arbitrary: q fs)
  case 0
  then show ?case by (auto simp: same_queue_def)
next
  case (Suc k)
  let ?q0 = "(set_node (nbrk q) (Node_new None) q)\<lparr>nbrk := Suc (nbrk q), pool_size := Suc (pool_size q)\<rparr>"
  let ?q = "push_free (nbrk q) ?q0"
  have out: "nbrk q \<notin> set (d # xs @ fs)" "nbrk q \<noteq> 0" using Suc.prems by (auto simp: lf_rel_def)
  have nodes: "nodes ?q a = nodes q a" if "a \<in> set (d # xs @ fs)" for a using out that by auto
  have "npath (nodes ?q) (qhead ?q) (d # xs)"
  proof -
    have "qnext (nodes ?q a) = qnext (nodes q a)" if "a \<in> set (d # xs)" for a
      using out that by auto
    then have "npath (nodes ?q) (qhead q) (d # xs) = npath (nodes q) (qhead q) (d # xs)"
      by (rule npath_cong)
    then show ?thesis using Suc.prems by (simp add: lf_rel_def)
  qed
  moreover have "npath (nodes ?q) (free_list ?q) (nbrk q # fs)"
    using out Suc.prems by (intro push_free_rel) (simp_all add: lf_rel_def)
  ultimately have "lf_rel ?q d xs (nbrk q # fs)"
    using Suc.prems out nodes unfolding lf_rel_def by (auto simp: less_Suc_eq)
  from Suc.IH [OF this] obtain gs where gs: "lf_rel (expand_loop k ?q) d xs (gs @ nbrk q # fs)"
    "length gs = k" "same_queue ?q (expand_loop k ?q)"
    "\<forall>a\<in>set (d # xs). nodes (expand_loop k ?q) a = nodes ?q a"
    by blast
  show ?case
    using gs nodes by (intro exI [of _ "gs @ [nbrk q]"]) (auto simp: same_queue_def)
qed

lemma pop_free_rel:
  assumes "lf_rel q d xs (p # fs)"
  shows "\<exists>q'. pop_free q = (p, q') \<and> p \<noteq> 0 \<and> lf_rel q' d xs fs \<and> nodes q' = nodes q \<and>
    same_queue q q' \<and> nbrk q' = nbrk q"
  using assms by (auto simp: pop_free_def lf_rel_def same_queue_def)

lemma allocate_rel:
  assumes rel: "lf_rel q d xs fs"
  shows "\<exists>p q' fs'. allocate x q = (p, q') \<and> p \<noteq> 0 \<and> p \<notin> set (d # xs @ fs') \<and> p < nbrk q' \<and>
    lf_rel q' d xs fs' \<and> nodes q' p = Node_new x \<and> same_queue q q' \<and>
    (\<forall>a\<in>set (d # xs). nodes q' a = nodes q a)"
proof -
  obtain p q1 fs' where q1: "(case pop_free q of (p, q) \<Rightarrow>
      if p = 0 then pop_free (expand (pool_size q * 2) q) else (p, q)) = (p, q1)" "p \<noteq> 0"
    "lf_rel q1 d xs fs'" "p \<notin> set (d # xs @ fs')" "p < nbrk q1" "same_queue q q1"
    "\<forall>a\<in>set (d # xs). nodes q1 a = nodes q a"
  proof (cases fs)
    case (Cons p fs')
    with pop_free_rel [of q d xs p fs'] rel obtain q' where q': "pop_free q = (p, q')" "p \<noteq> 0"
      "lf_rel q' d xs fs'" "nodes q' = nodes q" "same_queue q q'" "nbrk q' = nbrk q" by auto
    show ?thesis
      by (rule that [of p q' fs']) (use q' rel Cons in \<open>auto simp: lf_rel_def\<close>)
  next
    case Nil
    then have "free_list q = 0" using rel by (simp add: lf_rel_def)
    then have e: "pop_free q = (0, q)" by (simp add: pop_free_def)
    have pos: "0 < pool_size q" using rel by (simp add: lf_rel_def)
    let ?q = "expand_loop (pool_size q) q"
    have ex: "expand (pool_size q * 2) q = ?q" using pos by (simp add: expand_def mult_2_right)
    from expand_loop_rel [OF rel, of "pool_size q"] Nil obtain gs where
      gs: "lf_rel ?q d xs gs" "length gs = pool_size q" "same_queue q ?q"
      "\<forall>a\<in>set (d # xs). nodes ?q a = nodes q a" by auto
    then obtain p gs' where p: "gs = p # gs'" using pos by (cases gs) auto
    from pop_free_rel [of ?q d xs p gs'] gs(1) p obtain q' where
      q': "pop_free ?q = (p, q')" "p \<noteq> 0" "lf_rel q' d xs gs'" "nodes q' = nodes ?q"
      "same_queue ?q q'" "nbrk q' = nbrk ?q" by auto
    show ?thesis
      by (rule that [of p q' gs'])
        (use q' gs e ex p in \<open>auto simp: same_queue_def lf_rel_def\<close>)
  qed
  let ?q = "set_node p (Node_new x) q1"
  have "allocate x q = (p, ?q)"
    using q1(1,2) by (cases "pop_free q") (auto simp: allocate_def Let_def split: if_splits)
  moreover have "lf_rel ?q d xs fs'" using q1(3,4) by (auto simp: lf_rel_def)
  ultimately show ?thesis
    using q1 by (intro exI [of _ p] exI [of _ ?q] exI [of _ fs']) (auto simp: same_queue_def)
qed

subsection \<open>Enqueueing refines appending\<close>

lemma lf_rel_casn [simp]: "lf_rel (q\<lparr>casn := k\<rparr>) d xs fs = lf_rel q d xs fs"
  by (simp add: lf_rel_def)

lemma lf_rel_tail_next:
  assumes "lf_rel q d xs fs"
  shows "qnext (nodes q (qtail q)) = (if qtail q = last (d # xs) then 0 else last xs)"
proof (cases "qtail q = last (d # xs)")
  case True
  obtain as a where "d # xs = as @ [a]" by (metis list.distinct(1) rev_exhaust)
  with True assms npath_last [of "nodes q" "qhead q" as a] show ?thesis by (simp add: lf_rel_def)
next
  case False
  then have t: "xs \<noteq> []" "qtail q = last (butlast (d # xs))" using assms by (auto simp: lf_rel_def)
  then obtain ys b where ys: "xs = ys @ [b]" by (metis rev_exhaust)
  obtain as a where as: "d # ys = as @ [a]" by (metis list.distinct(1) rev_exhaust)
  have "d # xs = as @ [a, b]" "qtail q = a" using ys as t by (simp_all add: butlast_append)
  moreover have "npath (nodes q) (qhead q) (d # xs)" using assms by (simp add: lf_rel_def)
  ultimately have "qnext (nodes q a) = b" using npath_before_last by metis
  with False ys \<open>qtail q = a\<close> show ?thesis by simp
qed

text \<open>What linking a fresh node achieves.\<close>

definition linked_in :: "'a QueueCAS \<Rightarrow> ptr \<Rightarrow> ptr list \<Rightarrow> ptr list \<Rightarrow> ptr \<Rightarrow> (ptr \<times> 'a QueueCAS) option \<Rightarrow> bool"
  where
  "linked_in q d xs fs p r \<longleftrightarrow> (\<exists>l q'. r = Some (l, q') \<and> l = last (d # xs) \<and> qtail q' = l \<and>
     lf_rel q' d (xs @ [p]) fs \<and> (\<forall>a. elem (nodes q' a) = elem (nodes q a)))"

lemma enqueue_loop_links:
  assumes rel: "lf_rel q d xs fs" and p: "p \<noteq> 0" "p \<notin> set (d # xs @ fs)" "p < nbrk q"
    "elem (nodes q p) \<noteq> None" "qnext (nodes q p) = 0"
    and tl: "qtail q = last (d # xs)" and w: "weak q (casn q)"
  shows "linked_in q d xs fs p (enqueue_loop p q)"
proof -
  obtain as a where as: "d # xs = as @ [a]" by (metis list.distinct(1) rev_exhaust)
  let ?q = "set_node (qtail q) ((nodes q (qtail q))\<lparr>qnext := p\<rparr>) (q\<lparr>casn := Suc (casn q)\<rparr>)"
  have nx: "qnext (nodes q (qtail q)) = 0" using lf_rel_tail_next [OF rel] tl by simp
  have e: "enqueue_loop p q = Some (qtail q, ?q)"
    using w nx by (subst enqueue_loop.simps) (simp add: enqueue_round_def cas_def Let_def)
  have t: "qtail q = a" using tl as by simp
  have "distinct ((as @ [a]) @ fs)" using rel as unfolding lf_rel_def by (metis append_Cons)
  then have out: "a \<notin> set fs" "distinct (as @ [a])" by auto
  have pa: "p \<notin> set (as @ [a])" using p(2) as by (metis UnCI append_Cons set_append)
  have "npath (nodes q) (qhead q) (as @ [a])" using rel as unfolding lf_rel_def by metis
  from npath_snoc [OF this out(2) p(1) pa p(5), of "(nodes q a)\<lparr>qnext := p\<rparr>"]
  have "npath (nodes ?q) (qhead ?q) (as @ [a, p])" by (simp add: t)
  then have "npath (nodes ?q) (qhead ?q) (d # xs @ [p])"
    by (metis append_Cons append_assoc append_Nil as)
  moreover have "npath (nodes ?q) (free_list ?q) fs" using rel out t by (simp add: lf_rel_def)
  moreover have "\<forall>x\<in>set (xs @ [p]). elem (nodes ?q x) \<noteq> None"
    using rel p(4) by (auto simp: lf_rel_def)
  moreover have "qtail ?q = last (butlast (d # xs @ [p]))" using tl by (simp add: butlast_append)
  ultimately have "lf_rel ?q d (xs @ [p]) fs"
    using rel p by (auto simp: lf_rel_def)
  then show ?thesis using e tl by (simp add: linked_in_def)
qed

lemma enqueue_loop_at_end:
  assumes "lf_rel q d xs fs" and "p \<noteq> 0" and "p \<notin> set (d # xs @ fs)" and "p < nbrk q"
    and "elem (nodes q p) \<noteq> None" and "qnext (nodes q p) = 0"
    and "qtail q = last (d # xs)" and "weak q (casn q + n)"
  shows "linked_in q d xs fs p (enqueue_loop p q)"
  using assms
proof (induction n arbitrary: q)
  case 0
  then show ?case by (intro enqueue_loop_links) simp_all
next
  case (Suc n)
  show ?case
  proof (cases "weak q (casn q)")
    case True
    with Suc.prems show ?thesis by (intro enqueue_loop_links) simp_all
  next
    case False
    let ?q = "q\<lparr>casn := Suc (casn q)\<rparr>"
    have nx: "qnext (nodes q (qtail q)) = 0" using lf_rel_tail_next [OF Suc(2)] Suc(8) by simp
    have "enqueue_loop p q = enqueue_loop p ?q"
      using False nx by (subst enqueue_loop.simps) (simp add: enqueue_round_def cas_def Let_def)
    moreover have "linked_in ?q d xs fs p (enqueue_loop p ?q)"
      using Suc.prems by (intro Suc.IH) simp_all
    ultimately show ?thesis by (simp add: linked_in_def)
  qed
qed

text \<open>A round while the tail is behind only moves the tail, when its exchange goes through.\<close>

lemma enqueue_loop_helps:
  assumes rel: "lf_rel r d xs fs" and tl: "qtail r \<noteq> last (d # xs)"
    and r': "r' = (let c = r\<lparr>casn := Suc (casn r)\<rparr> in if weak r (casn r) then c\<lparr>qtail := last xs\<rparr> else c)"
  shows "enqueue_loop p r = enqueue_loop p r'" "lf_rel r' d xs fs" "nodes r' = nodes r" "nbrk r' = nbrk r"
    "weak r' = weak r" "casn r' = Suc (casn r)" "weak r (casn r) \<Longrightarrow> qtail r' = last (d # xs)"
    "linked_in r' d xs fs p (enqueue_loop p r') \<Longrightarrow> linked_in r d xs fs p (enqueue_loop p r)"
proof -
  have xs: "xs \<noteq> []" using rel tl by (auto simp: lf_rel_def)
  have "last xs \<noteq> 0"
    using rel xs npath_nonzero [of "nodes r" "qhead r" "d # xs"] by (auto simp: lf_rel_def)
  then show e: "enqueue_loop p r = enqueue_loop p r'"
    using tl lf_rel_tail_next [OF rel] unfolding r'
    by (subst enqueue_loop.simps) (simp add: enqueue_round_def cas_def Let_def)
  show "lf_rel r' d xs fs" using rel xs unfolding r' by (simp add: lf_rel_def Let_def)
  show "nodes r' = nodes r" "nbrk r' = nbrk r" "weak r' = weak r" "casn r' = Suc (casn r)"
    "weak r (casn r) \<Longrightarrow> qtail r' = last (d # xs)" using xs unfolding r' by (simp_all add: Let_def)
  show "linked_in r' d xs fs p (enqueue_loop p r') \<Longrightarrow> linked_in r d xs fs p (enqueue_loop p r)"
    unfolding e unfolding r' by (simp add: linked_in_def Let_def split: if_splits)
qed

lemma enqueue_loop_ok:
  assumes rel: "lf_rel q d xs fs" and p: "p \<noteq> 0" "p \<notin> set (d # xs @ fs)" "p < nbrk q"
    "elem (nodes q p) \<noteq> None" "qnext (nodes q p) = 0"
  shows "linked_in q d xs fs p (enqueue_loop p q)"
proof -
  have fair: "\<exists>n. weak r (casn r + n)" if "lf_rel r d xs fs" for r
    using that by (metis lf_rel_def le_add_diff_inverse)
  have at_end: "linked_in r d xs fs p (enqueue_loop p r)"
    if "lf_rel r d xs fs" "p < nbrk r" "elem (nodes r p) \<noteq> None" "qnext (nodes r p) = 0"
      "qtail r = last (d # xs)" for r
    using fair [OF that(1)] enqueue_loop_at_end [OF that(1) p(1,2) that(2-5)] by blast
  have behind: "linked_in r d xs fs p (enqueue_loop p r)"
    if "lf_rel r d xs fs" "p < nbrk r" "elem (nodes r p) \<noteq> None" "qnext (nodes r p) = 0"
      "weak r (casn r + n)" for r n
    using that
  proof (induction n arbitrary: r)
    case (0 r)
    show ?case
    proof (cases "qtail r = last (d # xs)")
      case False
      note h = enqueue_loop_helps [OF 0(1) False refl]
      show ?thesis using 0 h(3,4,7) by (intro h(8) at_end h(2)) simp_all
    qed (use 0 at_end in blast)
  next
    case (Suc n r)
    show ?case
    proof (cases "qtail r = last (d # xs)")
      case False
      note h = enqueue_loop_helps [OF Suc(2) False refl]
      show ?thesis using Suc.prems h(3-6) by (intro h(8) Suc.IH h(2)) simp_all
    qed (use Suc at_end in blast)
  qed
  obtain n where "weak q (casn q + n)" using fair [OF rel] by blast
  from behind [OF rel p(3-5) this] show ?thesis .
qed

text \<open>\<open>enqueue\<close> returns for every fair \<open>weak\<close>; the other case of the option is not reached.\<close>

definition enqueue :: "'a \<Rightarrow> 'a QueueCAS \<Rightarrow> bool \<times> 'a QueueCAS" where
  "enqueue x q = (case enqueue_result x q of None \<Rightarrow> (False, q) | Some r \<Rightarrow> r)"

lemma dump_cong:
  assumes "lf_rel q d xs fs" and "lf_rel q' d' xs fs'" and "\<forall>a\<in>set xs. elem (nodes q' a) = elem (nodes q a)"
  shows "dump q' = dump q"
  unfolding dump_rel [OF assms(1)] dump_rel [OF assms(2)]
  using assms(3) by (intro arg_cong [where f = concat] map_cong) auto

lemma enqueue_ok:
  assumes rel: "lf_rel q d xs fs"
  shows "\<exists>q' p fs'. enqueue_result x q = Some (True, q') \<and> lf_rel q' d (xs @ [p]) fs' \<and>
    dump q' = dump q @ [x]"
proof -
  obtain p q1 fs' where q1: "allocate (Some x) q = (p, q1)" "p \<noteq> 0" "p \<notin> set (d # xs @ fs')"
    "p < nbrk q1" "lf_rel q1 d xs fs'" "nodes q1 p = Node_new (Some x)"
    "\<forall>a\<in>set (d # xs). nodes q1 a = nodes q a"
    using allocate_rel [OF rel, of "Some x"] by blast
  from enqueue_loop_ok [OF q1(5,2,3,4)] q1(6) obtain l q2 where
    q2: "enqueue_loop p q1 = Some (l, q2)" "l = last (d # xs)" "qtail q2 = l"
    "lf_rel q2 d (xs @ [p]) fs'" "\<forall>a. elem (nodes q2 a) = elem (nodes q1 a)"
    by (auto simp: linked_in_def)
  let ?q = "if weak q2 (casn q2) then q2\<lparr>casn := Suc (casn q2), qtail := p\<rparr>
    else q2\<lparr>casn := Suc (casn q2)\<rparr>"
  have e: "enqueue_result x q = Some (True, ?q)"
    using q1(1,2) q2(1) by (simp add: enqueue_result_def cas_def Let_def)
  have rel': "lf_rel ?q d (xs @ [p]) fs'" using q2(4) by (simp add: lf_rel_def)
  have n: "nodes ?q = nodes q2" by simp
  have "elem (nodes q2 p) = Some x" using q2(5) q1(6) by simp
  moreover have "map (\<lambda>y. case elem (nodes q2 y) of None \<Rightarrow> [] | Some y \<Rightarrow> [y]) xs =
      map (\<lambda>y. case elem (nodes q y) of None \<Rightarrow> [] | Some y \<Rightarrow> [y]) xs"
    using q2(5) q1(7) by (intro map_cong) auto
  ultimately have "dump ?q = dump q @ [x]"
    unfolding dump_rel [OF rel'] dump_rel [OF rel] n by (simp only: map_append concat_append list.map concat.simps option.case append_Nil2)
  with e rel' show ?thesis by blast
qed

subsection \<open>Dequeueing refines taking the head\<close>

text \<open>With the tail on the dummy, there is one element.\<close>

lemma lf_rel_tail_on_dummy:
  assumes "lf_rel q d (x # ys) fs" and "qtail q = d"
  shows "ys = []"
proof -
  have "d \<notin> set (x # ys)" using assms(1) by (auto simp: lf_rel_def)
  moreover have "d = last (x # ys) \<or> d = last (butlast (d # x # ys))"
    using assms by (simp add: lf_rel_def)
  moreover have "last (butlast (d # x # ys)) \<in> set (x # ys)" if "ys \<noteq> []"
    using that last_in_set [of "butlast (x # ys)"] by (auto dest: in_set_butlastD)
  ultimately show "ys = []" by (metis last_in_set list.distinct(1))
qed

text \<open>Giving the old dummy back makes the first node the dummy.\<close>

lemma lf_rel_advance:
  fixes q :: "'a QueueCAS"
  assumes rel: "lf_rel q d (x # ys) fs" and tl: "qtail q \<noteq> d"
  defines "q' \<equiv> deallocate d (q\<lparr>casn := Suc (casn q), qhead := x\<rparr>)"
  shows "lf_rel q' x ys (d # fs)" "\<forall>a\<in>set ys. elem (nodes q' a) = elem (nodes q a)" "weak q' = weak q"
proof -
  have h: "qhead q = d" "d \<noteq> 0" using rel by (auto simp: lf_rel_def)
  have nd: "nodes q' a = (if a = d then (Node_new None)\<lparr>qnext := free_list q\<rparr> else nodes q a)" for a
    using h(2) by (simp add: q'_def deallocate_def Let_def)
  have f: "free_list q' = d" "qhead q' = x" "qtail q' = qtail q" "weak q' = weak q"
    "nbrk q' = nbrk q" "pool_size q' = pool_size q"
    using h(2) by (simp_all add: q'_def deallocate_def Let_def push_free_def)
  have out: "d \<notin> set (x # ys)" "d \<notin> set fs" "distinct (x # ys @ d # fs)"
    using rel by (auto simp: lf_rel_def)
  have "npath (nodes q') x (x # ys) = npath (nodes q) x (x # ys)"
    using out(1) nd by (intro npath_cong) auto
  then have "npath (nodes q') (qhead q') (x # ys)" using rel h f by (simp add: lf_rel_def)
  moreover have "npath (nodes q') (free_list q) fs = npath (nodes q) (free_list q) fs"
    using out(2) nd by (intro npath_cong) auto
  then have "npath (nodes q') d (d # fs)" using rel h(2) by (simp add: nd lf_rel_def)
  moreover have "qtail q = last (x # ys) \<or> ys \<noteq> [] \<and> qtail q = last (butlast (x # ys))"
    using rel tl by (auto simp: lf_rel_def split: if_splits)
  ultimately show "lf_rel q' x ys (d # fs)" using rel out f by (auto simp: lf_rel_def nd)
  show "\<forall>a\<in>set ys. elem (nodes q' a) = elem (nodes q a)" "weak q' = weak q" using out(1) nd f by auto
qed

lemma dequeue_round_cases:
  assumes rel: "lf_rel q d xs fs"
  shows "(xs = [] \<and> dequeue_round q = (Empty, q)) \<or>
    (xs \<noteq> [] \<and> (\<exists>q'. dequeue_round q = (Again, q') \<and> lf_rel q' d xs fs \<and> nodes q' = nodes q \<and>
       (weak q (casn q) \<longrightarrow> qtail q = d \<and> qtail q' \<noteq> d) \<and> weak q' = weak q)) \<or>
    (\<exists>x ys v q'. xs = x # ys \<and> elem (nodes q x) = Some v \<and> dequeue_round q = (Got v, q') \<and>
       lf_rel q' x ys (d # fs) \<and> (\<forall>a\<in>set ys. elem (nodes q' a) = elem (nodes q a)) \<and> weak q' = weak q)"
proof (cases xs)
  case Nil
  have "qhead q = d" "qtail q = d" "qnext (nodes q d) = 0" using rel Nil by (auto simp: lf_rel_def)
  then show ?thesis using Nil by (simp add: dequeue_defs)
next
  case (Cons x ys)
  have h: "qhead q = d" "qnext (nodes q d) = x" "x \<noteq> 0" "d \<noteq> 0" "d \<noteq> x"
    using rel Cons by (auto simp: lf_rel_def)
  obtain v where v: "elem (nodes q x) = Some v" using rel Cons by (auto simp: lf_rel_def)
  show ?thesis
  proof (cases "qtail q = d")
    case True
    have "ys = []" using lf_rel_tail_on_dummy [of q d x ys fs] rel Cons True by simp
    then have "lf_rel (q\<lparr>casn := Suc (casn q), qtail := x\<rparr>) d xs fs" using rel Cons by (simp add: lf_rel_def)
    then show ?thesis using True h Cons rel by (auto simp: dequeue_defs)
  next
    case tl: False
    show ?thesis
    proof (cases "weak q (casn q)")
      case False
      then show ?thesis using tl h v Cons rel by (simp add: dequeue_defs)
    next
      case True
      let ?q = "deallocate d (q\<lparr>casn := Suc (casn q), qhead := x\<rparr>)"
      have "dequeue_round q = (Got v, ?q)" using True tl h v by (simp add: dequeue_defs)
      with lf_rel_advance [OF _ tl, of x ys fs] rel Cons v show ?thesis by blast
    qed
  qed
qed

lemma dequeue_got_dump:
  assumes "lf_rel q d (x # ys) fs" and "elem (nodes q x) = Some v" and "lf_rel q' x ys gs"
    and "\<forall>a\<in>set ys. elem (nodes q' a) = elem (nodes q a)"
  shows "dump q = v # dump q'"
  using assms(2,4) unfolding dump_rel [OF assms(1)] dump_rel [OF assms(3)]
  by (auto intro!: arg_cong [where f = concat] map_cong)

lemma try_dequeue_ok:
  assumes "lf_inv q"
  shows "\<exists>r q'. try_dequeue n q = (r, q') \<and> lf_inv q' \<and>
    dump q = (case r of None \<Rightarrow> [] | Some x \<Rightarrow> [x]) @ dump q'"
  using assms
proof (induction n arbitrary: q)
  case 0
  then show ?case by simp
next
  case (Suc n)
  obtain d xs fs where rel: "lf_rel q d xs fs" using Suc.prems by (auto simp: lf_inv_def)
  from dequeue_round_cases [OF rel] show ?case
  proof (elim disjE conjE exE)
    assume "dequeue_round q = (Empty, q)"
    then show ?thesis using Suc.prems by simp
  next
    fix q' assume q': "dequeue_round q = (Again, q')" "lf_rel q' d xs fs" "nodes q' = nodes q"
    then have "lf_inv q'" by (auto simp: lf_inv_def)
    moreover have "dump q' = dump q" using dump_cong [OF rel q'(2)] q'(3) by simp
    ultimately show ?thesis using Suc.IH [of q'] q'(1) by simp
  next
    fix x ys v q' assume q': "xs = x # ys" "elem (nodes q x) = Some v" "dequeue_round q = (Got v, q')"
      "lf_rel q' x ys (d # fs)" "\<forall>a\<in>set ys. elem (nodes q' a) = elem (nodes q a)"
    then have "dump q = v # dump q'" using dequeue_got_dump rel by metis
    moreover have "lf_inv q'" using q'(4) by (auto simp: lf_inv_def)
    ultimately show ?thesis using q'(3) by simp
  qed
qed

interpretation lf: fifo_queue lf_inv dump enqueue "try_dequeue n" for n
proof (unfold_locales, goal_cases)
  case (1 q x)
  then obtain d xs fs where rel: "lf_rel q d xs fs" by (auto simp: lf_inv_def)
  from enqueue_ok [OF rel, of x] show ?case by (auto simp: enqueue_def lf_inv_def)
next
  case (2 q)
  then show ?case by (rule try_dequeue_ok)
qed


lemma lf_rel_new:
  assumes "0 < n" and "\<forall>i. \<exists>j\<ge>i. w j"
  shows "\<exists>d fs. lf_rel (QueueCAS_new n w :: 'a QueueCAS) d [] fs \<and> weak (QueueCAS_new n w :: 'a QueueCAS) = w"
proof -
  let ?q = "QueueCAS_fields w :: 'a QueueCAS"
  let ?E = "expand_loop n ?q"
  have pool: "\<exists>gs. npath (nodes (expand_loop k q)) (free_list (expand_loop k q)) gs \<and>
      distinct gs \<and> length gs = k + length fs \<and> (\<forall>a\<in>set gs. a < nbrk (expand_loop k q)) \<and>
      0 < nbrk (expand_loop k q) \<and> pool_size (expand_loop k q) = k + pool_size q \<and>
      (\<forall>a. version (nodes (expand_loop k q) a) = 0) \<and> weak (expand_loop k q) = weak q"
    if "npath (nodes q) (free_list q) fs" "distinct fs" "\<forall>a\<in>set fs. a < nbrk q" "0 < nbrk q"
      "\<forall>a. version (nodes q a) = 0" for k fs and q :: "'a QueueCAS"
    using that
  proof (induction k arbitrary: q fs)
    case 0
    then show ?case by auto
  next
    case (Suc k)
    let ?q0 = "(set_node (nbrk q) (Node_new None) q)\<lparr>nbrk := Suc (nbrk q), pool_size := Suc (pool_size q)\<rparr>"
    have out: "nbrk q \<notin> set fs" using Suc.prems(3) by auto
    have "npath (nodes (push_free (nbrk q) ?q0)) (free_list (push_free (nbrk q) ?q0)) (nbrk q # fs)"
      using out Suc.prems by (intro push_free_rel) simp_all
    from Suc.IH [OF this] Suc.prems out show ?case by (auto simp: less_Suc_eq)
  qed
  obtain gs where gs: "npath (nodes ?E) (free_list ?E) gs" "distinct gs" "length gs = n"
    "\<forall>a\<in>set gs. a < nbrk ?E" "0 < nbrk ?E" "pool_size ?E = n" "\<forall>a. version (nodes ?E a) = 0"
    "weak ?E = w"
    using pool [of ?q "[]" n] by (auto simp: QueueCAS_fields_def)
  then obtain d fs where ds: "gs = d # fs" using assms(1) by (cases gs) auto
  have e: "expand n ?q = ?E" using assms(1) by (simp add: expand_def QueueCAS_fields_def)
  have q: "QueueCAS_new n w = (set_node d (Node_new None)
      (?E\<lparr>free_list := qnext (nodes ?E (free_list ?E))\<rparr>))\<lparr>qhead := d, qtail := d\<rparr>"
    using gs(1) ds by (simp add: QueueCAS_new_def e allocate_def pop_free_def Let_def)
  have "lf_rel (QueueCAS_new n w :: 'a QueueCAS) d [] fs"
    using gs ds assms unfolding q by (simp add: lf_rel_def)
  moreover have "weak (QueueCAS_new n w :: 'a QueueCAS) = w" using gs unfolding q by simp
  ultimately show ?thesis by blast
qed

lemma lf_inv_new: "0 < n \<Longrightarrow> \<forall>i. \<exists>j\<ge>i. w j \<Longrightarrow> lf_inv (QueueCAS_new n w)"
  using lf_rel_new unfolding lf_inv_def by blast

lemma dump_new: "0 < n \<Longrightarrow> \<forall>i. \<exists>j\<ge>i. w j \<Longrightarrow> dump (QueueCAS_new n w :: 'a QueueCAS) = []"
  using lf_rel_new [of n w, where ?'a = 'a] dump_rel by fastforce

text \<open>C31: Whatever calls of \<open>enqueue\<close> and \<open>try_dequeue\<close> follow the construction of a queue, what was
  taken out and what \<open>dump\<close> still prints is what was put in, in order, each element once, and the
  next \<open>enqueue\<close> returns true: neither its retry loop nor the pool runs out, as long as weak
  exchanges do not fail for ever. Through it all every \<open>version\<close> is 0: the constructor of a reused
  node resets the counter that \<open>deallocate\<close> has just incremented.\<close>

theorem LockFreeQueue_fifo:
  fixes cs :: "'a fifo_op list"
  assumes "0 < n" and "\<forall>i. \<exists>j\<ge>i. w j"
    and "run_fifo enqueue (try_dequeue k) cs (QueueCAS_new n w) = (i, out, q)"
  shows "i = out @ dump q \<and> (\<exists>q'. enqueue_result x q = Some (True, q')) \<and>
    (\<forall>a. version (nodes q a) = 0)"
proof -
  from lf.run_fifo_order [OF lf_inv_new [OF assms(1,2)] assms(3)] dump_new [OF assms(1,2), where ?'a = 'a]
  have q: "lf_inv q" "i = out @ dump q" by auto
  then obtain d xs fs where rel: "lf_rel q d xs fs" by (auto simp: lf_inv_def)
  moreover obtain q' where "enqueue_result x q = Some (True, q')" using enqueue_ok [OF rel] by blast
  ultimately show ?thesis using q(2) by (auto simp: lf_rel_def)
qed

definition lf_ops :: "nat fifo_op list" where
  "lf_ops = [Push 7, Push 8, Pop, Push 9, Pop, Pop, Pop]"

theorem LockFreeQueue_fifo_witness:
  "\<exists>i out q. run_fifo enqueue (try_dequeue 2) lf_ops (QueueCAS_new 2 odd) = (i, out, q) \<and>
    i = out @ dump q \<and> (\<forall>a. version (nodes q a) = 0)"
proof -
  have fair: "\<forall>i. \<exists>j\<ge>i. odd (j::nat)"
  proof
    fix i :: nat
    show "\<exists>j\<ge>i. odd j" by (cases "odd i") (auto intro: exI [of _ "Suc i"])
  qed
  obtain i out q where "run_fifo enqueue (try_dequeue 2) lf_ops (QueueCAS_new 2 odd) = (i, out, q)"
    by (metis prod_cases3)
  with LockFreeQueue_fifo [OF _ fair this] show ?thesis by auto
qed

text \<open>When no exchange fails spuriously, two attempts decide: \<open>try_dequeue\<close> with its default of two
  attempts, and \<open>dequeue\<close> with 16, yield the front element exactly when there is one.\<close>

theorem try_dequeue_complete:
  assumes "lf_inv q" and "\<forall>i. weak q i"
  shows "fst (try_dequeue (Suc (Suc n)) q) = (case dump q of [] \<Rightarrow> None | x # _ \<Rightarrow> Some x)"
proof -
  obtain d xs fs where rel: "lf_rel q d xs fs" using assms(1) by (auto simp: lf_inv_def)
  have got: "fst (try_dequeue (Suc m) r) = (case dump r of [] \<Rightarrow> None | x # _ \<Rightarrow> Some x)"
    if "lf_rel r d xs fs" "\<forall>i. weak r i" "qtail r \<noteq> d \<or> xs = []" for r m
    using dequeue_round_cases [OF that(1)]
  proof (elim disjE conjE exE)
    assume "xs = []" "dequeue_round r = (Empty, r)"
    then show ?thesis using dump_rel [OF that(1)] by simp
  next
    fix x ys v q' assume q': "xs = x # ys" "elem (nodes r x) = Some v" "dequeue_round r = (Got v, q')"
      "lf_rel q' x ys (d # fs)" "\<forall>a\<in>set ys. elem (nodes q' a) = elem (nodes r a)"
    then have "dump r = v # dump q'" using dequeue_got_dump that(1) by metis
    then show ?thesis using q'(3) by simp
  qed (use that in simp)
  show ?thesis
  proof (cases "qtail q = d \<and> xs \<noteq> []")
    case False
    then show ?thesis using got [OF rel assms(2)] by simp
  next
    case True
    from dequeue_round_cases [OF rel] show ?thesis
    proof (elim disjE conjE exE)
      fix q' assume q': "dequeue_round q = (Again, q')" "lf_rel q' d xs fs" "nodes q' = nodes q"
        "weak q (casn q) \<longrightarrow> qtail q = d \<and> qtail q' \<noteq> d" "weak q' = weak q"
      then have "dump q' = dump q" using dump_cong [OF rel q'(2)] by simp
      then show ?thesis using got [OF q'(2)] q' assms(2) by simp
    next
      fix x ys v q' assume q': "xs = x # ys" "elem (nodes q x) = Some v" "dequeue_round q = (Got v, q')"
        "lf_rel q' x ys (d # fs)" "\<forall>a\<in>set ys. elem (nodes q' a) = elem (nodes q a)"
      then have "dump q = v # dump q'" using dequeue_got_dump rel by metis
      then show ?thesis using q'(3) by simp
    qed (use True in simp)
  qed
qed

theorem try_dequeue_complete_witness:
  "fst (dequeue (QueueCAS_new 2 (\<lambda>_. True) :: nat QueueCAS)) = None"
proof -
  have fair: "\<forall>i. \<exists>j\<ge>(i::nat). True" by auto
  have "\<forall>i. weak (QueueCAS_new 2 (\<lambda>_. True) :: nat QueueCAS) i"
    using lf_rel_new [of 2 "\<lambda>_. True", where ?'a = nat] fair by simp
  then show ?thesis
    using try_dequeue_complete [of "QueueCAS_new 2 (\<lambda>_. True) :: nat QueueCAS" 14]
      lf_inv_new [of 2 "\<lambda>_. True", where ?'a = nat] dump_new [of 2 "\<lambda>_. True", where ?'a = nat]
    fair by (simp add: dequeue_def)
qed

definition lf_two :: "nat QueueCAS" where
  "lf_two = snd (enqueue 8 (snd (enqueue 7 (QueueCAS_new 4 (\<lambda>_. True)))))"

definition lf_race :: "nat round \<times> nat round" where
  "lf_race =
     (let (c, q) = dequeue_claim lf_two; (r2, q) = dequeue_round q in
      (case c of Claim h n \<Rightarrow> fst (dequeue_take h n q) | _ \<Rightarrow> Again, r2))"

lemma enqueue_loop_leave:
  "enqueue_round p q = (True, q') \<Longrightarrow> enqueue_loop p q = Some (qtail q, q')"
  by (subst enqueue_loop.simps) simp

lemmas lf_eval = QueueCAS_new_def QueueCAS_fields_def expand_def allocate_def pop_free_def
  push_free_def set_node_def Node_new_def deallocate_def enqueue_def enqueue_result_def
  enqueue_loop_leave enqueue_round_def dequeue_defs

text \<open>With two consumers the element can be lost: one consumer claims the node of 7 and is
  interrupted before it reads the element; the other takes 8, and with it gives the node of 7, now
  its old dummy, back to the pool, which destroys the element. The first consumer then moves from an
  element that is no longer there.\<close>

theorem try_dequeue_race: "lf_race = (Uninitialised, Got 8)"
  by (simp add: lf_race_def lf_two_def lf_eval eval_nat_numeral)

end
