(* ===== verification/Lock_Free_Spsc.thy ===== *)
theory Lock_Free_Spsc
  imports Lock_Free_Queue Step_System
begin

text \<open>
  One producer and one consumer on the linked queue of \<open>inc/os/LockFreeQueue.hpp\<close>, interleaved at
  every access to a shared field (\<open>head\<close>, \<open>tail\<close>, \<open>free_list\<close>, the fields of a node), under
  sequential consistency. The producer's \<open>pop_free\<close> is cut at its accesses too; only the slow path
  of \<open>allocate\<close>, which runs under the mutex of the pool, is one step. The flag \<open>b\<close> of a step says
  whether a weak exchange whose expected value is right goes through.
\<close>

subsection \<open>The two threads\<close>

datatype 'a ppc =
    PIdle
  | PPop 'a
  | PPopNext 'a ptr
  | PPopCas 'a ptr ptr
  | PGrow 'a
  | PInit 'a ptr
  | PTail ptr
  | PVersion ptr ptr
  | PNext ptr ptr "64 word"
  | PCheck ptr ptr "64 word" ptr
  | PCheckVersion ptr ptr "64 word" ptr
  | PLink ptr ptr
  | PHelp ptr ptr ptr
  | PSwing ptr ptr

datatype cpc =
    CIdle
  | CHead
  | CVersion ptr
  | CTail ptr "64 word"
  | CNext ptr "64 word" ptr
  | CCheck ptr "64 word" ptr ptr
  | CCheckVersion ptr "64 word" ptr ptr
  | CHelp ptr ptr
  | CElem ptr ptr
  | CClaim ptr ptr
  | CTake ptr ptr
  | CVersionUp ptr
  | CReset ptr
  | CPush ptr
  | CPushNext ptr ptr
  | CPushCas ptr ptr

record 'a lfsys =
  lfq :: "'a QueueCAS"
  ppc :: "'a ppc"
  cpc :: cpc
  tries :: nat
  sent :: "'a list"
  got :: "'a list"

text \<open>\<open>sent\<close> records the elements in the order in which they are linked, \<open>got\<close> the results.\<close>

definition spsc_enqueue_step :: "bool \<Rightarrow> 'a lfsys \<Rightarrow> 'a lfsys" where
  "spsc_enqueue_step b s =
     (let q = lfq s; n = nodes q in
      case ppc s of
        PIdle \<Rightarrow> s
      | PPop x \<Rightarrow> s\<lparr>ppc := (if free_list q = 0 then PGrow x else PPopNext x (free_list q))\<rparr>
      | PPopNext x old_head \<Rightarrow> s\<lparr>ppc := PPopCas x old_head (qnext (n old_head))\<rparr>
      | PPopCas x old_head new_head \<Rightarrow>
          if free_list q = old_head \<and> b then s\<lparr>lfq := q\<lparr>free_list := new_head\<rparr>, ppc := PInit x old_head\<rparr>
          else s\<lparr>ppc := (if free_list q = 0 then PGrow x else PPopNext x (free_list q))\<rparr>
      | PGrow x \<Rightarrow>
          (let (p, q) = (let (p, q) = pop_free q in
             if p = 0 then pop_free (expand (pool_size q * 2) q) else (p, q))
           in s\<lparr>lfq := q, ppc := (if p = 0 then PIdle else PInit x p)\<rparr>)
      | PInit x p \<Rightarrow> s\<lparr>lfq := set_node p (Node_new (Some x)) q, ppc := PTail p\<rparr>
      | PTail p \<Rightarrow> s\<lparr>ppc := PVersion p (qtail q)\<rparr>
      | PVersion p t \<Rightarrow> s\<lparr>ppc := PNext p t (version (n t))\<rparr>
      | PNext p t v \<Rightarrow> s\<lparr>ppc := PCheck p t v (qnext (n t))\<rparr>
      | PCheck p t v nxt \<Rightarrow> s\<lparr>ppc := (if qtail q \<noteq> t then PTail p else PCheckVersion p t v nxt)\<rparr>
      | PCheckVersion p t v nxt \<Rightarrow>
          s\<lparr>ppc := (if version (n t) \<noteq> v then PTail p else if nxt = 0 then PLink p t else PHelp p t nxt)\<rparr>
      | PLink p t \<Rightarrow>
          if qnext (n t) = 0 \<and> b then
            s\<lparr>lfq := set_node t ((n t)\<lparr>qnext := p\<rparr>) q, ppc := PSwing p t,
              sent := sent s @ [the (elem (n p))]\<rparr>
          else s\<lparr>ppc := PTail p\<rparr>
      | PHelp p t nxt \<Rightarrow>
          s\<lparr>lfq := (if qtail q = t \<and> b then q\<lparr>qtail := nxt\<rparr> else q), ppc := PTail p\<rparr>
      | PSwing p t \<Rightarrow> s\<lparr>lfq := (if qtail q = t \<and> b then q\<lparr>qtail := p\<rparr> else q), ppc := PIdle\<rparr>)"

definition spsc_dequeue_step :: "bool \<Rightarrow> 'a lfsys \<Rightarrow> 'a lfsys res" where
  "spsc_dequeue_step b s =
     (let q = lfq s; n = nodes q in
      case cpc s of
        CIdle \<Rightarrow> Inr s
      | CHead \<Rightarrow>
          Inr (if tries s = 0 then s\<lparr>cpc := CIdle\<rparr> else s\<lparr>cpc := CVersion (qhead q), tries := tries s - 1\<rparr>)
      | CVersion h \<Rightarrow> Inr (s\<lparr>cpc := CTail h (version (n h))\<rparr>)
      | CTail h v \<Rightarrow> Inr (s\<lparr>cpc := CNext h v (qtail q)\<rparr>)
      | CNext h v t \<Rightarrow> Inr (s\<lparr>cpc := CCheck h v t (qnext (n h))\<rparr>)
      | CCheck h v t nxt \<Rightarrow> Inr (s\<lparr>cpc := (if qhead q \<noteq> h then CHead else CCheckVersion h v t nxt)\<rparr>)
      | CCheckVersion h v t nxt \<Rightarrow>
          Inr (s\<lparr>cpc :=
            (if version (n h) \<noteq> v then CHead
             else if h = t then (if nxt = 0 then CIdle else CHelp t nxt)
             else if nxt = 0 then CHead
             else CElem h nxt)\<rparr>)
      | CHelp t nxt \<Rightarrow> Inr (s\<lparr>lfq := (if qtail q = t \<and> b then q\<lparr>qtail := nxt\<rparr> else q), cpc := CHead\<rparr>)
      | CElem h nxt \<Rightarrow> Inr (s\<lparr>cpc := (if elem (n nxt) = None then CHead else CClaim h nxt)\<rparr>)
      | CClaim h nxt \<Rightarrow>
          Inr (if qhead q = h \<and> b then s\<lparr>lfq := q\<lparr>qhead := nxt\<rparr>, cpc := CTake h nxt\<rparr> else s\<lparr>cpc := CHead\<rparr>)
      | CTake h nxt \<Rightarrow>
          (case elem (n nxt) of
             None \<Rightarrow> Inl Undefined
           | Some x \<Rightarrow> Inr (s\<lparr>got := got s @ [x], cpc := CVersionUp h\<rparr>))
      | CVersionUp h \<Rightarrow>
          Inr (s\<lparr>lfq := set_node h ((n h)\<lparr>version := version (n h) + 1\<rparr>) q, cpc := CReset h\<rparr>)
      | CReset h \<Rightarrow> Inr (s\<lparr>lfq := set_node h (Node_new None) q, cpc := CPush h\<rparr>)
      | CPush h \<Rightarrow> Inr (s\<lparr>cpc := CPushNext h (free_list q)\<rparr>)
      | CPushNext h old_head \<Rightarrow>
          Inr (s\<lparr>lfq := set_node h ((n h)\<lparr>qnext := old_head\<rparr>) q, cpc := CPushCas h old_head\<rparr>)
      | CPushCas h old_head \<Rightarrow>
          Inr (if free_list q = old_head \<and> b then s\<lparr>lfq := q\<lparr>free_list := h\<rparr>, cpc := CIdle\<rparr>
               else s\<lparr>cpc := CPushNext h (free_list q)\<rparr>))"

inductive lfs_step :: "'a lfsys \<Rightarrow> 'a lfsys res \<Rightarrow> bool" where
  call_enqueue: "ppc s = PIdle \<Longrightarrow> lfs_step s (Inr (s\<lparr>ppc := PPop x\<rparr>))"
| producer: "lfs_step s (Inr (spsc_enqueue_step b s))"
| call_dequeue: "cpc s = CIdle \<Longrightarrow> lfs_step s (Inr (s\<lparr>cpc := CHead, tries := k\<rparr>))"
| consumer: "lfs_step s (spsc_dequeue_step b s)"

inductive_cases lfs_stepE [elim]: "lfs_step s r"

definition lfs_start :: "'a lfsys \<Rightarrow> bool" where
  "lfs_start s \<longleftrightarrow> (\<exists>n. 0 < n \<and> s = \<lparr>lfq = QueueCAS_new n (\<lambda>_. True), ppc = PIdle, cpc = CIdle, tries = 0,
     sent = [], got = []\<rparr>)"

subsection \<open>The invariant\<close>

text \<open>
  The nodes of the queue (the dummy first), the free nodes, the node the producer holds before it is
  linked, and the node the consumer gives back.
\<close>

definition p_own :: "'a ppc \<Rightarrow> ptr list" where
  "p_own c = (case c of PInit x p \<Rightarrow> [p] | PTail p \<Rightarrow> [p] | PVersion p t \<Rightarrow> [p] | PNext p t v \<Rightarrow> [p]
     | PCheck p t v n \<Rightarrow> [p] | PCheckVersion p t v n \<Rightarrow> [p] | PLink p t \<Rightarrow> [p] | PHelp p t n \<Rightarrow> [p] | _ \<Rightarrow> [])"

definition c_own :: "cpc \<Rightarrow> ptr list" where
  "c_own c = (case c of CTake h n \<Rightarrow> [h] | CVersionUp h \<Rightarrow> [h] | CReset h \<Rightarrow> [h] | CPush h \<Rightarrow> [h]
     | CPushNext h f \<Rightarrow> [h] | CPushCas h f \<Rightarrow> [h] | _ \<Rightarrow> [])"

definition lfs_shape :: "'a QueueCAS \<Rightarrow> ptr list \<Rightarrow> ptr list \<Rightarrow> ptr list \<Rightarrow> bool" where
  "lfs_shape q ds fs os \<longleftrightarrow>
     ds \<noteq> [] \<and> npath (nodes q) (qhead q) ds \<and> npath (nodes q) (free_list q) fs \<and> distinct (ds @ fs @ os) \<and>
     (\<forall>a\<in>set (ds @ fs @ os). 0 < a \<and> a < nbrk q) \<and> 0 < pool_size q \<and>
     (\<forall>a\<in>set (tl ds). elem (nodes q a) \<noteq> None) \<and>
     (qtail q = last ds \<or> tl ds \<noteq> [] \<and> qtail q = last (butlast ds))"

text \<open>What each thread knows at its position.\<close>

definition p_inv :: "'a QueueCAS \<Rightarrow> 'a ppc \<Rightarrow> ptr list \<Rightarrow> ptr list \<Rightarrow> bool" where
  "p_inv q c ds fs \<longleftrightarrow>
     (\<forall>p\<in>set (p_own c). (case c of PInit _ _ \<Rightarrow> True | _ \<Rightarrow> elem (nodes q p) \<noteq> None \<and> qnext (nodes q p) = 0)) \<and>
     (case c of
        PPopNext x f \<Rightarrow> f \<in> set fs
      | PPopCas x f n \<Rightarrow> f \<in> set fs \<and> n = qnext (nodes q f)
      | PCheck p t v n \<Rightarrow> t \<in> set ds \<longrightarrow> n = qnext (nodes q t)
      | PCheckVersion p t v n \<Rightarrow> (if n = 0 then t = last ds \<and> qtail q = t else t \<in> set ds \<longrightarrow> n = qnext (nodes q t))
      | PLink p t \<Rightarrow> t = last ds \<and> qtail q = t
      | PHelp p t n \<Rightarrow> n \<noteq> 0 \<and> (t \<in> set ds \<longrightarrow> n = qnext (nodes q t))
      | PSwing p t \<Rightarrow> p = last ds
      | _ \<Rightarrow> True)"

definition c_inv :: "'a QueueCAS \<Rightarrow> cpc \<Rightarrow> ptr list \<Rightarrow> bool" where
  "c_inv q c ds \<longleftrightarrow>
     (case c of
        CVersion h \<Rightarrow> h = hd ds
      | CTail h v \<Rightarrow> h = hd ds
      | CNext h v t \<Rightarrow> h = hd ds \<and> (t \<noteq> h \<longrightarrow> qtail q \<noteq> h)
      | CCheck h v t n \<Rightarrow> h = hd ds \<and> (t \<noteq> h \<longrightarrow> qtail q \<noteq> h) \<and> (n \<noteq> 0 \<longrightarrow> tl ds \<noteq> [] \<and> n = hd (tl ds))
      | CCheckVersion h v t n \<Rightarrow> h = hd ds \<and> (t \<noteq> h \<longrightarrow> qtail q \<noteq> h) \<and> (n \<noteq> 0 \<longrightarrow> tl ds \<noteq> [] \<and> n = hd (tl ds))
      | CHelp t n \<Rightarrow> t = hd ds \<and> tl ds \<noteq> [] \<and> n = hd (tl ds)
      | CElem h n \<Rightarrow> h = hd ds \<and> qtail q \<noteq> h \<and> tl ds \<noteq> [] \<and> n = hd (tl ds)
      | CClaim h n \<Rightarrow> h = hd ds \<and> qtail q \<noteq> h \<and> tl ds \<noteq> [] \<and> n = hd (tl ds)
      | CTake h n \<Rightarrow> n = hd ds \<and> elem (nodes q n) \<noteq> None
      | CPushCas h f \<Rightarrow> qnext (nodes q h) = f
      | _ \<Rightarrow> True)"

text \<open>The elements on their way: those in the queue, and the one that is claimed but not yet read.\<close>

definition way :: "'a QueueCAS \<Rightarrow> cpc \<Rightarrow> ptr list \<Rightarrow> 'a list" where
  "way q c ds = map (\<lambda>a. the (elem (nodes q a))) (case c of CTake h n \<Rightarrow> ds | _ \<Rightarrow> tl ds)"

definition lfs_inv :: "'a lfsys \<Rightarrow> bool" where
  "lfs_inv s \<longleftrightarrow> (\<exists>ds fs. lfs_shape (lfq s) ds fs (p_own (ppc s) @ c_own (cpc s)) \<and>
     p_inv (lfq s) (ppc s) ds fs \<and> c_inv (lfq s) (cpc s) ds \<and> sent s = got s @ way (lfq s) (cpc s) ds)"


subsection \<open>The changes of the shape\<close>

lemma in_set_tlD: "a \<in> set (tl xs) \<Longrightarrow> a \<in> set xs"
  by (cases xs) simp_all

lemma shape_own:
  "lfs_shape q ds fs os \<Longrightarrow> p \<notin> set ds \<Longrightarrow> p \<notin> set fs \<Longrightarrow> lfs_shape (set_node p n q) ds fs os"
  by (auto simp: lfs_shape_def dest: in_set_tlD)

lemma shape_pop:
  assumes "lfs_shape q ds fs os" and "free_list q \<noteq> 0"
  shows "\<exists>gs. fs = free_list q # gs \<and>
    lfs_shape (q\<lparr>free_list := qnext (nodes q (free_list q))\<rparr>) ds gs (free_list q # os)"
  using assms by (cases fs) (auto simp: lfs_shape_def)

lemma shape_push:
  assumes "lfs_shape q ds fs (os @ [h])" and "qnext (nodes q h) = free_list q"
  shows "lfs_shape (q\<lparr>free_list := h\<rparr>) ds (h # fs) os"
  using assms by (auto simp: lfs_shape_def)

lemma shape_link:
  assumes "lfs_shape q ds fs (p # os)" and "qnext (nodes q p) = 0" and "elem (nodes q p) \<noteq> None"
    and "qtail q = last ds"
  shows "lfs_shape (set_node (last ds) ((nodes q (last ds))\<lparr>qnext := p\<rparr>) q) (ds @ [p]) fs os"
proof -
  obtain xs a where ds: "ds = xs @ [a]" using assms(1) by (cases ds rule: rev_cases) (auto simp: lfs_shape_def)
  let ?n = "(nodes q)(a := (nodes q a)\<lparr>qnext := p\<rparr>)"
  have "npath ?n (qhead q) (xs @ [a, p])"
    using assms(1,2) unfolding ds by (intro npath_snoc) (auto simp: lfs_shape_def)
  moreover have "npath ?n (free_list q) fs"
    using assms(1) unfolding ds by (auto simp: lfs_shape_def)
  moreover have "elem (?n b) \<noteq> None" if "b \<in> set (tl (xs @ [a, p]))" for b
    using that assms(1,3) unfolding ds lfs_shape_def by (cases xs) auto
  ultimately show ?thesis
    using assms(1,4) unfolding ds lfs_shape_def by (cases xs) (auto simp: butlast_append)
qed

lemma shape_claim:
  assumes "lfs_shape q (h # n # xs) fs os" and "qtail q \<noteq> h"
  shows "lfs_shape (q\<lparr>qhead := n\<rparr>) (n # xs) fs (os @ [h])"
  using assms by (auto simp: lfs_shape_def split: if_splits)

lemma shape_last_next: "lfs_shape q ds fs os \<Longrightarrow> qnext (nodes q (last ds)) = 0"
  by (cases ds rule: rev_cases) (auto simp: lfs_shape_def dest: npath_last)

lemma shape_tail_in:
  assumes "lfs_shape q ds fs os"
  shows "qtail q \<in> set ds"
proof (cases "qtail q = last ds")
  case True
  then show ?thesis using assms by (simp add: lfs_shape_def)
next
  case False
  then have "tl ds \<noteq> []" "qtail q = last (butlast ds)" using assms by (auto simp: lfs_shape_def)
  moreover from this have "butlast ds \<noteq> []" by (cases ds) auto
  ultimately show ?thesis using in_set_butlastD last_in_set by metis
qed

text \<open>Moving the tail to the node behind it: the last one.\<close>

lemma shape_tail_next:
  assumes "lfs_shape q ds fs os" and "qnext (nodes q (qtail q)) \<noteq> 0"
  shows "qnext (nodes q (qtail q)) = last ds \<and> tl ds \<noteq> [] \<and> qtail q = last (butlast ds)"
proof -
  have "qtail q \<noteq> last ds" using shape_last_next [OF assms(1)] assms(2) by metis
  then have t: "tl ds \<noteq> []" "qtail q = last (butlast ds)" using assms(1) by (auto simp: lfs_shape_def)
  then obtain xs a b where ds: "ds = xs @ [a, b]"
    by (cases ds rule: rev_cases; cases "butlast ds" rule: rev_cases) auto
  then show ?thesis using t assms(1) npath_before_last [of "nodes q" "qhead q" xs a b]
    by (simp add: lfs_shape_def butlast_append)
qed

lemma shape_tail: "lfs_shape q ds fs os \<Longrightarrow> t = last ds \<Longrightarrow> lfs_shape (q\<lparr>qtail := t\<rparr>) ds fs os"
  by (simp add: lfs_shape_def)

text \<open>The slow path of \<open>allocate\<close>.\<close>

lemma shape_expand_loop:
  "lfs_shape q ds fs os \<Longrightarrow> \<exists>gs. lfs_shape (expand_loop k q) ds (gs @ fs) os \<and> length gs = k \<and>
    qtail (expand_loop k q) = qtail q \<and> (\<forall>a. a < nbrk q \<longrightarrow> nodes (expand_loop k q) a = nodes q a)"
proof (induction k arbitrary: q fs)
  case (Suc k)
  let ?q = "push_free (nbrk q)
    ((set_node (nbrk q) (Node_new None) q)\<lparr>nbrk := Suc (nbrk q), pool_size := Suc (pool_size q)\<rparr>)"
  have out: "nbrk q \<notin> set (ds @ fs @ os)" "nbrk q \<noteq> 0"
    using Suc.prems by (auto simp: lfs_shape_def dest!: hd_in_set)
  have same: "nodes ?q a = nodes q a" if "a \<noteq> nbrk q" for a using that by simp
  have "npath (nodes ?q) (qhead q) ds = npath (nodes q) (qhead q) ds"
    "npath (nodes ?q) (free_list q) fs = npath (nodes q) (free_list q) fs"
    using out by (intro npath_cong; auto)+
  moreover have "\<forall>a\<in>set (tl ds). elem (nodes ?q a) \<noteq> None"
    using Suc.prems out by (auto simp: lfs_shape_def dest: in_set_tlD)
  ultimately have "lfs_shape ?q ds (nbrk q # fs) os"
    using Suc.prems out unfolding lfs_shape_def by (auto simp: less_SucI push_free_def)
  from Suc.IH [OF this] obtain gs where gs: "lfs_shape (expand_loop k ?q) ds (gs @ nbrk q # fs) os"
    "length gs = k" "qtail (expand_loop k ?q) = qtail ?q"
    "\<forall>a. a < nbrk ?q \<longrightarrow> nodes (expand_loop k ?q) a = nodes ?q a" by blast
  then show ?case using same
    by (intro exI [of _ "gs @ [nbrk q]"]) (auto simp: less_Suc_eq)
qed auto

lemma shape_grow:
  assumes sh: "lfs_shape q ds fs os"
  shows "\<exists>p q' gs. (let (p, q) = pop_free q in
      if p = 0 then pop_free (expand (pool_size q * 2) q) else (p, q)) = (p, q') \<and> p \<noteq> 0 \<and>
    lfs_shape q' ds gs (p # os) \<and> qtail q' = qtail q \<and>
    (\<forall>a. a < nbrk q \<longrightarrow> nodes q' a = nodes q a)"
proof (cases "free_list q = 0")
  case False
  from shape_pop [OF sh False] show ?thesis using False by (auto simp: pop_free_def)
next
  case True
  have ps: "0 < pool_size q" using sh by (simp add: lfs_shape_def)
  have fs: "fs = []" using sh True by (cases fs) (auto simp: lfs_shape_def)
  let ?q = "expand_loop (pool_size q) q"
  have e: "expand (pool_size q * 2) q = ?q" using ps by (simp add: expand_def)
  obtain gs where gs: "lfs_shape ?q ds gs os" "length gs = pool_size q" "qtail ?q = qtail q"
    "\<forall>a. a < nbrk q \<longrightarrow> nodes ?q a = nodes q a"
    using shape_expand_loop [OF sh, of "pool_size q"] fs by auto
  then have "free_list ?q \<noteq> 0" using ps by (cases gs) (auto simp: lfs_shape_def)
  from shape_pop [OF gs(1) this] show ?thesis
    using True e gs(3,4) \<open>free_list ?q \<noteq> 0\<close> by (auto simp: pop_free_def Let_def)
qed


subsection \<open>The steps\<close>

text \<open>What the steps of one thread leave to the other.\<close>

lemma c_inv_cong:
  assumes "c_inv q c ds" and "lfs_shape q ds fs (os @ c_own c)"
    and "\<And>a. a \<in> set (ds @ c_own c) \<Longrightarrow> nodes q' a = nodes q a" and "qtail q' = qtail q"
  shows "c_inv q' c ds"
proof -
  have "hd ds \<in> set ds" using assms(2) by (simp add: lfs_shape_def)
  then show ?thesis using assms(1,3,4)
    by (cases c) (auto simp: c_inv_def c_own_def)
qed

lemma way_cong:
  assumes "\<And>a. a \<in> set ds \<Longrightarrow> elem (nodes q' a) = elem (nodes q a)"
  shows "way q' c ds = way q c ds"
  unfolding way_def using assms by (auto intro!: map_cong dest: in_set_tlD split: cpc.splits)

lemma p_inv_cong:
  assumes "p_inv q c ds fs" and "lfs_shape q ds fs (p_own c @ os)"
    and "\<And>a. a \<in> set (ds @ fs @ p_own c) \<Longrightarrow> nodes q' a = nodes q a" and "qtail q' = qtail q"
  shows "p_inv q' c ds fs"
  using assms by (cases c) (auto simp: p_inv_def p_own_def split: if_splits)

lemma fields_simps [simp]:
  "c_inv (q\<lparr>free_list := x\<rparr>) c ds = c_inv q c ds" "p_inv (q\<lparr>free_list := x\<rparr>) pc ds fs = p_inv q pc ds fs"
  "way (q\<lparr>free_list := x\<rparr>) c ds = way q c ds" "way (q\<lparr>qtail := x\<rparr>) c ds = way q c ds"
  "way (q\<lparr>qhead := x\<rparr>) c ds = way q c ds" "p_inv (q\<lparr>qhead := x\<rparr>) pc ds fs = p_inv q pc ds fs"
  by (simp_all add: c_inv_def p_inv_def way_def cong: cpc.case_cong ppc.case_cong)

lemma lfs_invI:
  "lfs_shape (lfq s) ds fs (p_own (ppc s) @ c_own (cpc s)) \<Longrightarrow> p_inv (lfq s) (ppc s) ds fs \<Longrightarrow>
    c_inv (lfq s) (cpc s) ds \<Longrightarrow> sent s = got s @ way (lfq s) (cpc s) ds \<Longrightarrow> lfs_inv s"
  unfolding lfs_inv_def by blast

text \<open>A step that changes only where the producer is.\<close>

lemma lfs_inv_ppc:
  assumes "lfs_shape (lfq s) ds fs (p_own (ppc s) @ c_own (cpc s))" and "c_inv (lfq s) (cpc s) ds"
    and "sent s = got s @ way (lfq s) (cpc s) ds"
    and "p_own c = p_own (ppc s) \<or> p_own c = []" and "p_inv (lfq s) c ds fs"
  shows "lfs_inv (s\<lparr>ppc := c\<rparr>)"
proof -
  have "lfs_shape (lfq s) ds fs (p_own c @ c_own (cpc s))"
    using assms(1,4) by (auto simp: lfs_shape_def)
  then show ?thesis using assms unfolding lfs_inv_def by auto
qed

lemma shape_tail_last: "lfs_shape q ds fs os \<Longrightarrow> qnext (nodes q (qtail q)) = 0 \<Longrightarrow> qtail q = last ds"
proof (rule ccontr)
  assume sh: "lfs_shape q ds fs os" and z: "qnext (nodes q (qtail q)) = 0" and "qtail q \<noteq> last ds"
  then have t: "tl ds \<noteq> []" "qtail q = last (butlast ds)" by (auto simp: lfs_shape_def)
  then obtain xs a b where ds: "ds = xs @ [a, b]"
    by (cases ds rule: rev_cases; cases "butlast ds" rule: rev_cases) auto
  then show False using t z sh npath_before_last [of "nodes q" "qhead q" xs a b]
    by (auto simp: lfs_shape_def butlast_append)
qed

lemma c_inv_tail_last:
  assumes "lfs_shape q ds fs os" and "c_inv q c ds"
  shows "c_inv (q\<lparr>qtail := last ds\<rparr>) c ds"
proof (cases "tl ds = []")
  case True
  then have "last ds = qtail q" using assms(1) by (auto simp: lfs_shape_def)
  then show ?thesis using assms(2) by (cases q) simp
next
  case False
  have "distinct ds" "ds \<noteq> []" using assms(1) by (simp_all add: lfs_shape_def)
  with False have "last ds \<noteq> hd ds" by (cases ds) (auto dest: last_in_set)
  then show ?thesis using assms(2) by (cases c) (auto simp: c_inv_def)
qed

lemma c_inv_link:
  assumes "lfs_shape q ds fs (os @ c_own c)" and "c_inv q c ds"
  shows "c_inv (set_node (last ds) ((nodes q (last ds))\<lparr>qnext := p\<rparr>) q) c (ds @ [p])"
proof -
  have "ds \<noteq> []" using assms(1) by (simp add: lfs_shape_def)
  moreover from this have "last ds \<notin> set (c_own c)" using assms(1) last_in_set by (auto simp: lfs_shape_def)
  ultimately show ?thesis using assms(2)
    by (cases c) (auto simp: c_inv_def c_own_def hd_append)
qed

lemma way_link:
  assumes "ds \<noteq> []"
  shows "way (set_node a ((nodes q a)\<lparr>qnext := p\<rparr>) q) c (ds @ [p]) = way q c ds @ [the (elem (nodes q p))]"
  using assms by (auto simp: way_def split: cpc.splits intro!: map_cong)

text \<open>The invariant with its two lists named, and its parts.\<close>

definition lfs_at :: "'a lfsys \<Rightarrow> ptr list \<Rightarrow> ptr list \<Rightarrow> bool" where
  "lfs_at s ds fs \<longleftrightarrow> lfs_shape (lfq s) ds fs (p_own (ppc s) @ c_own (cpc s)) \<and>
     p_inv (lfq s) (ppc s) ds fs \<and> c_inv (lfq s) (cpc s) ds \<and> sent s = got s @ way (lfq s) (cpc s) ds"

lemma lfs_invE: "lfs_inv s \<Longrightarrow> (\<And>ds fs. lfs_at s ds fs \<Longrightarrow> P) \<Longrightarrow> P"
  unfolding lfs_inv_def lfs_at_def by blast

lemma lfs_atD:
  assumes "lfs_at s ds fs"
  shows "lfs_shape (lfq s) ds fs (p_own (ppc s) @ c_own (cpc s))" "p_inv (lfq s) (ppc s) ds fs"
    "c_inv (lfq s) (cpc s) ds" "sent s = got s @ way (lfq s) (cpc s) ds"
  using assms by (simp_all add: lfs_at_def)

lemma free_list_in: "lfs_at s ds fs \<Longrightarrow> free_list (lfq s) \<noteq> 0 \<Longrightarrow> free_list (lfq s) \<in> set fs"
  using shape_pop [OF lfs_atD(1)] by fastforce

lemmas enq_defs = spsc_enqueue_step_def Let_def p_inv_def p_own_def

text \<open>The producer's steps: those that read, then each that writes.\<close>

lemma PPopCas_inv:
  assumes at: "lfs_at s ds fs" and PPopCas: "ppc s = PPopCas x f nxt"
  shows "lfs_inv (spsc_enqueue_step b s)"
proof -
  let ?q = "lfq s" and ?n = "nodes (lfq s)" and ?c = "cpc s"
  note sh = lfs_atD(1) [OF at] and pi = lfs_atD(2) [OF at] and ci = lfs_atD(3) [OF at] and w = lfs_atD(4) [OF at]
  note move = lfs_inv_ppc [OF sh ci w]
  note hf = free_list_in [OF at]
  show ?thesis
  proof (cases "free_list ?q = f \<and> b")
    case True
    have f: "f \<in> set fs" "nxt = qnext (?n f)" using pi PPopCas by (simp_all add: p_inv_def)
    then have "free_list ?q \<noteq> 0" using sh True by (auto simp: lfs_shape_def)
    from shape_pop [OF sh this] obtain gs where
      "lfs_shape (?q\<lparr>free_list := nxt\<rparr>) ds gs (f # c_own ?c)" using True f PPopCas by (auto simp: p_own_def)
    then show ?thesis using True PPopCas ci w
      by (auto simp: enq_defs intro!: lfs_invI [of _ ds gs])
  next
    case False
    then show ?thesis using PPopCas hf by (auto simp: enq_defs intro!: move)
  qed
qed

lemma PGrow_inv:
  assumes at: "lfs_at s ds fs" and PGrow: "ppc s = PGrow x"
  shows "lfs_inv (spsc_enqueue_step b s)"
proof -
  let ?q = "lfq s" and ?n = "nodes (lfq s)" and ?c = "cpc s"
  note sh = lfs_atD(1) [OF at] and pi = lfs_atD(2) [OF at] and ci = lfs_atD(3) [OF at] and w = lfs_atD(4) [OF at]
  note move = lfs_inv_ppc [OF sh ci w]
  note hf = free_list_in [OF at]
  obtain p q' gs where g: "(let (p, q) = pop_free ?q in
    if p = 0 then pop_free (expand (pool_size q * 2) q) else (p, q)) = (p, q')" "p \<noteq> 0"
    "lfs_shape q' ds gs (p # c_own ?c)" "qtail q' = qtail ?q"
    "\<forall>a. a < nbrk ?q \<longrightarrow> nodes q' a = ?n a"
    using shape_grow [OF sh] PGrow by (auto simp: p_own_def)
  have same: "nodes q' a = ?n a" if "a \<in> set (ds @ c_own ?c)" for a
    using g(5) sh that by (auto simp: lfs_shape_def)
  have "c_inv q' ?c ds" using c_inv_cong [OF ci sh same g(4)] by simp
  moreover have "way q' ?c ds = way ?q ?c ds" by (rule way_cong) (use same in auto)
  moreover have "spsc_enqueue_step b s = s\<lparr>lfq := q', ppc := PInit x p\<rparr>"
    using PGrow g(1,2) by (simp add: spsc_enqueue_step_def Let_def)
  ultimately show ?thesis using g(3) w
    by (auto simp: p_inv_def p_own_def intro!: lfs_invI [of _ ds gs])
qed

lemma PInit_inv:
  assumes at: "lfs_at s ds fs" and PInit: "ppc s = PInit x p"
  shows "lfs_inv (spsc_enqueue_step b s)"
proof -
  let ?q = "lfq s" and ?n = "nodes (lfq s)" and ?c = "cpc s"
  note sh = lfs_atD(1) [OF at] and pi = lfs_atD(2) [OF at] and ci = lfs_atD(3) [OF at] and w = lfs_atD(4) [OF at]
  note move = lfs_inv_ppc [OF sh ci w]
  note hf = free_list_in [OF at]
  let ?q' = "set_node p (Node_new (Some x)) ?q"
  have out: "p \<notin> set ds" "p \<notin> set fs" "p \<notin> set (c_own ?c)"
    using sh PInit by (auto simp: lfs_shape_def p_own_def)
  have "lfs_shape ?q' ds fs (p # c_own ?c)" using shape_own [OF sh out(1,2)] PInit by (simp add: p_own_def)
  moreover have "c_inv ?q' ?c ds" by (rule c_inv_cong [OF ci sh]) (use out in auto)
  moreover have "way ?q' ?c ds = way ?q ?c ds" by (rule way_cong) (use out in auto)
  ultimately show ?thesis using PInit w
    by (auto simp: enq_defs intro!: lfs_invI [of _ ds fs])
qed

lemma PLink_inv:
  assumes at: "lfs_at s ds fs" and PLink: "ppc s = PLink p t"
  shows "lfs_inv (spsc_enqueue_step b s)"
proof -
  let ?q = "lfq s" and ?n = "nodes (lfq s)" and ?c = "cpc s"
  note sh = lfs_atD(1) [OF at] and pi = lfs_atD(2) [OF at] and ci = lfs_atD(3) [OF at] and w = lfs_atD(4) [OF at]
  note move = lfs_inv_ppc [OF sh ci w]
  note hf = free_list_in [OF at]
  have t: "t = last ds" "qtail ?q = t" "elem (?n p) \<noteq> None" "qnext (?n p) = 0"
    using pi PLink by (auto simp: p_inv_def p_own_def)
  show ?thesis
  proof (cases "qnext (?n t) = 0 \<and> b")
    case True
    let ?q' = "set_node t ((?n t)\<lparr>qnext := p\<rparr>) ?q"
    have sh': "lfs_shape ?q ds fs (p # c_own ?c)" using sh PLink by (simp add: p_own_def)
    have "lfs_shape ?q' (ds @ [p]) fs (c_own ?c)" using shape_link [OF sh' t(4,3)] t by simp
    moreover have "c_inv ?q' ?c (ds @ [p])" using c_inv_link [OF sh ci] t by simp
    moreover have "way ?q' ?c (ds @ [p]) = way ?q ?c ds @ [the (elem (?n p))]"
      by (rule way_link) (use sh in \<open>simp add: lfs_shape_def\<close>)
    ultimately show ?thesis using PLink True w
      by (auto simp: enq_defs intro!: lfs_invI [of _ "ds @ [p]" fs])
  next
    case False
    then show ?thesis using pi PLink by (auto simp: enq_defs intro!: move)
  qed
qed

lemma PHelp_inv:
  assumes at: "lfs_at s ds fs" and PHelp: "ppc s = PHelp p t nxt"
  shows "lfs_inv (spsc_enqueue_step b s)"
proof -
  let ?q = "lfq s" and ?n = "nodes (lfq s)" and ?c = "cpc s"
  note sh = lfs_atD(1) [OF at] and pi = lfs_atD(2) [OF at] and ci = lfs_atD(3) [OF at] and w = lfs_atD(4) [OF at]
  note move = lfs_inv_ppc [OF sh ci w]
  note hf = free_list_in [OF at]
  show ?thesis
  proof (cases "qtail ?q = t \<and> b")
    case True
    have "nxt = qnext (?n t)" "nxt \<noteq> 0" using True pi PHelp shape_tail_in [OF sh] by (auto simp: p_inv_def)
    then have "nxt = last ds" using shape_tail_next [OF sh] True by metis
    then show ?thesis using True PHelp pi w c_inv_tail_last [OF sh ci] shape_tail [OF sh]
      by (auto simp: enq_defs intro!: lfs_invI [of _ ds fs])
  next
    case False
    then show ?thesis using pi PHelp by (auto simp: enq_defs intro!: move)
  qed
qed

lemma PSwing_inv:
  assumes at: "lfs_at s ds fs" and PSwing: "ppc s = PSwing p t"
  shows "lfs_inv (spsc_enqueue_step b s)"
proof -
  let ?q = "lfq s" and ?n = "nodes (lfq s)" and ?c = "cpc s"
  note sh = lfs_atD(1) [OF at] and pi = lfs_atD(2) [OF at] and ci = lfs_atD(3) [OF at] and w = lfs_atD(4) [OF at]
  note move = lfs_inv_ppc [OF sh ci w]
  note hf = free_list_in [OF at]
  have "p = last ds" using pi PSwing by (simp add: p_inv_def)
  then show ?thesis using PSwing w sh ci c_inv_tail_last [OF sh ci] shape_tail [OF sh]
    by (auto simp: enq_defs intro!: lfs_invI [of _ ds fs])
qed

lemma spsc_enqueue_step_inv:
  assumes "lfs_inv s"
  shows "lfs_inv (spsc_enqueue_step b s)"
proof -
  let ?q = "lfq s" and ?n = "nodes (lfq s)"
  obtain ds fs where at: "lfs_at s ds fs" using assms by (rule lfs_invE)
  note sh = lfs_atD(1) [OF at] and pi = lfs_atD(2) [OF at]
  note move = lfs_inv_ppc [OF lfs_atD(1,3,4) [OF at]]
  show ?thesis
  proof (cases "ppc s")
    case PIdle
    then show ?thesis using assms by (simp add: spsc_enqueue_step_def Let_def)
  next
    case (PPop x)
    then show ?thesis using free_list_in [OF at] by (auto simp: enq_defs intro!: move)
  next
    case (PPopNext x f)
    then show ?thesis using pi by (auto simp: enq_defs intro!: move)
  next
    case (PVersion p t)
    then show ?thesis using pi by (auto simp: enq_defs intro!: move)
  next
    case (PNext p t v)
    then show ?thesis using pi by (auto simp: enq_defs intro!: move)
  next
    case (PTail p)
    then show ?thesis using pi by (auto simp: enq_defs intro!: move)
  next
    case (PCheck p t v nxt)
    have "t = last ds" if "qtail ?q = t" "qnext (?n t) = 0"
      using shape_tail_last [OF sh] that by simp
    then show ?thesis using pi PCheck shape_tail_in [OF sh] by (auto simp: enq_defs intro!: move)
  next
    case (PCheckVersion p t v nxt)
    then show ?thesis using pi by (auto simp: enq_defs intro!: move split: if_splits)
  qed (use PPopCas_inv [OF at] PGrow_inv [OF at] PInit_inv [OF at] PLink_inv [OF at] PHelp_inv [OF at]
      PSwing_inv [OF at] in blast)+
qed

lemma p_inv_tail_last: "p_inv q c ds fs \<Longrightarrow> p_inv (q\<lparr>qtail := last ds\<rparr>) c ds fs"
  by (cases c) (auto simp: p_inv_def)

lemma p_inv_tl: "p_inv q c ds fs \<Longrightarrow> tl ds \<noteq> [] \<Longrightarrow> p_inv q c (tl ds) fs"
  by (cases c; cases ds) (auto simp: p_inv_def)

lemma p_inv_push: "p_inv q c ds fs \<Longrightarrow> p_inv q c ds (h # fs)"
  by (cases c) (auto simp: p_inv_def)

text \<open>A step that changes only where the consumer is, and a write to the node it gives back.\<close>

lemma lfs_inv_cpc:
  assumes "lfs_shape (lfq s) ds fs (p_own (ppc s) @ c_own (cpc s))" and "p_inv (lfq s) (ppc s) ds fs"
    and "sent s = got s @ way (lfq s) (cpc s) ds"
    and "c_own c = c_own (cpc s) \<or> c_own c = []" and "c_inv (lfq s) c ds"
    and "way (lfq s) c ds = way (lfq s) (cpc s) ds"
  shows "lfs_inv (s\<lparr>cpc := c\<rparr>)" "lfs_inv (s\<lparr>cpc := c, tries := k\<rparr>)"
proof -
  have "lfs_shape (lfq s) ds fs (p_own (ppc s) @ c_own c)"
    using assms(1,4) by (auto simp: lfs_shape_def)
  then show "lfs_inv (s\<lparr>cpc := c\<rparr>)" "lfs_inv (s\<lparr>cpc := c, tries := k\<rparr>)"
    using assms by (auto intro!: lfs_invI [of _ ds fs])
qed

lemma lfs_inv_own:
  assumes sh: "lfs_shape (lfq s) ds fs (p_own (ppc s) @ c_own (cpc s))" and pi: "p_inv (lfq s) (ppc s) ds fs"
    and w: "sent s = got s @ way (lfq s) (cpc s) ds"
    and own: "c_own (cpc s) = [h]" "c_own c = [h]"
    and ci: "c_inv (set_node h n (lfq s)) c ds" and wc: "way (lfq s) c ds = way (lfq s) (cpc s) ds"
  shows "lfs_inv (s\<lparr>lfq := set_node h n (lfq s), cpc := c\<rparr>)"
proof -
  have out: "h \<notin> set ds" "h \<notin> set fs" "h \<notin> set (p_own (ppc s))"
    using sh own by (auto simp: lfs_shape_def)
  have "p_inv (set_node h n (lfq s)) (ppc s) ds fs"
    by (rule p_inv_cong [OF pi sh]) (use out in auto)
  moreover have "way (set_node h n (lfq s)) c ds = way (lfq s) c ds"
    by (rule way_cong) (use out in auto)
  ultimately show ?thesis
    using shape_own [OF sh out(1,2)] own ci w wc by (auto intro!: lfs_invI [of _ ds fs])
qed

lemmas deq_defs = spsc_dequeue_step_def Let_def c_inv_def c_own_def way_def

text \<open>The consumer's steps that write.\<close>

lemma CHelp_inv:
  assumes at: "lfs_at s ds fs" and CHelp: "cpc s = CHelp t n"
  shows "\<exists>s'. spsc_dequeue_step b s = Inr s' \<and> lfs_inv s'"
proof -
  let ?q = "lfq s" and ?n = "nodes (lfq s)"
  note sh = lfs_atD(1) [OF at] and pi = lfs_atD(2) [OF at] and ci = lfs_atD(3) [OF at] and w = lfs_atD(4) [OF at]
  note move = lfs_inv_cpc [OF sh pi w]
  have ne: "ds \<noteq> []" using sh by (simp add: lfs_shape_def)
  show ?thesis
  proof (cases "qtail ?q = t \<and> b")
    case True
    have "tl ds \<noteq> []" "t = hd ds" "n = hd (tl ds)" using ci CHelp by (auto simp: c_inv_def)
    then have "qnext (?n (qtail ?q)) = n \<and> n \<noteq> 0"
      using sh True by (cases ds; cases "tl ds") (auto simp: lfs_shape_def)
    then have "n = last ds" using shape_tail_next [OF sh] by metis
    then show ?thesis using True CHelp w p_inv_tail_last [OF pi] shape_tail [OF sh]
      by (auto simp: deq_defs
          intro!: lfs_invI [of _ ds fs])
  next
    case False
    then show ?thesis using CHelp by (auto simp: deq_defs intro!: move)
  qed
qed

lemma CClaim_inv:
  assumes at: "lfs_at s ds fs" and CClaim: "cpc s = CClaim h n"
  shows "\<exists>s'. spsc_dequeue_step b s = Inr s' \<and> lfs_inv s'"
proof -
  let ?q = "lfq s" and ?n = "nodes (lfq s)"
  note sh = lfs_atD(1) [OF at] and pi = lfs_atD(2) [OF at] and ci = lfs_atD(3) [OF at] and w = lfs_atD(4) [OF at]
  note move = lfs_inv_cpc [OF sh pi w]
  have ne: "ds \<noteq> []" using sh by (simp add: lfs_shape_def)
  show ?thesis
  proof (cases "qhead ?q = h \<and> b")
    case True
    have c: "h = hd ds" "qtail ?q \<noteq> h" "tl ds \<noteq> []" "n = hd (tl ds)" using ci CClaim by (auto simp: c_inv_def)
    then obtain xs where ds: "ds = h # n # xs" using ne by (cases ds; cases "tl ds") auto
    have "lfs_shape (?q\<lparr>qhead := n\<rparr>) (tl ds) fs (p_own (ppc s) @ [h])"
      using shape_claim [of ?q h n xs fs "p_own (ppc s)"] sh c(2) CClaim by (simp add: ds c_own_def)
    moreover have "elem (?n n) \<noteq> None" using sh ds by (simp add: lfs_shape_def)
    ultimately show ?thesis using True CClaim w p_inv_tl [OF pi c(3)] ds
      by (auto simp: deq_defs
          intro!: lfs_invI [of _ "tl ds" fs])
  next
    case False
    then show ?thesis using CClaim by (auto simp: deq_defs intro!: move)
  qed
qed

lemma CTake_inv:
  assumes at: "lfs_at s ds fs" and CTake: "cpc s = CTake h n"
  shows "\<exists>s'. spsc_dequeue_step b s = Inr s' \<and> lfs_inv s'"
proof -
  let ?q = "lfq s" and ?n = "nodes (lfq s)"
  note sh = lfs_atD(1) [OF at] and pi = lfs_atD(2) [OF at] and ci = lfs_atD(3) [OF at] and w = lfs_atD(4) [OF at]
  note move = lfs_inv_cpc [OF sh pi w]
  have ne: "ds \<noteq> []" using sh by (simp add: lfs_shape_def)
  obtain x where "elem (?n n) = Some x" "n = hd ds" using ci CTake by (auto simp: c_inv_def)
  then show ?thesis using CTake sh pi w ne
    by (cases ds) (auto simp: deq_defs
        intro!: lfs_invI [of _ ds fs])
qed

lemma CPushCas_inv:
  assumes at: "lfs_at s ds fs" and CPushCas: "cpc s = CPushCas h f"
  shows "\<exists>s'. spsc_dequeue_step b s = Inr s' \<and> lfs_inv s'"
proof -
  let ?q = "lfq s" and ?n = "nodes (lfq s)"
  note sh = lfs_atD(1) [OF at] and pi = lfs_atD(2) [OF at] and ci = lfs_atD(3) [OF at] and w = lfs_atD(4) [OF at]
  note move = lfs_inv_cpc [OF sh pi w]
  have ne: "ds \<noteq> []" using sh by (simp add: lfs_shape_def)
  show ?thesis
  proof (cases "free_list ?q = f \<and> b")
    case True
    have "lfs_shape ?q ds fs (p_own (ppc s) @ [h])" "qnext (?n h) = free_list ?q"
      using sh ci CPushCas True by (auto simp: c_own_def c_inv_def)
    from shape_push [OF this] show ?thesis using True CPushCas w p_inv_push [OF pi]
      by (auto simp: deq_defs
          intro!: lfs_invI [of _ ds "h # fs"])
  next
    case False
    then show ?thesis using CPushCas by (auto simp: deq_defs intro!: move)
  qed
qed

lemma spsc_dequeue_step_inv:
  assumes "lfs_inv s"
  shows "\<exists>s'. spsc_dequeue_step b s = Inr s' \<and> lfs_inv s'"
proof -
  let ?q = "lfq s" and ?n = "nodes (lfq s)" and ?c = "cpc s"
  obtain ds fs where at: "lfs_at s ds fs" using assms by (rule lfs_invE)
  note sh = lfs_atD(1) [OF at] and pi = lfs_atD(2) [OF at] and ci = lfs_atD(3) [OF at] and w = lfs_atD(4) [OF at]
  note move = lfs_inv_cpc [OF sh pi w]
  note own = lfs_inv_own [OF sh pi w]
  have hd: "qhead ?q = hd ds" and ne: "ds \<noteq> []" using sh by (cases ds; auto simp: lfs_shape_def)+
  have nx: "tl ds \<noteq> [] \<and> qnext (?n (hd ds)) = hd (tl ds)" if "qnext (?n (hd ds)) \<noteq> 0"
    using sh that by (cases ds; cases "tl ds") (auto simp: lfs_shape_def)
  show ?thesis
  proof (cases ?c)
    case CIdle
    then show ?thesis using assms by (simp add: spsc_dequeue_step_def Let_def)
  next
    case (CHelp t n)
    then show ?thesis by (rule CHelp_inv [OF at])
  next
    case (CClaim h n)
    then show ?thesis by (rule CClaim_inv [OF at])
  next
    case (CTake h n)
    then show ?thesis by (rule CTake_inv [OF at])
  next
    case (CPushCas h f)
    then show ?thesis by (rule CPushCas_inv [OF at])
  qed (use ci nx hd in \<open>auto simp: deq_defs intro!: move own\<close>)
qed


lemma lfs_start_inv:
  assumes "lfs_start s"
  shows "lfs_inv s"
proof -
  obtain n where n: "0 < n" and s: "s = \<lparr>lfq = QueueCAS_new n (\<lambda>_. True), ppc = PIdle, cpc = CIdle,
    tries = 0, sent = [], got = []\<rparr>" using assms by (auto simp: lfs_start_def)
  obtain d fs where "lf_rel (QueueCAS_new n (\<lambda>_. True) :: 'a QueueCAS) d [] fs"
    using lf_rel_new [OF n, of "\<lambda>_. True"] by auto
  then have "lfs_shape (QueueCAS_new n (\<lambda>_. True) :: 'a QueueCAS) [d] fs []"
    using npath_nonzero by (fastforce simp: lf_rel_def lfs_shape_def)
  then show ?thesis
    by (intro lfs_invI [of _ "[d]" fs]) (simp_all add: s p_own_def c_own_def p_inv_def c_inv_def way_def)
qed

lemma lfs_step_inv: "lfs_inv s \<Longrightarrow> lfs_step s r \<Longrightarrow> \<exists>s'. r = Inr s' \<and> lfs_inv s'"
proof (erule lfs_stepE)
  fix x
  assume "lfs_inv s" "r = Inr (s\<lparr>ppc := PPop x\<rparr>)" "ppc s = PIdle"
  then show ?thesis unfolding lfs_inv_def by (auto simp: p_inv_def p_own_def)
next
  fix k
  assume a: "lfs_inv s" "r = Inr (s\<lparr>cpc := CHead, tries := k\<rparr>)" "cpc s = CIdle"
  then show ?thesis unfolding lfs_inv_def by (auto simp: c_inv_def c_own_def way_def)
qed (auto intro: spsc_enqueue_step_inv spsc_dequeue_step_inv)

interpretation lfsp: safe_system lfs_start lfs_step lfs_inv
  by unfold_locales (auto intro: lfs_start_inv lfs_step_inv)

lemma concat_Some:
  "\<forall>a\<in>set xs. f a \<noteq> None \<Longrightarrow>
    concat (map (\<lambda>x. case f x of None \<Rightarrow> [] | Some y \<Rightarrow> [y]) xs) = map (\<lambda>a. the (f a)) xs"
  by (induction xs) auto

lemma way_dump:
  assumes "lfs_shape q ds fs os" and "\<forall>h n. c \<noteq> CTake h n"
  shows "way q c ds = dump q"
proof -
  have np: "npath (nodes q) (qnext (nodes q (qhead q))) (tl ds)" "\<forall>a\<in>set (tl ds). elem (nodes q a) \<noteq> None"
    "distinct (tl ds)" "\<forall>a\<in>set (tl ds). 0 < a \<and> a < nbrk q"
    using assms(1) by (cases ds; auto simp: lfs_shape_def)+
  have "length (tl ds) \<le> nbrk q" using np(3,4) by (rule card_bounded_distinct)
  then have "dump q = concat (map (\<lambda>x. case elem (nodes q x) of None \<Rightarrow> [] | Some y \<Rightarrow> [y]) (tl ds))"
    by (simp add: dump_def dump_loop_path [OF np(1)])
  also have "\<dots> = map (\<lambda>a. the (elem (nodes q a))) (tl ds)"
    by (rule concat_Some [OF np(2)])
  finally show ?thesis using assms(2) by (auto simp: way_def split: cpc.splits)
qed


text \<open>A schedule: \<open>True\<close> for a step of the consumer, \<open>False\<close> for one of the producer.\<close>

primrec run_lfs :: "bool list \<Rightarrow> 'a lfsys \<Rightarrow> 'a lfsys res" where
  "run_lfs [] s = Inr s"
| "run_lfs (c # cs) s =
     (if c then bnd (spsc_dequeue_step True s) (run_lfs cs) else run_lfs cs (spsc_enqueue_step True s))"

lemma run_lfs_reach: "run_lfs cs s = Inr s' \<Longrightarrow> reach lfs_start lfs_step s \<Longrightarrow> reach lfs_start lfs_step s'"
proof (induction cs arbitrary: s)
  case (Cons c cs)
  show ?case
  proof (cases c)
    case True
    with Cons.prems obtain t where "spsc_dequeue_step True s = Inr t" "run_lfs cs t = Inr s'"
      by (auto simp: bnd_eq_Inr_iff)
    then show ?thesis using Cons.IH [of t] reach_step [OF Cons.prems(2), of t] consumer [of s True] by simp
  next
    case False
    then show ?thesis
      using Cons reach_step [OF Cons.prems(2) producer, of False] reach_step [OF Cons.prems(2) producer]
      by auto
  qed
qed simp

definition lfs_demo :: "nat lfsys" where
  "lfs_demo = \<lparr>lfq = QueueCAS_new 2 (\<lambda>_. True), ppc = PPop 7, cpc = CHead, tries = 4, sent = [], got = []\<rparr>"

definition demo_schedule :: "bool list" where
  "demo_schedule = replicate 10 False @ replicate 21 True"


end
