(* ===== verification/Lock_Guards.thy ===== *)
theory Lock_Guards
  imports Step_System
begin

text \<open>
  The mutex wrapper of \<open>inc/os/Mutex.hpp\<close> and its guards \<open>LockGuard\<close> and \<open>AutoMutex\<close>
  (\<open>inc/os/AutoMutex.hpp\<close>), on the POSIX branch. A mutex of the system library is its kind, its
  holder and the depth of the holder's locks, with the behaviour POSIX documents; what POSIX leaves
  undefined is the fault \<open>Undefined\<close>. Threads are numbers. A lock that has to wait is \<open>None\<close>.
\<close>

subsection \<open>The mutex of the system library\<close>

datatype pkind = KDefault | KNormal | KRecursive | KErrorcheck

record pmutex =
  kind :: pkind
  holder :: "nat option"
  depth :: nat

definition EPERM :: int where "EPERM = 1"
definition EBUSY :: int where "EBUSY = 16"
definition EDEADLK :: int where "EDEADLK = 35"

definition pthread_mutex_lock :: "nat \<Rightarrow> pmutex \<Rightarrow> (int \<times> pmutex) option res" where
  "pthread_mutex_lock t m =
     (case holder m of
        None \<Rightarrow> Inr (Some (0, m\<lparr>holder := Some t, depth := 1\<rparr>))
      | Some u \<Rightarrow>
          if u \<noteq> t then Inr None
          else case kind m of
            KRecursive \<Rightarrow> Inr (Some (0, m\<lparr>depth := Suc (depth m)\<rparr>))
          | KErrorcheck \<Rightarrow> Inr (Some (EDEADLK, m))
          | KNormal \<Rightarrow> Inr None
          | KDefault \<Rightarrow> Inl Undefined)"

definition pthread_mutex_trylock :: "nat \<Rightarrow> pmutex \<Rightarrow> int \<times> pmutex" where
  "pthread_mutex_trylock t m =
     (case holder m of
        None \<Rightarrow> (0, m\<lparr>holder := Some t, depth := 1\<rparr>)
      | Some u \<Rightarrow>
          if u = t \<and> kind m = KRecursive then (0, m\<lparr>depth := Suc (depth m)\<rparr>) else (EBUSY, m))"

definition pthread_mutex_unlock :: "nat \<Rightarrow> pmutex \<Rightarrow> (int \<times> pmutex) res" where
  "pthread_mutex_unlock t m =
     (if holder m = Some t then
        Inr (0, if depth m \<le> 1 then m\<lparr>holder := None, depth := 0\<rparr> else m\<lparr>depth := depth m - 1\<rparr>)
      else if kind m = KRecursive \<or> kind m = KErrorcheck then Inr (EPERM, m)
      else Inl Undefined)"

subsection \<open>The wrapper\<close>

datatype MutexType =
    PTHREAD_MUTEX_TIMED_NP
  | PTHREAD_MUTEX_ADAPTIVE_NP
  | PTHREAD_MUTEX_RECURSIVE_NP
  | PTHREAD_MUTEX_ERRORCHECK_NP

record Mutex =
  mMutex :: pmutex
  mMutexType :: MutexType

definition Mutex_new :: "MutexType \<Rightarrow> Mutex" where
  "Mutex_new type =
     (let initType =
        (if type = PTHREAD_MUTEX_TIMED_NP then KDefault
         else if type = PTHREAD_MUTEX_ADAPTIVE_NP then KNormal
         else if type = PTHREAD_MUTEX_RECURSIVE_NP then KRecursive
         else KErrorcheck)
      in \<lparr>mMutex = \<lparr>kind = initType, holder = None, depth = 0\<rparr>, mMutexType = type\<rparr>)"

text \<open>The result of \<open>pthread_mutex_lock\<close> is dropped, as in the code.\<close>

definition Mutex_lock :: "nat \<Rightarrow> Mutex \<Rightarrow> Mutex option res" where
  "Mutex_lock t m =
     bnd (pthread_mutex_lock t (mMutex m)) (\<lambda>r.
       Inr (map_option (\<lambda>(_, p). m\<lparr>mMutex := p\<rparr>) r))"

definition Mutex_trylock :: "nat \<Rightarrow> Mutex \<Rightarrow> int \<times> Mutex" where
  "Mutex_trylock t m =
     (let (rc, p) = pthread_mutex_trylock t (mMutex m); ret = (rc = 0)
      in (if ret then 0 else -1, m\<lparr>mMutex := p\<rparr>))"

definition Mutex_unlock :: "nat \<Rightarrow> Mutex \<Rightarrow> Mutex res" where
  "Mutex_unlock t m = bnd (pthread_mutex_unlock t (mMutex m)) (\<lambda>(_, p). Inr (m\<lparr>mMutex := p\<rparr>))"

text \<open>The destructor: destroying a locked mutex is undefined.\<close>

definition Mutex_delete :: "Mutex \<Rightarrow> unit res" where
  "Mutex_delete m = (if holder (mMutex m) = None then Inr () else Inl Undefined)"

definition getMutexType :: "Mutex \<Rightarrow> MutexType" where
  "getMutexType m = mMutexType m"

text \<open>The guards: the constructor locks, the destructor unlocks. \<open>AutoMutex\<close> takes a pointer.\<close>

definition LockGuard_enter :: "('m \<Rightarrow> 'm option res) \<Rightarrow> 'm \<Rightarrow> 'm option res" where
  "LockGuard_enter lck m = lck m"

definition LockGuard_leave :: "('m \<Rightarrow> 'm res) \<Rightarrow> 'm \<Rightarrow> 'm res" where
  "LockGuard_leave unlck m = unlck m"

definition AutoMutex_enter :: "nat \<Rightarrow> Mutex option \<Rightarrow> Mutex option option res" where
  "AutoMutex_enter t pMutex =
     (case pMutex of
        None \<Rightarrow> Inr (Some None)
      | Some m \<Rightarrow> bnd (Mutex_lock t m) (\<lambda>r. Inr (map_option Some r)))"

definition AutoMutex_leave :: "nat \<Rightarrow> Mutex option \<Rightarrow> Mutex option res" where
  "AutoMutex_leave t pMutex =
     (case pMutex of
        None \<Rightarrow> Inr None
      | Some m \<Rightarrow> bnd (Mutex_unlock t m) (\<lambda>m. Inr (Some m)))"

subsection \<open>Guards give the mutex back\<close>

text \<open>A program as a sequence of guarded blocks, nested like the scopes of the language.\<close>

datatype scope = Block "scope list"

text \<open>One thread runs its scopes; \<open>None\<close> says that it waits for ever.\<close>

fun run_scopes :: "('m \<Rightarrow> 'm option res) \<Rightarrow> ('m \<Rightarrow> 'm res) \<Rightarrow> scope list \<Rightarrow> 'm \<Rightarrow> 'm option res" where
  "run_scopes lck unlck [] m = Inr (Some m)"
| "run_scopes lck unlck (Block b # rest) m =
     bnd (LockGuard_enter lck m) (\<lambda>r.
       case r of
         None \<Rightarrow> Inr None
       | Some m \<Rightarrow>
           bnd (run_scopes lck unlck b m) (\<lambda>r.
             case r of
               None \<Rightarrow> Inr None
             | Some m \<Rightarrow> bnd (LockGuard_leave unlck m) (run_scopes lck unlck rest)))"

locale lockable =
  fixes inv :: "'m \<Rightarrow> bool"
    and lck :: "'m \<Rightarrow> 'm option res"
    and unlck :: "'m \<Rightarrow> 'm res"
  assumes lock_law: "inv m \<Longrightarrow> \<exists>m'. lck m = Inr (Some m') \<and> inv m' \<and> unlck m' = Inr m"
begin

lemma scopes_restore: "inv m \<Longrightarrow> run_scopes lck unlck b m = Inr (Some m)"
proof (induction b arbitrary: m rule: measure_induct_rule [of "size_list size"])
  case (less b)
  show ?case
  proof (cases b)
    case Nil
    then show ?thesis by simp
  next
    case (Cons x rest)
    obtain c where x: "x = Block c" by (cases x)
    from lock_law [OF less.prems] obtain m' where m': "lck m = Inr (Some m')" "inv m'"
      "unlck m' = Inr m" by blast
    have "run_scopes lck unlck c m' = Inr (Some m')" using less.IH [of c m'] Cons x m' by simp
    moreover have "run_scopes lck unlck rest m = Inr (Some m)"
      using less.IH [of rest m] less.prems Cons x by simp
    ultimately show ?thesis using Cons x m' by (simp add: LockGuard_enter_def LockGuard_leave_def)
  qed
qed

end

definition mutex_free_for :: "nat \<Rightarrow> Mutex \<Rightarrow> bool" where
  "mutex_free_for t m \<longleftrightarrow> kind (mMutex m) = KRecursive \<and>
     (holder (mMutex m) = None \<and> depth (mMutex m) = 0 \<or>
      holder (mMutex m) = Some t \<and> 0 < depth (mMutex m))"

interpretation recm: lockable "mutex_free_for t" "Mutex_lock t" "Mutex_unlock t" for t
  by unfold_locales
    (auto simp: mutex_free_for_def Mutex_lock_def Mutex_unlock_def pthread_mutex_lock_def
      pthread_mutex_unlock_def)

text \<open>So code in which scopes guarded by a recursive mutex are nested leaves the mutex as it was.\<close>

lemma LockGuard_scopes:
  "mutex_free_for t m \<Longrightarrow> run_scopes (Mutex_lock t) (Mutex_unlock t) b m = Inr (Some m)"
  by (rule recm.scopes_restore)

subsection \<open>Mutual exclusion\<close>

text \<open>
  Threads that enter and leave scopes guarded by one mutex, each only its own scopes. A thread goes
  into a scope inside another only with a recursive mutex, as \<open>MsgLooper::loop\<close> does with \<open>mMutex\<close>.
\<close>

record gsys =
  gMutex :: Mutex
  scopes :: "nat \<Rightarrow> nat"

definition guard_enter :: "nat \<Rightarrow> gsys \<Rightarrow> gsys res" where
  "guard_enter t s =
     bnd (AutoMutex_enter t (Some (gMutex s))) (\<lambda>r.
       case r of
         None \<Rightarrow> Inr s
       | Some None \<Rightarrow> Inr s
       | Some (Some m) \<Rightarrow> Inr (s\<lparr>gMutex := m, scopes := (scopes s)(t := Suc (scopes s t))\<rparr>))"

definition guard_leave :: "nat \<Rightarrow> gsys \<Rightarrow> gsys res" where
  "guard_leave t s =
     bnd (AutoMutex_leave t (Some (gMutex s))) (\<lambda>r.
       case r of
         None \<Rightarrow> Inr s
       | Some m \<Rightarrow> Inr (s\<lparr>gMutex := m, scopes := (scopes s)(t := scopes s t - 1)\<rparr>))"

inductive guard_step :: "gsys \<Rightarrow> gsys res \<Rightarrow> bool" where
  enter: "scopes s t = 0 \<or> getMutexType (gMutex s) = PTHREAD_MUTEX_RECURSIVE_NP \<Longrightarrow>
    guard_step s (guard_enter t s)"
| leave: "0 < scopes s t \<Longrightarrow> guard_step s (guard_leave t s)"

definition guard_start :: "gsys \<Rightarrow> bool" where
  "guard_start s \<longleftrightarrow> (\<exists>ty. s = \<lparr>gMutex = Mutex_new ty, scopes = (\<lambda>_. 0)\<rparr>)"

text \<open>
  The mutex of kind \<open>kind_of ty\<close> is free and nobody is inside, or one thread holds it as often as it
  is inside.
\<close>

definition kind_of :: "MutexType \<Rightarrow> pkind" where
  "kind_of ty = kind (mMutex (Mutex_new ty))"

definition inside :: "nat \<Rightarrow> MutexType \<Rightarrow> nat \<Rightarrow> gsys" where
  "inside t ty n = \<lparr>gMutex = \<lparr>mMutex = \<lparr>kind = kind_of ty, holder = (if n = 0 then None else Some t),
     depth = n\<rparr>, mMutexType = ty\<rparr>, scopes = (\<lambda>_. 0)(t := n)\<rparr>"

definition guard_inv :: "gsys \<Rightarrow> bool" where
  "guard_inv s \<longleftrightarrow> (\<exists>t ty n. s = inside t ty n \<and> (n \<le> 1 \<or> ty = PTHREAD_MUTEX_RECURSIVE_NP))"

lemmas guard_defs = Mutex_lock_def Mutex_unlock_def pthread_mutex_lock_def pthread_mutex_unlock_def
  AutoMutex_enter_def AutoMutex_leave_def getMutexType_def guard_enter_def guard_leave_def inside_def

lemma inside_0: "inside t ty 0 = inside u ty 0"
  by (simp add: inside_def fun_eq_iff)

lemma guard_enter_free: "guard_enter t (inside u ty 0) = Inr (inside t ty 1)"
  by (simp add: guard_defs fun_eq_iff)

lemma guard_enter_other: "0 < n \<Longrightarrow> t \<noteq> u \<Longrightarrow> guard_enter t (inside u ty n) = Inr (inside u ty n)"
  by (simp add: guard_defs)

lemma guard_enter_again:
  "0 < n \<Longrightarrow> guard_enter t (inside t PTHREAD_MUTEX_RECURSIVE_NP n) =
    Inr (inside t PTHREAD_MUTEX_RECURSIVE_NP (Suc n))"
  by (simp add: guard_defs kind_of_def Mutex_new_def)

lemma guard_leave_inside: "0 < n \<Longrightarrow> guard_leave t (inside t ty n) = Inr (inside t ty (n - 1))"
  by (simp add: guard_defs)

lemma inside_simps [simp]:
  "scopes (inside t ty n) u = (if u = t then n else 0)" "getMutexType (gMutex (inside t ty n)) = ty"
  "holder (mMutex (gMutex (inside t ty n))) = (if n = 0 then None else Some t)"
  by (simp_all add: inside_def getMutexType_def)

lemma guard_invI: "n \<le> 1 \<or> ty = PTHREAD_MUTEX_RECURSIVE_NP \<Longrightarrow> guard_inv (inside t ty n)"
  by (auto simp: guard_inv_def)

lemma guard_enter_inv:
  assumes "guard_inv s" and "scopes s t = 0 \<or> getMutexType (gMutex s) = PTHREAD_MUTEX_RECURSIVE_NP"
  shows "\<exists>s'. guard_enter t s = Inr s' \<and> guard_inv s'"
proof -
  obtain u ty n where s: "s = inside u ty n" "n \<le> 1 \<or> ty = PTHREAD_MUTEX_RECURSIVE_NP"
    using assms(1) by (auto simp: guard_inv_def)
  consider "n = 0" | "0 < n" "t \<noteq> u" | "0 < n" "t = u" by auto
  then show ?thesis
  proof cases
    case 1
    with s show ?thesis by (auto simp: guard_enter_free intro: guard_invI)
  next
    case 2
    with s assms(1) show ?thesis by (auto simp: guard_enter_other)
  next
    case 3
    with s assms(2) show ?thesis by (auto simp: guard_enter_again intro: guard_invI)
  qed
qed

lemma guard_leave_inv:
  assumes "guard_inv s" and "0 < scopes s t"
  shows "\<exists>s'. guard_leave t s = Inr s' \<and> guard_inv s'"
proof -
  obtain u ty n where s: "s = inside u ty n" "n \<le> 1 \<or> ty = PTHREAD_MUTEX_RECURSIVE_NP"
    using assms(1) by (auto simp: guard_inv_def)
  then have "t = u" "0 < n" using assms(2) by (auto split: if_splits)
  with s show ?thesis by (auto simp: guard_leave_inside intro: guard_invI)
qed

interpretation guardp: safe_system guard_start guard_step guard_inv
proof (unfold_locales, goal_cases)
  case (1 s)
  then obtain ty where "s = \<lparr>gMutex = Mutex_new ty, scopes = (\<lambda>_. 0)\<rparr>" by (auto simp: guard_start_def)
  then have "s = inside 0 ty 0" by (simp add: inside_def kind_of_def Mutex_new_def fun_eq_iff)
  then show ?case by (simp add: guard_invI)
next
  case (2 s r)
  from 2(2) show ?case
    by cases (use 2(1) guard_enter_inv guard_leave_inv in blast)+
qed


definition sample_gsys :: gsys where
  "sample_gsys = inside 3 PTHREAD_MUTEX_RECURSIVE_NP 2"


text \<open>
  An error-checking mutex breaks this when a thread nests scopes: the inner lock fails, which
  \<open>Mutex::lock\<close> does not report, and the inner guard then gives up the lock of the outer scope.
\<close>

definition errorcheck_run :: "gsys res" where
  "errorcheck_run =
     bnd (guard_enter 1 \<lparr>gMutex = Mutex_new PTHREAD_MUTEX_ERRORCHECK_NP, scopes = (\<lambda>_. 0)\<rparr>) (\<lambda>s.
     bnd (guard_enter 1 s) (\<lambda>s. bnd (guard_leave 1 s) (guard_enter 2)))"

lemma errorcheck_both_inside:
  "\<exists>s. errorcheck_run = Inr s \<and> scopes s 1 = 1 \<and> scopes s 2 = 1"
  by (simp add: errorcheck_run_def guard_defs Mutex_new_def)

end
