(* ===== verification/Semaphores.thy ===== *)
theory Semaphores
  imports Step_System
begin

text \<open>
  The semaphore wrapper of \<open>inc/os/Semaphore.hpp\<close> on the Linux branch and its guard
  \<open>inc/os/SemSyncLock.hpp\<close>. The semaphore of the system is its value. What a system call answers
  is an argument of the model: \<open>Taken\<close> (possible only with a permit; without one the caller is still
  waiting, which is \<open>None\<close>), \<open>Interrupted\<close> by a signal (\<open>-1\<close> with \<open>EINTR\<close>) or, for the timed
  wait, \<open>TimedOut\<close> (\<open>-1\<close> with \<open>ETIMEDOUT\<close> in \<open>errno\<close>). \<open>mCount\<close> is the wrapper's own 32-bit counter.
\<close>

datatype answer = Taken | Interrupted | TimedOut

record Semaphore =
  mSemaphore :: nat
  sCount :: "32 word"

definition Semaphore_new :: "32 word \<Rightarrow> Semaphore" where
  "Semaphore_new initCount = \<lparr>mSemaphore = unat initCount, sCount = initCount\<rparr>"

text \<open>The system calls.\<close>

definition sem_take :: "answer \<Rightarrow> Semaphore \<Rightarrow> (int \<times> Semaphore) option" where
  "sem_take a s =
     (case a of
        Taken \<Rightarrow> if mSemaphore s = 0 then None else Some (0, s\<lparr>mSemaphore := mSemaphore s - 1\<rparr>)
      | _ \<Rightarrow> Some (-1, s))"

definition ETIMEDOUT :: int where "ETIMEDOUT = 110"

text \<open>\<open>wait(void)\<close>: interrupted calls are repeated; the list is what the calls answer.\<close>

primrec wait_void :: "answer list \<Rightarrow> Semaphore \<Rightarrow> (bool \<times> Semaphore) option" where
  "wait_void [] s = None"
| "wait_void (a # as) s =
     (case sem_take a s of
        None \<Rightarrow> None
      | Some (rc, s) \<Rightarrow>
          if rc = -1 then wait_void as s else Some (rc = 0, s\<lparr>sCount := sCount s - 1\<rparr>))"

text \<open>The absolute time of the timed wait, from the time of day in seconds and microseconds.\<close>

definition out_time :: "int \<Rightarrow> int \<Rightarrow> int \<Rightarrow> int \<times> int" where
  "out_time tv_sec tv_usec timeoutMs =
     (let nsec = tv_usec * 1000 + (timeoutMs mod 1000) * 1000000
      in (tv_sec + nsec div 1000000000 + timeoutMs div 1000, nsec mod 1000000000))"

definition wait_ms :: "int \<Rightarrow> answer \<Rightarrow> Semaphore \<Rightarrow> (bool \<times> Semaphore) option" where
  "wait_ms timeoutMs a s =
     (if timeoutMs < 0 then
        map_option (\<lambda>(ret, s). (ret = 0 \<or> ret = ETIMEDOUT, s\<lparr>sCount := sCount s - 1\<rparr>)) (sem_take a s)
      else if timeoutMs = 0 then Some (True, s)
      else
        map_option (\<lambda>(ret, s).
          (ret = 0 \<or> ret = ETIMEDOUT,
           if ret \<noteq> 0 \<and> ret \<noteq> ETIMEDOUT then s else s\<lparr>sCount := sCount s - 1\<rparr>)) (sem_take a s))"

definition tryWait :: "Semaphore \<Rightarrow> bool \<times> Semaphore" where
  "tryWait s =
     (if mSemaphore s = 0 then (False, s)
      else (True, s\<lparr>mSemaphore := mSemaphore s - 1, sCount := sCount s - 1\<rparr>))"

primrec sem_posts :: "nat \<Rightarrow> Semaphore \<Rightarrow> Semaphore" where
  "sem_posts 0 s = s"
| "sem_posts (Suc n) s = sem_posts n (s\<lparr>mSemaphore := Suc (mSemaphore s)\<rparr>)"

definition sem_post_count :: "32 word \<Rightarrow> Semaphore \<Rightarrow> bool \<times> Semaphore" where
  "sem_post_count count s =
     (if count = 0 then (True, s)
      else (True, sem_posts (unat count) (s\<lparr>sCount := sCount s + count\<rparr>)))"

definition getValue :: "Semaphore \<Rightarrow> nat" where
  "getValue s = mSemaphore s"

definition sem_sendMessage :: "32 word \<Rightarrow> Semaphore \<Rightarrow> int \<times> Semaphore" where
  "sem_sendMessage count s = (let (b, s) = sem_post_count count s in (if b then 0 else -1, s))"

subsection \<open>The time of a timed wait\<close>

lemma out_time_exact:
  assumes "0 \<le> usec" and "0 \<le> ms" and "out_time sec usec ms = (s, ns)"
  shows "0 \<le> ns \<and> ns < 1000000000 \<and>
    s * 1000000000 + ns = sec * 1000000000 + usec * 1000 + ms * 1000000"
proof -
  let ?n = "usec * 1000 + (ms mod 1000) * 1000000"
  have s: "s = sec + ?n div 1000000000 + ms div 1000" "ns = ?n mod 1000000000"
    using assms(3) by (simp_all add: out_time_def Let_def)
  have "?n div 1000000000 * 1000000000 + ns = ?n" using s(2) by simp
  moreover have "ms div 1000 * 1000 + ms mod 1000 = ms" by simp
  ultimately have "s * 1000000000 + ns = sec * 1000000000 + usec * 1000 + ms * 1000000"
    using s(1) by linarith
  then show ?thesis using s(2) by simp
qed

subsection \<open>The value and the counter\<close>

datatype sem_op =
    SWait "answer list"
  | SWaitMs int answer
  | STry
  | SPost "32 word"

text \<open>One completed call, and the number of permits it reported as taken.\<close>

definition sem_call :: "sem_op \<Rightarrow> Semaphore \<Rightarrow> (bool \<times> Semaphore) option" where
  "sem_call op s =
     (case op of
        SWait as \<Rightarrow> wait_void as s
      | SWaitMs ms a \<Rightarrow> wait_ms ms a s
      | STry \<Rightarrow> Some (tryWait s)
      | SPost n \<Rightarrow> Some (sem_post_count n s))"

fun interrupted_forever :: "sem_op \<Rightarrow> bool" where
  "interrupted_forever (SWaitMs ms a) = (ms < 0 \<and> a \<noteq> Taken)"
| "interrupted_forever _ = False"

primrec run_sem :: "sem_op list \<Rightarrow> Semaphore \<Rightarrow> Semaphore option" where
  "run_sem [] s = Some s"
| "run_sem (op # ops) s = (case sem_call op s of None \<Rightarrow> None | Some (_, s) \<Rightarrow> run_sem ops s)"

lemma sem_posts_fields: "sem_posts n s = s\<lparr>mSemaphore := mSemaphore s + n\<rparr>"
  by (induction n arbitrary: s) simp_all

lemma wait_void_balance:
  "wait_void as s = Some (b, s') \<Longrightarrow>
    b \<and> mSemaphore s = Suc (mSemaphore s') \<and> sCount s' = sCount s - 1"
proof (induction as arbitrary: s)
  case (Cons a as)
  show ?case
  proof (cases a)
    case Taken
    have "mSemaphore s \<noteq> 0" "b" "s' = s\<lparr>mSemaphore := mSemaphore s - 1, sCount := sCount s - 1\<rparr>"
      using Cons.prems Taken by (simp_all add: sem_take_def split: if_splits)
    then show ?thesis by simp
  qed (rule Cons.IH, use Cons.prems in \<open>simp add: sem_take_def\<close>)+
qed simp

text \<open>The gap between the counter and the value: it grows by one with every interrupted wait.\<close>

definition gap :: "Semaphore \<Rightarrow> 32 word" where
  "gap s = of_nat (mSemaphore s) - sCount s"

lemma sem_call_gap:
  assumes "sem_call op s = Some (b, s')"
  shows "gap s' = gap s + (if interrupted_forever op then 1 else 0)"
proof (cases op)
  case (SWait as)
  with assms have "mSemaphore s = Suc (mSemaphore s')" "sCount s' = sCount s - 1"
    using wait_void_balance by (simp_all add: sem_call_def)
  then show ?thesis using SWait by (simp add: gap_def)
next
  case (SWaitMs ms a)
  with assms show ?thesis
    by (cases a) (auto simp: sem_call_def wait_ms_def sem_take_def gap_def ETIMEDOUT_def of_nat_diff
      split: if_splits)
next
  case STry
  with assms show ?thesis by (auto simp: sem_call_def tryWait_def gap_def of_nat_diff split: if_splits)
next
  case (SPost n)
  with assms show ?thesis
    by (auto simp: sem_call_def sem_post_count_def sem_posts_fields gap_def split: if_splits)
qed

text \<open>The wrapper's counter and the value of the semaphore drift apart by exactly the number of
  waits without a limit that a signal interrupted: \<open>wait(-1)\<close> counts a permit it did not get. With
  no interruption they stay equal, modulo the width of the counter.\<close>
theorem semaphore_count_drift:
  assumes "run_sem ops (Semaphore_new n) = Some s"
  shows "sCount s + of_nat (length (filter interrupted_forever ops)) = of_nat (getValue s)"
proof -
  have "gap s' = gap r + of_nat (length (filter interrupted_forever ops))"
    if "run_sem ops r = Some s'" for ops r s'
    using that
  proof (induction ops arbitrary: r)
    case (Cons op ops)
    then obtain b q where q: "sem_call op r = Some (b, q)" "run_sem ops q = Some s'"
      by (auto split: option.splits)
    show ?case using Cons.IH [OF q(2)] sem_call_gap [OF q(1)] by simp
  qed simp
  from this [OF assms] have "gap s = of_nat (length (filter interrupted_forever ops))"
    by (simp add: gap_def Semaphore_new_def)
  then show ?thesis by (simp add: gap_def getValue_def algebra_simps)
qed

definition sample_sem_ops :: "sem_op list" where
  "sample_sem_ops = [SPost 2, SWait [Interrupted, Taken], SWaitMs (-1) Interrupted, SWaitMs 10 TimedOut]"

theorem semaphore_count_drift_witness:
  "\<exists>s. run_sem sample_sem_ops (Semaphore_new 0) = Some s \<and> getValue s = 1 \<and> sCount s = 0"
proof -
  let ?s = "\<lparr>mSemaphore = 1, sCount = 0\<rparr>"
  have r: "run_sem sample_sem_ops (Semaphore_new 0) = Some ?s"
    by (simp add: sample_sem_ops_def sem_call_def sem_post_count_def sem_posts_fields sem_take_def
      wait_ms_def Semaphore_new_def ETIMEDOUT_def)
  from semaphore_count_drift [OF r] r show ?thesis by (simp add: getValue_def)
qed

subsection \<open>The guard\<close>

definition SemSyncLock_enter :: "answer \<Rightarrow> Semaphore option \<Rightarrow> Semaphore option option" where
  "SemSyncLock_enter a sem =
     (case sem of
        None \<Rightarrow> Some None
      | Some s \<Rightarrow> map_option (\<lambda>(_, s). Some s) (wait_ms (-1) a s))"

definition SemSyncLock_leave :: "Semaphore option \<Rightarrow> Semaphore option" where
  "SemSyncLock_leave sem =
     (case sem of None \<Rightarrow> None | Some s \<Rightarrow> Some (snd (sem_sendMessage 1 s)))"

text \<open>
  Any number of threads that enter and leave scopes guarded by one semaphore: how many are inside,
  how many of those entries a signal interrupted, and the count the semaphore was made with.
\<close>

record semsys =
  sem :: Semaphore
  sInside :: nat
  sInterrupted :: nat
  sInit :: nat

inductive sem_step :: "semsys \<Rightarrow> semsys res \<Rightarrow> bool" where
  enter: "SemSyncLock_enter a (Some (sem s)) = Some (Some q) \<Longrightarrow>
    sem_step s (Inr (s\<lparr>sem := q, sInside := Suc (sInside s),
      sInterrupted := (if a = Taken then sInterrupted s else Suc (sInterrupted s))\<rparr>))"
| leave: "0 < sInside s \<Longrightarrow> SemSyncLock_leave (Some (sem s)) = Some q \<Longrightarrow>
    sem_step s (Inr (s\<lparr>sem := q, sInside := sInside s - 1\<rparr>))"

definition sem_start :: "semsys \<Rightarrow> bool" where
  "sem_start s \<longleftrightarrow> (\<exists>n. s = \<lparr>sem = Semaphore_new n, sInside = 0, sInterrupted = 0, sInit = unat n\<rparr>)"

definition sem_inv :: "semsys \<Rightarrow> bool" where
  "sem_inv s \<longleftrightarrow> mSemaphore (sem s) + sInside s = sInit s + sInterrupted s"

interpretation semp: safe_system sem_start sem_step sem_inv
proof (unfold_locales, goal_cases)
  case (1 s)
  then show ?case by (auto simp: sem_start_def sem_inv_def Semaphore_new_def)
next
  case (2 s r)
  from 2(2,1) show ?case
  proof cases
    case (enter a q)
    then show ?thesis using 2(1)
      by (cases a) (auto simp: SemSyncLock_enter_def wait_ms_def sem_take_def sem_inv_def split: if_splits)
  next
    case (leave q)
    then show ?thesis using 2(1)
      by (auto simp: SemSyncLock_leave_def sem_sendMessage_def sem_post_count_def sem_posts_fields
        sem_inv_def)
  qed
qed

text \<open>The threads inside scopes guarded by a semaphore and its free permits add up to its initial
  count plus the entries that were interrupted by a signal: without signals never more threads are
  inside than permits were given, and each interrupted entry lets one more in.\<close>
theorem SemSyncLock_bound:
  assumes "reach sem_start sem_step s"
  shows "mSemaphore (sem s) + sInside s = sInit s + sInterrupted s \<and>
    sInside s \<le> sInit s + sInterrupted s"
  using semp.reach_inv [OF assms] by (simp add: sem_inv_def)

definition sample_semsys :: semsys where
  "sample_semsys = \<lparr>sem = \<lparr>mSemaphore = 0, sCount = -1\<rparr>, sInside = 2, sInterrupted = 1, sInit = 1\<rparr>"

theorem SemSyncLock_bound_witness:
  "sInside sample_semsys = 2 \<and> sInit sample_semsys = 1 \<and> sInside sample_semsys \<le> 1 + sInterrupted sample_semsys"
proof -
  let ?s0 = "\<lparr>sem = Semaphore_new 1, sInside = 0, sInterrupted = 0, sInit = 1\<rparr>"
  let ?s1 = "?s0\<lparr>sem := \<lparr>mSemaphore = 0, sCount = 0\<rparr>, sInside := 1\<rparr>"
  have "reach sem_start sem_step ?s0" by (rule reach_init) (auto simp: sem_start_def intro: exI [of _ 1])
  moreover have "sem_step ?s0 (Inr ?s1)"
    using sem_step.enter [of Taken ?s0 "\<lparr>mSemaphore = 0, sCount = 0\<rparr>"]
    by (simp add: SemSyncLock_enter_def wait_ms_def sem_take_def Semaphore_new_def)
  ultimately have "reach sem_start sem_step ?s1" by (rule reach_step)
  moreover have "sem_step ?s1 (Inr sample_semsys)"
    using sem_step.enter [of Interrupted ?s1 "\<lparr>mSemaphore = 0, sCount = -1\<rparr>"]
    by (simp add: SemSyncLock_enter_def wait_ms_def sem_take_def sample_semsys_def numeral_2_eq_2)
  ultimately have "reach sem_start sem_step sample_semsys" by (rule reach_step)
  from SemSyncLock_bound [OF this] show ?thesis by (simp add: sample_semsys_def)
qed

end
