(* ===== verification/Conditions.thy ===== *)
theory Conditions
  imports Lock_Guards Semaphores
begin

text \<open>
  The condition variable wrapper of \<open>inc/os/Condition.hpp\<close> on the POSIX branch and the task gate
  \<open>syncondLock\<close> of \<open>inc/os/CondSyncLock.hpp\<close>. A call of \<open>wait\<close> either returns at once, or blocks on
  the system's condition variable with a mutex, for ever or until an absolute time.
\<close>

datatype mutex_ptr = MUninit | MNull | MPtr Mutex

record Condition =
  mIsSelfMutex :: bool
  cMutex :: mutex_ptr
  mCondInit :: bool

definition waitable :: "MutexType \<Rightarrow> bool" where
  "waitable ty \<longleftrightarrow> ty = PTHREAD_MUTEX_TIMED_NP \<or> ty = PTHREAD_MUTEX_ADAPTIVE_NP"

definition Condition_new :: Condition where
  "Condition_new = \<lparr>mIsSelfMutex = True, cMutex = MPtr (Mutex_new PTHREAD_MUTEX_TIMED_NP), mCondInit = True\<rparr>"

text \<open>The constructor for a given mutex returns early for a wrong type and leaves the members unset.\<close>

definition Condition_of :: "Mutex option \<Rightarrow> Condition" where
  "Condition_of mutex =
     (case mutex of
        None \<Rightarrow> \<lparr>mIsSelfMutex = False, cMutex = MNull, mCondInit = True\<rparr>
      | Some m \<Rightarrow>
          if \<not> waitable (getMutexType m) then \<lparr>mIsSelfMutex = False, cMutex = MUninit, mCondInit = False\<rparr>
          else \<lparr>mIsSelfMutex = False, cMutex = MPtr m, mCondInit = True\<rparr>)"

function norm_time :: "int \<Rightarrow> int \<Rightarrow> int \<times> int" where
  "norm_time tv_sec tv_nsec =
     (if 1000000000 \<le> tv_nsec then norm_time (tv_sec + 1) (tv_nsec mod 1000000000)
      else (tv_sec, tv_nsec))"
  by pat_completeness auto

termination
proof (relation "measure (\<lambda>(s, n). nat n)", goal_cases)
  case (2 s n)
  then have "n mod 1000000000 < 1000000000" by simp
  with 2 have "nat (n mod 1000000000) < nat n" by linarith
  then show ?case by simp
qed simp

declare norm_time.simps [simp del]

definition abstime :: "int \<Rightarrow> int \<Rightarrow> int \<Rightarrow> int \<times> int" where
  "abstime tv_sec tv_nsec millisecond =
     norm_time (tv_sec + millisecond div 1000) (tv_nsec + (millisecond mod 1000) * 1000000)"

datatype wait_call = Returns int | Forever Mutex | Until "int \<times> int" Mutex

text \<open>
  The time of day is \<open>now\<close>. The branch with \<open>timeout\<close> reads a member \<open>tv_usec\<close> that a \<open>timespec\<close> does
  not have; its value is the argument \<open>usec\<close>.
\<close>

definition Condition_wait ::
  "int \<times> int \<Rightarrow> int \<Rightarrow> Mutex option \<Rightarrow> int \<Rightarrow> bool \<Rightarrow> Condition \<Rightarrow> wait_call res" where
  "Condition_wait now usec mutex millisecond timeout c =
     (if mutex = None \<and> cMutex c = MNull then Inr (Returns (-1))
      else if mutex = None \<and> cMutex c = MUninit then Inl Undefined
      else
        (let pmutex = (case mutex of Some m \<Rightarrow> m
           | None \<Rightarrow> (case cMutex c of MPtr m \<Rightarrow> m | _ \<Rightarrow> Mutex_new PTHREAD_MUTEX_TIMED_NP)) in
         if \<not> waitable (getMutexType pmutex) then Inr (Returns (-1))
         else if timeout \<and> millisecond < 0 then Inr (Returns (-1))
         else if millisecond = 0 then Inr (Returns 0)
         else if \<not> mCondInit c then Inl Undefined
         else if millisecond < 0 then Inr (Forever pmutex)
         else if timeout then
           (let nsec = usec * 1000 + (millisecond mod 1000) * 1000000
            in Inr (Until (fst now + nsec div 1000000000 + millisecond div 1000, nsec mod 1000000000) pmutex))
         else Inr (Until (abstime (fst now) (snd now) millisecond) pmutex)))"

subsection \<open>The time of a timed wait\<close>

lemma norm_time_eq:
  assumes "0 \<le> n" and "n < 2000000000"
  shows "norm_time s n = (s + n div 1000000000, n mod 1000000000)"
proof (cases "1000000000 \<le> n")
  case True
  have m: "(1000000000 \<le> n mod 1000000000) = False" by (simp add: not_le)
  have "n div 1000000000 = 1" using True assms(2) by (auto simp: div_pos_geq)
  then show ?thesis using True
    by (subst norm_time.simps, subst norm_time.simps) (simp add: m)
next
  case False
  then show ?thesis using assms(1) by (subst norm_time.simps) simp
qed

text \<open>The deadlines of timed waits are exact: Condition and Semaphore compute the same absolute
  time from the same time of day by different code, it is normalised, and it is the timeout after
  the time of day to the nanosecond.\<close>
theorem deadlines_exact:
  assumes "0 \<le> usec" and "usec < 1000000" and "0 \<le> ms"
  shows "abstime sec (usec * 1000) ms = out_time sec usec ms \<and>
    (case abstime sec (usec * 1000) ms of (s, ns) \<Rightarrow> 0 \<le> ns \<and> ns < 1000000000 \<and>
      s * 1000000000 + ns = sec * 1000000000 + usec * 1000 + ms * 1000000)"
proof -
  have "0 \<le> ms mod 1000" "ms mod 1000 < 1000" by simp_all
  then have "abstime sec (usec * 1000) ms = out_time sec usec ms"
    using assms norm_time_eq [of "usec * 1000 + ms mod 1000 * 1000000" "sec + ms div 1000"]
    by (simp add: abstime_def out_time_def Let_def)
  moreover obtain s ns where "out_time sec usec ms = (s, ns)" by fastforce
  ultimately show ?thesis using out_time_exact [OF assms(1,3)] by simp
qed

theorem deadlines_exact_witness:
  "abstime 10 (999999 * 1000) 1500 = out_time 10 999999 1500"
  using deadlines_exact [of 999999 1500 10] by simp

subsection \<open>The task gate\<close>

text \<open>
  Threads that call \<open>runTask\<close> and \<open>reset\<close>. A task runs with the mutex held, so a whole attempt is one
  step; a caller that finds the gate closed waits, is notified by \<open>reset\<close> or wakes spuriously, and
  tries again. Counted are the waiting and the notified callers, the tasks run and the resets.
\<close>

record syncondLock =
  mEnable :: bool
  gWaiting :: nat
  gNotified :: nat
  gRan :: nat
  gResets :: nat

definition syncondLock_new :: syncondLock where
  "syncondLock_new = \<lparr>mEnable = True, gWaiting = 0, gNotified = 0, gRan = 0, gResets = 0\<rparr>"

definition runTask :: "syncondLock \<Rightarrow> syncondLock" where
  "runTask s =
     (if \<not> mEnable s then s\<lparr>gWaiting := Suc (gWaiting s)\<rparr>
      else s\<lparr>gRan := Suc (gRan s), mEnable := False\<rparr>)"

definition gate_reset :: "syncondLock \<Rightarrow> syncondLock" where
  "gate_reset s = s\<lparr>mEnable := True, gNotified := gNotified s + gWaiting s, gWaiting := 0,
     gResets := Suc (gResets s)\<rparr>"

inductive gate_step :: "syncondLock \<Rightarrow> syncondLock res \<Rightarrow> bool" where
  run: "gate_step s (Inr (runTask s))"
| again: "0 < gNotified s \<Longrightarrow> gate_step s (Inr (runTask (s\<lparr>gNotified := gNotified s - 1\<rparr>)))"
| spurious: "0 < gWaiting s \<Longrightarrow>
    gate_step s (Inr (s\<lparr>gWaiting := gWaiting s - 1, gNotified := Suc (gNotified s)\<rparr>))"
| reset: "gate_step s (Inr (gate_reset s))"

definition gate_inv :: "syncondLock \<Rightarrow> bool" where
  "gate_inv s \<longleftrightarrow> (mEnable s \<longrightarrow> gWaiting s = 0) \<and> gRan s + (if mEnable s then 1 else 0) \<le> Suc (gResets s)"

interpretation gatep: safe_system "\<lambda>s. s = syncondLock_new" gate_step gate_inv
proof (unfold_locales, goal_cases)
  case (1 s)
  then show ?case by (simp add: gate_inv_def syncondLock_new_def)
next
  case (2 s r)
  from 2(2,1) show ?case
    by cases (auto simp: gate_inv_def runTask_def gate_reset_def)
qed

text \<open>C33: The gate lets at most one task through per opening, however many threads try and whatever
  wakes them: the tasks run never exceed the resets by more than one; and no caller sleeps
  un-notified while the gate is open.\<close>
theorem syncondLock_gate:
  assumes "reach (\<lambda>s. s = syncondLock_new) gate_step s"
  shows "gRan s \<le> Suc (gResets s) \<and> (mEnable s \<longrightarrow> gRan s \<le> gResets s \<and> gWaiting s = 0)"
  using gatep.reach_inv [OF assms] by (auto simp: gate_inv_def split: if_splits)

theorem syncondLock_gate_witness:
  "\<exists>s. reach (\<lambda>s. s = syncondLock_new) gate_step s \<and> gRan s = 1 \<and> gWaiting s = 1 \<and> gRan s \<le> Suc (gResets s)"
proof -
  have "reach (\<lambda>s. s = syncondLock_new) gate_step syncondLock_new" by (rule reach_init) simp
  then have "reach (\<lambda>s. s = syncondLock_new) gate_step (runTask syncondLock_new)"
    by (rule reach_step) (rule gate_step.run)
  then have r: "reach (\<lambda>s. s = syncondLock_new) gate_step (runTask (runTask syncondLock_new))"
    by (rule reach_step) (rule gate_step.run)
  from syncondLock_gate [OF r] r show ?thesis
    by (intro exI [of _ "runTask (runTask syncondLock_new)"]) (simp add: runTask_def syncondLock_new_def)
qed

end
