(* ===== verification/C_Stdio.thy ===== *)
theory C_Stdio
  imports Base_Prelude
begin

text \<open>
  The part of the C library's streams that the file classes use. The disk maps paths to bytes; a
  \<open>FILE*\<close> is the address of a stream with a path, a position and the end-of-file indicator. The
  assets of an Android package are a second, read-only map that streams made with \<open>funopen\<close> read.
  Using a stream that is not open is the fault \<open>Dangling\<close>. The system may refuse to open a path
  (\<open>denied\<close>), and a full disk takes no bytes (\<open>diskFull\<close>).
\<close>

record stream =
  spath :: string
  sAsset :: bool
  sRead :: bool
  sWrite :: bool
  sAppend :: bool
  spos :: nat
  sEof :: bool

record fsworld =
  disk :: "string \<Rightarrow> string option"
  assets :: "string \<Rightarrow> string option"
  denied :: "string \<Rightarrow> bool"
  diskFull :: bool
  streams :: "ptr \<Rightarrow> stream option"
  fbrk :: ptr

definition content :: "stream \<Rightarrow> fsworld \<Rightarrow> string" where
  "content s W =
     (case (if sAsset s then assets W (spath s) else disk W (spath s)) of None \<Rightarrow> [] | Some c \<Rightarrow> c)"

definition lds :: "ptr \<Rightarrow> fsworld \<Rightarrow> stream res" where
  "lds f W =
     (if f = 0 then Inl NullDeref
      else case streams W f of None \<Rightarrow> Inl Dangling | Some s \<Rightarrow> Inr s)"

definition sets :: "ptr \<Rightarrow> stream \<Rightarrow> fsworld \<Rightarrow> fsworld" where
  "sets f s W = W\<lparr>streams := (streams W)(f := Some s)\<rparr>"

definition new_stream :: "stream \<Rightarrow> fsworld \<Rightarrow> ptr \<times> fsworld" where
  "new_stream s W = (fbrk W, W\<lparr>streams := (streams W)(fbrk W := Some s), fbrk := Suc (fbrk W)\<rparr>)"

text \<open>
  The mode of \<open>fopen\<close> as the GNU library reads it: the first character decides, a \<open>+\<close> later asks for
  both directions, other characters are ignored.
\<close>

definition c_fopen :: "string \<Rightarrow> string \<Rightarrow> fsworld \<Rightarrow> ptr \<times> fsworld" where
  "c_fopen path mode W =
     (let plus = CHR ''+'' \<in> set (tl mode);
          s = \<lparr>spath = path, sAsset = False, sRead = True, sWrite = True, sAppend = False, spos = 0,
               sEof = False\<rparr>
      in
      if denied W path then (0, W)
      else if mode = [] then (0, W)
      else if hd mode = CHR ''r'' then
        (if disk W path = None then (0, W) else new_stream (s\<lparr>sWrite := plus\<rparr>) W)
      else if hd mode = CHR ''w'' then
        new_stream (s\<lparr>sRead := plus\<rparr>) (W\<lparr>disk := (disk W)(path := Some [])\<rparr>)
      else if hd mode = CHR ''a'' then
        new_stream (s\<lparr>sRead := plus, sAppend := True\<rparr>)
          (if disk W path = None then W\<lparr>disk := (disk W)(path := Some [])\<rparr> else W)
      else (0, W))"

definition c_fclose :: "ptr \<Rightarrow> fsworld \<Rightarrow> fsworld res" where
  "c_fclose f W = bnd (lds f W) (\<lambda>_. Inr (W\<lparr>streams := (streams W)(f := None)\<rparr>))"

definition c_fseek_set :: "ptr \<Rightarrow> int \<Rightarrow> fsworld \<Rightarrow> fsworld res" where
  "c_fseek_set f off W =
     bnd (lds f W) (\<lambda>s. Inr (if off < 0 then W else sets f (s\<lparr>spos := nat off, sEof := False\<rparr>) W))"

definition c_fseek_end :: "ptr \<Rightarrow> fsworld \<Rightarrow> fsworld res" where
  "c_fseek_end f W =
     bnd (lds f W) (\<lambda>s. Inr (sets f (s\<lparr>spos := length (content s W), sEof := False\<rparr>) W))"

definition c_ftell :: "ptr \<Rightarrow> fsworld \<Rightarrow> int res" where
  "c_ftell f W = bnd (lds f W) (\<lambda>s. Inr (int (spos s)))"

text \<open>\<open>fsetpos\<close> to a position that \<open>fgetpos\<close> returned.\<close>

definition c_fgetpos :: "ptr \<Rightarrow> fsworld \<Rightarrow> nat res" where
  "c_fgetpos f W = bnd (lds f W) (\<lambda>s. Inr (spos s))"

definition c_fsetpos :: "ptr \<Rightarrow> nat \<Rightarrow> fsworld \<Rightarrow> fsworld res" where
  "c_fsetpos f p W = bnd (lds f W) (\<lambda>s. Inr (sets f (s\<lparr>spos := p, sEof := False\<rparr>) W))"

definition c_feof :: "ptr \<Rightarrow> fsworld \<Rightarrow> bool res" where
  "c_feof f W = bnd (lds f W) (\<lambda>s. Inr (sEof s))"

text \<open>\<open>fread(buf, size, count, f)\<close>: the bytes read and the number of whole items.\<close>

definition c_fread :: "nat \<Rightarrow> nat \<Rightarrow> ptr \<Rightarrow> fsworld \<Rightarrow> (nat \<times> string \<times> fsworld) res" where
  "c_fread sz count f W =
     bnd (lds f W) (\<lambda>s.
       if \<not> sRead s \<or> sz = 0 \<or> count = 0 then Inr (0, [], W)
       else
         (let bs = take (sz * count) (drop (spos s) (content s W)) in
          Inr (length bs div sz, bs,
            sets f (s\<lparr>spos := spos s + length bs, sEof := sEof s \<or> length bs < sz * count\<rparr>) W)))"

definition write_at :: "nat \<Rightarrow> string \<Rightarrow> string \<Rightarrow> string" where
  "write_at p bs c =
     take p (c @ replicate (p - length c) (CHR 0x00)) @ bs @ drop (p + length bs) c"

text \<open>\<open>fwrite(bs, size, count, f)\<close>, with \<open>length bs = size * count\<close>.\<close>

definition c_fwrite :: "string \<Rightarrow> nat \<Rightarrow> nat \<Rightarrow> ptr \<Rightarrow> fsworld \<Rightarrow> (nat \<times> fsworld) res" where
  "c_fwrite bs sz count f W =
     bnd (lds f W) (\<lambda>s.
       if \<not> sWrite s \<or> diskFull W \<or> bs = [] then Inr (0, W)
       else
         (let p = (if sAppend s then length (content s W) else spos s) in
          Inr (count, sets f (s\<lparr>spos := p + length bs\<rparr>)
            (W\<lparr>disk := (disk W)(spath s := Some (write_at p bs (content s W)))\<rparr>))))"

text \<open>The line of \<open>fgets\<close>: at most \<open>n\<close> bytes, up to and with the first newline.\<close>

definition first_line :: "nat \<Rightarrow> string \<Rightarrow> string" where
  "first_line n bs =
     (let l = takeWhile (\<lambda>c. c \<noteq> CHR 0x0A) bs in
      take n (if length l < length bs then l @ [CHR 0x0A] else l))"

definition c_fgets :: "nat \<Rightarrow> ptr \<Rightarrow> fsworld \<Rightarrow> (string option \<times> fsworld) res" where
  "c_fgets n f W =
     bnd (lds f W) (\<lambda>s.
       if \<not> sRead s then Inr (None, W)
       else
         (let l = first_line (n - 1) (drop (spos s) (content s W));
              hit = (length l < n - 1 \<and> (l = [] \<or> last l \<noteq> CHR 0x0A));
              W = sets f (s\<lparr>spos := spos s + length l, sEof := sEof s \<or> hit\<rparr>) W
          in Inr (if l = [] then None else Some l, W)))"

definition c_remove :: "string \<Rightarrow> fsworld \<Rightarrow> fsworld" where
  "c_remove path W = (if denied W path then W else W\<lparr>disk := (disk W)(path := None)\<rparr>)"

subsection \<open>Facts about streams\<close>

lemma sets_simps [simp]:
  "disk (sets f s W) = disk W" "assets (sets f s W) = assets W" "denied (sets f s W) = denied W"
  "diskFull (sets f s W) = diskFull W" "fbrk (sets f s W) = fbrk W"
  "streams (sets f s W) = (streams W)(f := Some s)"
  by (simp_all add: sets_def)

lemma content_sets [simp]: "content s (sets f t W) = content s W"
  by (simp add: content_def)

lemma content_updates [simp]:
  "content (s\<lparr>spos := p\<rparr>) W = content s W" "content (s\<lparr>sEof := b\<rparr>) W = content s W"
  "content s (W\<lparr>streams := S\<rparr>) = content s W"
  by (simp_all add: content_def)

lemma lds_Some [simp]: "f \<noteq> 0 \<Longrightarrow> streams W f = Some s \<Longrightarrow> lds f W = Inr s"
  by (simp add: lds_def)

lemma lds_null [simp]: "lds 0 W = Inl NullDeref"
  by (simp add: lds_def)

lemma lds_InrD: "lds f W = Inr s \<Longrightarrow> f \<noteq> 0 \<and> streams W f = Some s"
  by (auto simp: lds_def split: if_splits option.splits)

lemma lds_sets [simp]: "f \<noteq> 0 \<Longrightarrow> lds f (sets f s W) = Inr s"
  by simp

lemma write_at_read: "take (length bs) (drop p (write_at p bs c)) = bs"
  by (simp add: write_at_def)

lemma write_at_other:
  "i < length c \<Longrightarrow> i < p \<or> p + length bs \<le> i \<Longrightarrow> write_at p bs c ! i = c ! i"
  by (auto simp: write_at_def nth_append)

lemma length_write_at: "length (write_at p bs c) = max (length c) (p + length bs)"
  by (simp add: write_at_def)

lemma first_line_nil [simp]: "first_line n [] = []"
  by (simp add: first_line_def)

lemma first_line_le: "length (first_line n bs) \<le> length bs"
proof -
  have "length (takeWhile (\<lambda>c. c \<noteq> CHR 0x0A) bs) \<le> length bs" by (rule length_takeWhile_le)
  then show ?thesis by (simp add: first_line_def Let_def min_def)
qed

text \<open>What is left to read on a stream.\<close>

definition remaining :: "ptr \<Rightarrow> fsworld \<Rightarrow> nat" where
  "remaining f W =
     (case streams W f of None \<Rightarrow> 0 | Some s \<Rightarrow> length (content s W) - spos s)"

lemma c_fgets_remaining:
  assumes "c_fgets n f W = Inr (Some l, W')" and "1 < n"
  shows "remaining f W' < remaining f W"
proof -
  obtain s where s: "f \<noteq> 0" "streams W f = Some s" using assms(1) by (auto simp: c_fgets_def res_simps dest: lds_InrD)
  let ?b = "drop (spos s) (content s W)"
  have l: "l = first_line (n - 1) ?b" "l \<noteq> []"
    "streams W' f = Some (s\<lparr>spos := spos s + length l, sEof := sEof s \<or>
      (length l < n - 1 \<and> (l = [] \<or> last l \<noteq> CHR 0x0A))\<rparr>)" "disk W' = disk W" "assets W' = assets W"
    using assms s by (auto simp: c_fgets_def Let_def split: if_splits)
  have "length l \<le> length ?b" unfolding l(1) by (rule first_line_le)
  moreover have "0 < length l" using l(2) by simp
  moreover have "remaining f W' = length (content s W) - (spos s + length l)"
    using l(3-5) by (simp add: remaining_def content_def)
  moreover have "remaining f W = length ?b" using s by (simp add: remaining_def)
  ultimately show ?thesis by (simp only: length_drop)
qed

end
