(* ===== verification/Get_Line.thy ===== *)
theory Get_Line
  imports C_Stdio
begin

text \<open>
  \<open>my_getline\<close> of \<open>src/os/File.cpp\<close>: a line is put together from chunks that \<open>fgets\<close> reads into an
  array of 128 bytes, in a buffer that doubles. The buffer is its C string and its size \<open>len\<close>;
  writing beyond the size or reading before its start is the fault \<open>OutOfBounds\<close>. Memory is taken
  to be available.
\<close>

definition SIZE_MAX :: nat where "SIZE_MAX = 2 ^ 64 - 1"

definition c_str :: "string \<Rightarrow> string" where
  "c_str s = takeWhile (\<lambda>c. c \<noteq> CHR 0x00) s"

function getline_loop :: "ptr \<Rightarrow> string \<Rightarrow> nat \<Rightarrow> fsworld \<Rightarrow> (int \<times> string \<times> nat \<times> fsworld) res" where
  "getline_loop fp line len W =
     bnd (c_fgets 128 fp W) (\<lambda>r.
       case r of
         (None, W) \<Rightarrow> Inr (-1, line, len, W)
       | (Some chunk, W) \<Rightarrow>
           (let len_used = length line; chunk = c_str chunk; chunk_used = length chunk in
            if len - len_used < chunk_used \<and> SIZE_MAX div 2 < len then Inr (-1, line, len, W)
            else
              (let len = (if len - len_used < chunk_used then len * 2 else len);
                   line = line @ chunk; len_used = len_used + chunk_used in
               if len \<le> len_used \<or> len_used = 0 then Inl OutOfBounds
               else if last line = CHR 0x0A then Inr (int len_used, line, len, W)
               else getline_loop fp line len W)))"
  by pat_completeness auto

termination
  by (relation "measure (\<lambda>(fp, line, len, W). remaining fp W)") (auto dest: c_fgets_remaining)

declare getline_loop.simps [simp del]

text \<open>The arguments \<open>line\<close> and \<open>len\<close> are pointers and may be null: the outer options.\<close>

definition my_getline ::
  "string option option \<Rightarrow> nat option \<Rightarrow> ptr \<Rightarrow> fsworld
    \<Rightarrow> (int \<times> string option option \<times> nat option \<times> fsworld) res" where
  "my_getline line len fp W =
     (case (line, len) of
        (Some l, Some n) \<Rightarrow>
          if fp = 0 then Inr (-1, line, len, W)
          else
            (let n = (if l = None \<or> n < 128 then 128 else n) in
             bnd (getline_loop fp [] n W) (\<lambda>(r, l, n, W). Inr (r, Some (Some l), Some n, W)))
      | _ \<Rightarrow> Inr (-1, line, len, W))"

subsection \<open>Chunks\<close>

lemma first_line_newline:
  assumes "CHR 0x0A \<notin> set r"
  shows "first_line n (r @ CHR 0x0A # tail) = (if length r < n then r @ [CHR 0x0A] else take n r)"
proof -
  have "takeWhile (\<lambda>c. c \<noteq> CHR 0x0A) (r @ CHR 0x0A # tail) = r"
    using assms by (induction r) auto
  then show ?thesis by (auto simp: first_line_def Let_def)
qed

lemma c_str_id: "CHR 0x00 \<notin> set s \<Longrightarrow> c_str s = s"
  by (auto simp: c_str_def takeWhile_eq_all_conv)

lemma pow2_not_127: "127 * i \<noteq> 128 * (2::nat) ^ j" if "0 < i"
proof
  assume "127 * i = 128 * 2 ^ j"
  then have "127 dvd (2::nat) ^ (j + 7)" by (simp add: power_add dvd_def) (metis mult.commute)
  moreover have "coprime (127::nat) (2 ^ (j + 7))" by simp
  ultimately have "127 dvd (1::nat)" by (metis coprime_absorb_left)
  then show False by simp
qed

text \<open>
  The state of the loop: 127-byte chunks so far, and a buffer whose size is the smallest of the sizes
  128, 256, 512, ... that the loop reaches.
\<close>

definition getline_state :: "string \<Rightarrow> nat \<Rightarrow> bool" where
  "getline_state acc len \<longleftrightarrow>
     (\<exists>i. length acc = 127 * i) \<and> (\<exists>j. len = 128 * 2 ^ j) \<and> length acc < len \<and>
     (len = 128 \<or> len < 2 * length acc)"

definition reading :: "ptr \<Rightarrow> stream \<Rightarrow> string \<Rightarrow> fsworld \<Rightarrow> bool" where
  "reading f s rest W \<longleftrightarrow> f \<noteq> 0 \<and> streams W f = Some s \<and> sRead s \<and> drop (spos s) (content s W) = rest"

lemma reading_fgets:
  assumes "reading f s rest W" and "first_line 127 rest = l" and "l \<noteq> []"
  shows "\<exists>s' W'. c_fgets 128 f W = Inr (Some l, W') \<and> reading f s' (drop (length l) rest) W' \<and>
    spos s' = spos s + length l \<and> spath s' = spath s \<and> disk W' = disk W"
proof -
  let ?s = "s\<lparr>spos := spos s + length l, sEof := sEof s \<or> (length l < 127 \<and> (l = [] \<or> last l \<noteq> CHR 0x0A))\<rparr>"
  have "c_fgets 128 f W = Inr (Some l, sets f ?s W)"
    using assms by (simp add: reading_def c_fgets_def Let_def)
  moreover have "reading f ?s (drop (length l) rest) (sets f ?s W)"
    using assms(1) by (auto simp: reading_def content_def add.commute)
  ultimately show ?thesis by fastforce
qed

lemma getline_step:
  assumes "reading f s rest W" and "first_line 127 rest = l" and "l \<noteq> []" and "CHR 0x00 \<notin> set l"
    and "length (acc @ l) < 2 ^ 63" and "length acc < len"
  shows "\<exists>s' W'. reading f s' (drop (length l) rest) W' \<and> spos s' = spos s + length l \<and>
    getline_loop f acc len W =
     (let n = (if len < length (acc @ l) then len * 2 else len) in
      if n \<le> length (acc @ l) then Inl OutOfBounds
      else if last l = CHR 0x0A then Inr (int (length (acc @ l)), acc @ l, n, W')
      else getline_loop f (acc @ l) n W')"
proof -
  obtain s' W' where r: "c_fgets 128 f W = Inr (Some l, W')" "reading f s' (drop (length l) rest) W'"
    "spos s' = spos s + length l"
    using reading_fgets [OF assms(1-3)] by blast
  have d: "len - length acc < length l \<longleftrightarrow> len < length (acc @ l)" using assms(6) by auto
  have "\<not> SIZE_MAX div 2 < len" if "len < length (acc @ l)"
    using that assms(5) by (simp add: SIZE_MAX_def)
  then have "getline_loop f acc len W =
     (let n = (if len < length (acc @ l) then len * 2 else len) in
      if n \<le> length (acc @ l) then Inl OutOfBounds
      else if last l = CHR 0x0A then Inr (int (length (acc @ l)), acc @ l, n, W')
      else getline_loop f (acc @ l) n W')"
    using r(1) assms(3,4) d by (subst getline_loop.simps) (auto simp: c_str_id Let_def)
  with r show ?thesis by blast
qed

subsection \<open>When a line fits\<close>

definition doubled :: "nat \<Rightarrow> bool" where
  "doubled n \<longleftrightarrow> (\<exists>k. n = 128 * 2 ^ k)"

text \<open>What the loop makes of the rest \<open>r\<close> of the line, its newline and what follows.\<close>

definition line_outcome ::
  "string \<Rightarrow> string \<Rightarrow> (int \<times> string \<times> nat \<times> fsworld) res \<Rightarrow> ptr \<Rightarrow> nat \<Rightarrow> bool" where
  "line_outcome line tail res f pos \<longleftrightarrow>
     (if doubled (Suc (length line)) then res = Inl OutOfBounds
      else \<exists>len s W'. res = Inr (int (Suc (length line)), line @ [CHR 0x0A], len, W') \<and>
        Suc (length line) < len \<and> reading f s tail W' \<and> spos s = pos + Suc (length line))"

lemma pow2_between:
  assumes "c = 128 * 2 ^ j" and "n = 128 * (2::nat) ^ k" and "n \<le> c" and "c < 2 * n"
  shows "n = c"
proof -
  have "(2::nat) ^ k \<le> 2 ^ j" "(2::nat) ^ j < 2 ^ Suc k" using assms by simp_all
  then have "k \<le> j" "j < Suc k" by (simp_all only: power_increasing_iff power_strict_increasing_iff)
  then show ?thesis using assms by simp
qed

lemma doubled_SucE:
  assumes "len = 128 * 2 ^ j" and "len < n" and "n \<le> len * 2"
  shows "doubled n \<longleftrightarrow> n = len * 2"
proof
  assume "doubled n"
  then obtain k where "n = 128 * 2 ^ k" by (auto simp: doubled_def)
  with pow2_between [of "len * 2" "Suc j" n k] assms show "n = len * 2" by simp
next
  assume "n = len * 2"
  then show "doubled n" using assms(1) by (auto simp: doubled_def intro: exI [of _ "Suc j"])
qed

text \<open>When the buffer is one byte too small.\<close>

lemma doubled_grown:
  assumes "len = 128 * 2 ^ j" and "len < n" and "n \<le> len + 127"
  shows "doubled n \<longleftrightarrow> len * 2 \<le> n"
proof -
  have "128 \<le> len" using assms(1) by simp
  then have "n \<le> len * 2" using assms(3) by simp
  with doubled_SucE [OF assms(1,2)] show ?thesis by auto
qed

lemma doubled_kept:
  assumes "len = 128 * 2 ^ j" and "n \<le> len" and "len = 128 \<or> len < 2 * n"
  shows "doubled n \<longleftrightarrow> len = n"
proof
  assume "doubled n"
  then obtain k where k: "n = 128 * 2 ^ k" by (auto simp: doubled_def)
  show "len = n"
  proof (cases "len = 128")
    case True
    have "128 \<le> n" using k by simp
    with True assms(2) show ?thesis by simp
  next
    case False
    with pow2_between [OF assms(1) k] assms(2,3) show ?thesis by simp
  qed
next
  assume "len = n"
  with assms(1) show "doubled n" by (auto simp: doubled_def)
qed

lemma getline_loop_final:
  assumes st: "getline_state acc len" and rd: "reading f s (r @ CHR 0x0A # tail) W"
    and r: "CHR 0x0A \<notin> set r" "CHR 0x00 \<notin> set r" "length r < 127"
    and bound: "Suc (length (acc @ r)) < 2 ^ 63"
  shows "line_outcome (acc @ r) tail (getline_loop f acc len W) f (spos s - length acc)
    \<or> length acc > spos s"
proof (cases "length acc > spos s")
  case le: False
  let ?l = "r @ [CHR 0x0A]" and ?n = "Suc (length (acc @ r))"
  have fl: "first_line 127 (r @ CHR 0x0A # tail) = ?l" using first_line_newline [OF r(1)] r(3) by simp
  obtain i j where ij: "length acc = 127 * i" "len = 128 * 2 ^ j" "length acc < len"
    "len = 128 \<or> len < 2 * length acc"
    using st by (auto simp: getline_state_def)
  have nz: "CHR 0x00 \<notin> set ?l" and bd: "length (acc @ ?l) < 2 ^ 63" using r(2) bound by auto
  from getline_step [OF rd fl _ nz bd ij(3)] obtain s' W' where
    t: "reading f s' (drop (length ?l) (r @ CHR 0x0A # tail)) W'" "spos s' = spos s + length ?l"
    "getline_loop f acc len W =
      (let n = (if len < length (acc @ ?l) then len * 2 else len) in
       if n \<le> length (acc @ ?l) then Inl OutOfBounds
       else if last ?l = CHR 0x0A then Inr (int (length (acc @ ?l)), acc @ ?l, n, W')
       else getline_loop f (acc @ ?l) n W')"
    by blast
  have ln: "length (acc @ ?l) = ?n" "last ?l = CHR 0x0A" by simp_all
  have p': "reading f s' tail W'" "spos s' = spos s + Suc (length r)" using t(1,2) by simp_all
  have "getline_loop f acc len W =
     (let n = (if len < ?n then len * 2 else len) in
      if n \<le> ?n then Inl OutOfBounds else Inr (int ?n, acc @ ?l, n, W'))"
    by (simp only: t(3) ln Let_def simp_thms if_True)
  note s' = p' this
  show ?thesis
  proof (cases "len < ?n")
    case True
    have "?n \<le> len + 127" using r(3) ij(3) by simp
    with s' True le doubled_grown [OF ij(2) True] show ?thesis by (auto simp: line_outcome_def Let_def)
  next
    case False
    have "len = 128 \<or> len < 2 * ?n" using ij(4) by auto
    with doubled_kept [OF ij(2) _ this] False have "doubled ?n \<longleftrightarrow> len = ?n" by simp
    with s' False le show ?thesis by (auto simp: line_outcome_def Let_def)
  qed
qed simp

lemma getline_loop_more:
  assumes st: "getline_state acc len" and rd: "reading f s (r @ CHR 0x0A # tail) W"
    and r: "CHR 0x0A \<notin> set r" "CHR 0x00 \<notin> set r" "127 \<le> length r"
    and bound: "Suc (length (acc @ r)) < 2 ^ 63"
  shows "\<exists>n s' W'. getline_loop f acc len W = getline_loop f (acc @ take 127 r) n W' \<and>
    getline_state (acc @ take 127 r) n \<and> reading f s' (drop 127 r @ CHR 0x0A # tail) W' \<and>
    spos s' = spos s + 127"
proof -
  let ?l = "take 127 r"
  let ?n = "if len < length (acc @ ?l) then len * 2 else len"
  have ll: "length ?l = 127" using r(3) by simp
  have fl: "first_line 127 (r @ CHR 0x0A # tail) = ?l" using first_line_newline [OF r(1)] r(3) by simp
  have sub: "set ?l \<subseteq> set r" by (rule set_take_subset)
  obtain i j where ij: "length acc = 127 * i" "len = 128 * 2 ^ j" "length acc < len"
    "len = 128 \<or> len < 2 * length acc"
    using st by (auto simp: getline_state_def)
  have ne: "?l \<noteq> []" using ll by auto
  have nz: "CHR 0x00 \<notin> set ?l" using sub r(2) by auto
  have bd: "length (acc @ ?l) < 2 ^ 63" using bound ll r(3) by simp
  from getline_step [OF rd fl ne nz bd ij(3)] obtain s' W' where
    s': "reading f s' (drop (length ?l) (r @ CHR 0x0A # tail)) W'" "spos s' = spos s + length ?l"
    "getline_loop f acc len W =
      (let n = ?n in if n \<le> length (acc @ ?l) then Inl OutOfBounds
       else if last ?l = CHR 0x0A then Inr (int (length (acc @ ?l)), acc @ ?l, n, W')
       else getline_loop f (acc @ ?l) n W')"
    by blast
  have pw: "\<exists>j. ?n = 128 * 2 ^ j"
    using ij(2) by (auto intro: exI [of _ j] exI [of _ "Suc j"])
  then obtain j' where j': "?n = 128 * 2 ^ j'" by blast
  have "127 * Suc i \<noteq> ?n" unfolding j' by (rule pow2_not_127) simp
  then have "length (acc @ ?l) \<noteq> ?n" using ij(1) ll by simp
  moreover have "128 \<le> len" using ij(2) by simp
  ultimately have lt: "length (acc @ ?l) < ?n"
    using ij(3) ll by (auto split: if_splits simp del: length_take)
  have "?n = 128 \<or> ?n < 2 * length (acc @ ?l)" using ij(4) by auto
  moreover have "length (acc @ ?l) = 127 * Suc i" using ij(1) ll by simp
  ultimately have st': "getline_state (acc @ ?l) ?n" using pw lt unfolding getline_state_def by blast
  have "last ?l \<noteq> CHR 0x0A" using r(1) sub ne last_in_set by (metis subsetD)
  with s'(3) lt have "getline_loop f acc len W = getline_loop f (acc @ ?l) ?n W'"
    by (simp only: Let_def not_le [symmetric] if_False)
  moreover have "drop (length ?l) (r @ CHR 0x0A # tail) = drop 127 r @ CHR 0x0A # tail"
    using r(3) ll by simp
  ultimately show ?thesis using st' s'(1,2) ll by metis
qed

lemma getline_loop_line:
  assumes "getline_state acc len" and "reading f s (r @ CHR 0x0A # tail) W"
    and "CHR 0x0A \<notin> set r" and "CHR 0x00 \<notin> set r"
    and "Suc (length (acc @ r)) < 2 ^ 63" and "length acc \<le> spos s"
  shows "line_outcome (acc @ r) tail (getline_loop f acc len W) f (spos s - length acc)"
  using assms
proof (induction "length r" arbitrary: acc len s r W rule: less_induct)
  case less
  show ?case
  proof (cases "length r < 127")
    case True
    with getline_loop_final [OF less.prems(1-4) True less.prems(5)] less.prems(6) show ?thesis by simp
  next
    case False
    then have le: "127 \<le> length r" by simp
    from getline_loop_more [OF less.prems(1-4) le less.prems(5)] obtain n s' W' where
      n: "getline_loop f acc len W = getline_loop f (acc @ take 127 r) n W'"
      "getline_state (acc @ take 127 r) n" "reading f s' (drop 127 r @ CHR 0x0A # tail) W'"
      "spos s' = spos s + 127"
      by blast
    have nn: "CHR 0x0A \<notin> set (drop 127 r)" "CHR 0x00 \<notin> set (drop 127 r)"
      using less.prems(3,4) by (auto dest: in_set_dropD)
    have e: "(acc @ take 127 r) @ drop 127 r = acc @ r" by simp
    have "line_outcome ((acc @ take 127 r) @ drop 127 r) tail (getline_loop f (acc @ take 127 r) n W') f
        (spos s' - length (acc @ take 127 r))"
      using less.prems(5,6) n(4) le
      by (intro less.hyps [OF _ n(2,3) nn]) (simp_all only: e, auto)
    moreover have "spos s' - length (acc @ take 127 r) = spos s - length acc" using n(4) le by simp
    ultimately show ?thesis unfolding e n(1) by metis
  qed
qed

text \<open>C34: \<open>my_getline\<close> on a fresh buffer reads exactly the next line, newline included, whatever its
  length, stops behind it and leaves room for the terminator - except for the lengths 128, 256, 512,
  ..., at which it writes the terminator one byte behind the buffer, because the test that makes
  the buffer grow forgets it.\<close>
theorem my_getline_exact:
  assumes "reading f s (line @ CHR 0x0A # tail) W"
    and "CHR 0x0A \<notin> set line" and "CHR 0x00 \<notin> set line" and "Suc (length line) < 2 ^ 63"
  shows "if \<exists>k. Suc (length line) = 128 * 2 ^ k
    then my_getline (Some None) (Some 0) f W = Inl OutOfBounds
    else \<exists>len s' W'. my_getline (Some None) (Some 0) f W =
        Inr (int (Suc (length line)), Some (Some (line @ [CHR 0x0A])), Some len, W') \<and>
      Suc (length line) < len \<and> reading f s' tail W' \<and> spos s' = spos s + Suc (length line)"
proof -
  have "getline_state [] 128" by (auto simp: getline_state_def intro: exI [of _ 0])
  from getline_loop_line [OF this assms(1-3)] assms(4)
  have "line_outcome line tail (getline_loop f [] 128 W) f (spos s)" by simp
  moreover have "f \<noteq> 0" using assms(1) by (simp add: reading_def)
  ultimately show ?thesis
    by (auto simp: line_outcome_def doubled_def my_getline_def split: if_splits)
qed

definition sample_fs :: "string \<Rightarrow> fsworld" where
  "sample_fs c = \<lparr>disk = (\<lambda>_. None)(''f'' := Some c), assets = (\<lambda>_. None), denied = (\<lambda>_. False),
     diskFull = False, streams = (\<lambda>_. None)(1 := Some \<lparr>spath = ''f'', sAsset = False, sRead = True,
     sWrite = True, sAppend = False, spos = 0, sEof = False\<rparr>), fbrk = 2\<rparr>"

theorem my_getline_exact_witness:
  "my_getline (Some None) (Some 0) 1 (sample_fs (replicate 127 (CHR ''x'') @ [CHR 0x0A])) =
    Inl OutOfBounds"
proof -
  let ?s = "\<lparr>spath = ''f'', sAsset = False, sRead = True, sWrite = True, sAppend = False, spos = 0,
    sEof = False\<rparr>"
  let ?l = "replicate 127 (CHR ''x'')"
  have "Suc (length ?l) = 128 * 2 ^ 0" by (simp only: length_replicate) simp
  then have ex: "\<exists>k. Suc (length ?l) = 128 * 2 ^ k" by blast
  have "reading 1 ?s (?l @ CHR 0x0A # []) (sample_fs (?l @ [CHR 0x0A]))"
    by (simp add: reading_def sample_fs_def content_def)
  from my_getline_exact [OF this] ex show ?thesis
    by (simp only: length_replicate set_replicate_conv_if) simp
qed

text \<open>A last line without a newline is read into the buffer but reported as the end of the file.\<close>

lemma my_getline_last_line:
  assumes "reading f s rest W" and "rest \<noteq> []" and "CHR 0x0A \<notin> set rest" and "CHR 0x00 \<notin> set rest"
    and "length rest < 127"
  shows "\<exists>W'. my_getline (Some None) (Some 0) f W = Inr (-1, Some (Some rest), Some 128, W')"
proof -
  have "takeWhile (\<lambda>c. c \<noteq> CHR 0x0A) rest = rest"
    using assms(3) by (auto simp: takeWhile_eq_all_conv)
  then have "first_line 127 rest = rest"
    unfolding first_line_def Let_def using assms(5) by (simp only: less_irrefl if_False take_all_iff)
  from reading_fgets [OF assms(1) this assms(2)] obtain s' W' where
    r: "c_fgets 128 f W = Inr (Some rest, W')" "reading f s' [] W'" by auto
  have "last rest \<noteq> CHR 0x0A" using assms(2,3) last_in_set by metis
  then have "getline_loop f [] 128 W = getline_loop f rest 128 W'"
    using r(1) assms by (subst getline_loop.simps) (simp add: c_str_id Let_def)
  moreover obtain W'' where "c_fgets 128 f W' = Inr (None, W'')"
    using r(2) by (auto simp: c_fgets_def reading_def Let_def)
  then have "getline_loop f rest 128 W' = Inr (-1, rest, 128, W'')"
    by (subst getline_loop.simps) simp
  ultimately show ?thesis using assms(1) by (simp add: my_getline_def reading_def)
qed

end
