(* ===== verification/Cpp_File.thy ===== *)
theory Cpp_File
  imports Get_Line
begin

text \<open>
  The class \<open>File\<close> of \<open>src/os/File.cpp\<close>, on the branch without Android: an object owns (\<open>mNeedClosed\<close>)
  or borrows a \<open>FILE*\<close> and keeps a read and a write position of its own, to which it moves the
  stream before every access. An operation takes the object and the world and yields both.
\<close>

record File =
  mPath :: string
  mMode :: string
  mFile :: ptr
  mNeedClosed :: bool
  mReadPos :: int
  mWritePos :: int
  mAssetManager :: ptr

subsection \<open>Construction, copies and destruction\<close>

definition File_new :: File where
  "File_new = \<lparr>mPath = [], mMode = ''rw'', mFile = 0, mNeedClosed = True, mReadPos = 0, mWritePos = 0,
     mAssetManager = 0\<rparr>"

definition File_of_FILE :: "ptr \<Rightarrow> File" where
  "File_of_FILE fp = \<lparr>mPath = [], mMode = ''rw'', mFile = fp, mNeedClosed = False, mReadPos = 0,
     mWritePos = 0, mAssetManager = 0\<rparr>"

definition File_copy :: "File \<Rightarrow> File" where
  "File_copy f = \<lparr>mPath = mPath f, mMode = mMode f, mFile = mFile f, mNeedClosed = mNeedClosed f,
     mReadPos = mReadPos f, mWritePos = mWritePos f, mAssetManager = mAssetManager f\<rparr>"

text \<open>The new object and what is left of the old one.\<close>

definition File_move :: "File \<Rightarrow> File \<times> File" where
  "File_move f =
     (\<lparr>mPath = mPath f, mMode = mMode f, mFile = mFile f, mNeedClosed = mNeedClosed f,
       mReadPos = mReadPos f, mWritePos = mWritePos f, mAssetManager = mAssetManager f\<rparr>,
      f\<lparr>mPath := [], mMode := ''rw'', mFile := 0, mNeedClosed := False, mReadPos := 0, mWritePos := 0,
        mAssetManager := 0\<rparr>)"

definition File_fopen :: "string \<Rightarrow> string \<Rightarrow> File \<Rightarrow> fsworld \<Rightarrow> bool \<times> File \<times> fsworld" where
  "File_fopen path mode f W =
     (if length path = 0 \<or> length mode = 0 then (False, f, W)
      else if mFile f \<noteq> 0 then (True, f, W)
      else
        (let (fp, W) = c_fopen path mode W in
         (fp \<noteq> 0, f\<lparr>mFile := fp, mPath := path, mMode := mode\<rparr>, W)))"

definition File_open :: "string \<Rightarrow> string \<Rightarrow> fsworld \<Rightarrow> File \<times> fsworld" where
  "File_open path mode W =
     (let f = \<lparr>mPath = path, mMode = mode, mFile = 0, mNeedClosed = True, mReadPos = 0,
                mWritePos = 0, mAssetManager = 0\<rparr>
      in snd (File_fopen path mode f W))"

definition File_fclose :: "File \<Rightarrow> fsworld \<Rightarrow> (File \<times> fsworld) res" where
  "File_fclose f W =
     (if mFile f \<noteq> 0 \<and> mNeedClosed f then
        bnd (c_fclose (mFile f) W) (\<lambda>W.
          Inr (f\<lparr>mFile := 0, mReadPos := 0, mWritePos := 0, mAssetManager := 0\<rparr>, W))
      else Inr (f, W))"

definition File_release :: "File \<Rightarrow> fsworld \<Rightarrow> (File \<times> fsworld) res" where
  "File_release f W =
     bnd (if mNeedClosed f then File_fclose f W else Inr (f, W)) (\<lambda>(f, W).
       Inr (f\<lparr>mPath := [], mMode := [], mFile := 0, mNeedClosed := False, mReadPos := 0,
         mWritePos := 0, mAssetManager := 0\<rparr>, W))"

definition File_delete :: "File \<Rightarrow> fsworld \<Rightarrow> fsworld res" where
  "File_delete f W = bnd (File_release f W) (\<lambda>(_, W). Inr W)"

text \<open>The assignments to an object \<open>f\<close> of another object \<open>g\<close> (\<open>this != &file\<close>).\<close>

definition File_assign_copy :: "File \<Rightarrow> File \<Rightarrow> fsworld \<Rightarrow> (File \<times> fsworld) res" where
  "File_assign_copy f g W =
     bnd (File_release f W) (\<lambda>(f, W).
       Inr (f\<lparr>mPath := mPath g, mMode := mMode g, mFile := mFile g, mNeedClosed := mNeedClosed g,
         mReadPos := mReadPos g, mWritePos := mWritePos g, mAssetManager := mAssetManager g\<rparr>, W))"

definition File_assign_move :: "File \<Rightarrow> File \<Rightarrow> fsworld \<Rightarrow> (File \<times> File \<times> fsworld) res" where
  "File_assign_move f g W =
     bnd (File_release f W) (\<lambda>(f, W).
       Inr (f\<lparr>mPath := mPath g, mMode := mMode g, mFile := mFile g, mNeedClosed := mNeedClosed g,
         mReadPos := mReadPos g, mWritePos := mWritePos g, mAssetManager := mAssetManager g\<rparr>,
        g\<lparr>mPath := [], mMode := [], mFile := 0, mNeedClosed := False, mReadPos := 0, mWritePos := 0,
         mAssetManager := 0\<rparr>, W))"

subsection \<open>Input and output\<close>

text \<open>
  \<open>fread(buffer, size, count)\<close> with a buffer for \<open>size * count\<close> bytes: the number of items, the bytes
  that were stored, the object and the world. A null buffer is \<open>buffer = False\<close>.
\<close>

definition File_fread ::
  "bool \<Rightarrow> int \<Rightarrow> int \<Rightarrow> File \<Rightarrow> fsworld \<Rightarrow> (nat \<times> string \<times> File \<times> fsworld) res" where
  "File_fread buffer sz count f W =
     (if mFile f \<noteq> 0 \<and> buffer \<and> 0 < sz \<and> 0 < count then
        bnd (c_fseek_set (mFile f) (mReadPos f) W) (\<lambda>W.
          bnd (c_fread (nat sz) (nat count) (mFile f) W) (\<lambda>(r, bs, W).
            bnd (c_ftell (mFile f) W) (\<lambda>p. Inr (r, bs, f\<lparr>mReadPos := p\<rparr>, W))))
      else Inr (0, [], f, W))"

definition File_fwrite ::
  "string option \<Rightarrow> int \<Rightarrow> int \<Rightarrow> File \<Rightarrow> fsworld \<Rightarrow> (nat \<times> File \<times> fsworld) res" where
  "File_fwrite buffer sz count f W =
     (case buffer of
        Some bs \<Rightarrow>
          if mFile f \<noteq> 0 \<and> 0 < sz \<and> 0 < count then
            bnd (c_fseek_set (mFile f) (mWritePos f) W) (\<lambda>W.
              bnd (c_fwrite (take (nat sz * nat count) bs) (nat sz) (nat count) (mFile f) W) (\<lambda>(w, W).
                bnd (c_ftell (mFile f) W) (\<lambda>p. Inr (w, f\<lparr>mWritePos := p\<rparr>, W))))
          else Inr (0, f, W)
      | None \<Rightarrow> Inr (0, f, W))"

definition File_fgets ::
  "bool \<Rightarrow> int \<Rightarrow> File \<Rightarrow> fsworld \<Rightarrow> (string option \<times> File \<times> fsworld) res" where
  "File_fgets buffer bufferSize f W =
     (if \<not> (buffer \<and> 0 < bufferSize) then Inl AssertFail
      else if mFile f \<noteq> 0 then
        bnd (c_fseek_set (mFile f) (mReadPos f) W) (\<lambda>W.
          bnd (c_fgets (nat bufferSize) (mFile f) W) (\<lambda>(r, W).
            bnd (c_ftell (mFile f) W) (\<lambda>p. Inr (r, f\<lparr>mReadPos := p\<rparr>, W))))
      else Inr (None, f, W))"

text \<open>\<open>fprintf\<close>, with the text that the format and its arguments give.\<close>

definition File_fprintf :: "string \<Rightarrow> File \<Rightarrow> fsworld \<Rightarrow> (File \<times> fsworld) res" where
  "File_fprintf text f W =
     (if mFile f = 0 then Inr (f, W)
      else
        bnd (c_fseek_set (mFile f) (mWritePos f) W) (\<lambda>W.
          bnd (c_fwrite text 1 (length text) (mFile f) W) (\<lambda>(_, W).
            bnd (c_ftell (mFile f) W) (\<lambda>p. Inr (f\<lparr>mWritePos := p\<rparr>, W)))))"

definition File_size :: "File \<Rightarrow> fsworld \<Rightarrow> (int \<times> fsworld) res" where
  "File_size f W =
     (if mFile f \<noteq> 0 then
        bnd (c_fgetpos (mFile f) W) (\<lambda>pos.
          bnd (c_fseek_end (mFile f) W) (\<lambda>W.
            bnd (c_ftell (mFile f) W) (\<lambda>n.
              bnd (c_fsetpos (mFile f) pos W) (\<lambda>W. Inr (n, W)))))
      else Inr (0, W))"

definition File_eof :: "File \<Rightarrow> fsworld \<Rightarrow> bool res" where
  "File_eof f W = (if mFile f \<noteq> 0 then c_feof (mFile f) W else Inr True)"

definition resetRead :: "File \<Rightarrow> File" where
  "resetRead f = f\<lparr>mReadPos := 0\<rparr>"

definition resetWrite :: "File \<Rightarrow> File" where
  "resetWrite f = f\<lparr>mWritePos := 0\<rparr>"

definition getPath :: "File \<Rightarrow> string" where
  "getPath f = mPath f"

text \<open>\<open>getOneLine(buf, len)\<close>: whether a line was read, the buffer, and the value stored to \<open>len\<close>.\<close>

definition getOneLine ::
  "string option option \<Rightarrow> File \<Rightarrow> fsworld
    \<Rightarrow> (bool \<times> string option option \<times> nat option \<times> fsworld) res" where
  "getOneLine buf f W =
     (if buf = None \<or> mFile f = 0 then Inr (False, buf, None, W)
      else
        bnd (my_getline buf (Some 0) (mFile f) W) (\<lambda>(readnum, buf, L, W).
          if readnum \<noteq> -1 then Inr (True, buf, L, W) else Inr (False, buf, None, W)))"

subsection \<open>Reading back what was written\<close>

lemma c_fseek_set_eq [simp]:
  "f \<noteq> 0 \<Longrightarrow> streams W f = Some s \<Longrightarrow> 0 \<le> off \<Longrightarrow>
    c_fseek_set f off W = Inr (sets f (s\<lparr>spos := nat off, sEof := False\<rparr>) W)"
  by (simp add: c_fseek_set_def)

lemma c_ftell_eq [simp]: "f \<noteq> 0 \<Longrightarrow> streams W f = Some s \<Longrightarrow> c_ftell f W = Inr (int (spos s))"
  by (simp add: c_ftell_def)

definition file_on :: "File \<Rightarrow> stream \<Rightarrow> fsworld \<Rightarrow> bool" where
  "file_on f s W \<longleftrightarrow> mFile f \<noteq> 0 \<and> streams W (mFile f) = Some s \<and> \<not> sAsset s \<and> 0 \<le> mReadPos f \<and> 0 \<le> mWritePos f"

lemma File_fwrite_ok:
  assumes "file_on f s W" and "sWrite s" and "\<not> sAppend s" and "\<not> diskFull W" and "bs \<noteq> []"
  shows "\<exists>s' W'. File_fwrite (Some bs) 1 (int (length bs)) f W =
      Inr (length bs, f\<lparr>mWritePos := mWritePos f + int (length bs)\<rparr>, W') \<and>
    file_on (f\<lparr>mWritePos := mWritePos f + int (length bs)\<rparr>) s' W' \<and> sRead s' = sRead s \<and> spath s' = spath s \<and>
    content s' W' = write_at (nat (mWritePos f)) bs (content s W) \<and>
    (\<forall>p. p \<noteq> spath s \<longrightarrow> disk W' p = disk W p)"
proof -
  let ?p = "nat (mWritePos f)"
  let ?s = "s\<lparr>sEof := False, spos := ?p + length bs\<rparr>"
  let ?W = "sets (mFile f) ?s (sets (mFile f) (s\<lparr>spos := ?p, sEof := False\<rparr>)
    (W\<lparr>disk := (disk W)(spath s := Some (write_at ?p bs (content s W)))\<rparr>))"
  have f: "mFile f \<noteq> 0" "streams W (mFile f) = Some s" "\<not> sAsset s" "0 \<le> mReadPos f" "0 \<le> mWritePos f"
    using assms(1) by (simp_all add: file_on_def)
  have "0 < length bs" using assms(5) by simp
  have "File_fwrite (Some bs) 1 (int (length bs)) f W =
      Inr (length bs, f\<lparr>mWritePos := mWritePos f + int (length bs)\<rparr>, ?W)"
    using f assms \<open>0 < length bs\<close> by (simp add: File_fwrite_def c_fwrite_def sets_def Let_def)
  moreover have "file_on (f\<lparr>mWritePos := mWritePos f + int (length bs)\<rparr>) ?s ?W"
    using f by (simp add: file_on_def)
  moreover have "content ?s ?W = write_at ?p bs (content s W)"
    using f(3) by (simp add: content_def)
  ultimately show ?thesis by (intro exI [of _ ?s] exI [of _ ?W]) simp
qed

lemma File_fread_ok:
  assumes "file_on f s W" and "sRead s" and "0 < n"
  shows "\<exists>s' W'. File_fread True 1 (int n) f W =
      (let bs = take n (drop (nat (mReadPos f)) (content s W)) in
       Inr (length bs, bs, f\<lparr>mReadPos := mReadPos f + int (length bs)\<rparr>, W')) \<and>
    file_on (f\<lparr>mReadPos := mReadPos f + int (length (take n (drop (nat (mReadPos f)) (content s W))))\<rparr>) s' W' \<and>
    sRead s' \<and> spath s' = spath s \<and> disk W' = disk W \<and> denied W' = denied W \<and>
    (sEof s' \<longleftrightarrow> length (take n (drop (nat (mReadPos f)) (content s W))) < n)"
proof -
  let ?p = "nat (mReadPos f)" and ?bs = "take n (drop (nat (mReadPos f)) (content s W))"
  let ?s = "s\<lparr>spos := ?p + length ?bs, sEof := length ?bs < n\<rparr>"
  let ?W = "sets (mFile f) ?s (sets (mFile f) (s\<lparr>spos := ?p, sEof := False\<rparr>) W)"
  have f: "mFile f \<noteq> 0" "streams W (mFile f) = Some s" "\<not> sAsset s" "0 \<le> mReadPos f" "0 \<le> mWritePos f"
    using assms(1) by (simp_all add: file_on_def)
  have "File_fread True 1 (int n) f W = Inr (length ?bs, ?bs, f\<lparr>mReadPos := mReadPos f + int (length ?bs)\<rparr>, ?W)"
    using f assms by (simp add: File_fread_def c_fread_def Let_def)
  moreover have "file_on (f\<lparr>mReadPos := mReadPos f + int (length ?bs)\<rparr>) ?s ?W"
    using f by (simp add: file_on_def)
  ultimately show ?thesis using assms(2)
    by (intro exI [of _ ?s] exI [of _ ?W]) (simp add: Let_def)
qed

text \<open>C35: Bytes written with \<open>fwrite\<close> at the beginning of a file come back from \<open>fread\<close> at the
  beginning; the rest of the file and every other file keep their bytes, and writing does not move
  the read position.\<close>
theorem File_write_read:
  assumes "file_on f s W" and "sRead s" and "sWrite s" and "\<not> sAppend s" and "\<not> diskFull W"
    and "bs \<noteq> []"
  shows "\<exists>f1 s1 W1 f2 W2. File_fwrite (Some bs) 1 (int (length bs)) (resetWrite f) W = Inr (length bs, f1, W1) \<and>
    mReadPos f1 = mReadPos f \<and> file_on f1 s1 W1 \<and>
    File_fread True 1 (int (length bs)) (resetRead f1) W1 = Inr (length bs, bs, f2, W2) \<and>
    content s1 W1 = bs @ drop (length bs) (content s W) \<and>
    (\<forall>p. p \<noteq> spath s \<longrightarrow> disk W1 p = disk W p)"
proof -
  have on: "file_on (resetWrite f) s W" using assms(1) by (simp add: file_on_def resetWrite_def)
  let ?f1 = "(resetWrite f)\<lparr>mWritePos := mWritePos (resetWrite f) + int (length bs)\<rparr>"
  obtain s1 W1 where w: "File_fwrite (Some bs) 1 (int (length bs)) (resetWrite f) W = Inr (length bs, ?f1, W1)"
    "file_on ?f1 s1 W1" "sRead s1 = sRead s"
    "content s1 W1 = write_at (nat (mWritePos (resetWrite f))) bs (content s W)"
    "\<forall>p. p \<noteq> spath s \<longrightarrow> disk W1 p = disk W p"
    using File_fwrite_ok [OF on assms(3-6)] by blast
  have c: "content s1 W1 = bs @ drop (length bs) (content s W)"
    using w(4) by (simp add: resetWrite_def write_at_def)
  have on1: "file_on (resetRead ?f1) s1 W1" using w(2) by (simp add: file_on_def resetRead_def)
  have "take (length bs) (drop (nat (mReadPos (resetRead ?f1))) (content s1 W1)) = bs"
    using c by (simp add: resetRead_def)
  with File_fread_ok [OF on1, of "length bs"] assms(2,6) w(3) obtain W2 where
    "File_fread True 1 (int (length bs)) (resetRead ?f1) W1 =
      Inr (length bs, bs, (resetRead ?f1)\<lparr>mReadPos := mReadPos (resetRead ?f1) + int (length bs)\<rparr>, W2)"
    by (auto simp: Let_def)
  moreover have "mReadPos ?f1 = mReadPos f" by (simp add: resetWrite_def)
  ultimately show ?thesis using w(1,2,5) c by blast
qed

definition sample_file :: File where
  "sample_file = File_new\<lparr>mFile := 1\<rparr>"

theorem File_write_read_witness:
  "\<exists>f1 W1. File_fwrite (Some ''xyz'') 1 3 (resetWrite sample_file) (sample_fs ''abcde'') = Inr (3, f1, W1) \<and>
    (\<exists>f2 W2. File_fread True 1 3 (resetRead f1) W1 = Inr (3, ''xyz'', f2, W2))"
proof -
  let ?s = "\<lparr>spath = ''f'', sAsset = False, sRead = True, sWrite = True, sAppend = False, spos = 0,
    sEof = False\<rparr>"
  have "file_on sample_file ?s (sample_fs ''abcde'')"
    by (simp add: file_on_def sample_file_def File_new_def sample_fs_def)
  from File_write_read [OF this, of "''xyz''"] show ?thesis by (auto simp: sample_fs_def)
qed

subsection \<open>Two defects of the class\<close>

text \<open>A copy of a File shares its \<open>FILE*\<close> and believes to own it as well: when the original has
  been destroyed, destroying the copy closes a stream that is already closed. A moved-from object,
  in contrast, closes nothing.\<close>
theorem File_copy_closes_twice:
  assumes "file_on f s W" and "mNeedClosed f"
  shows "\<exists>W'. File_delete f W = Inr W' \<and> File_delete (File_copy f) W' = Inl Dangling \<and>
    File_delete (snd (File_move f)) W' = Inr W'"
  using assms
  by (simp add: file_on_def File_delete_def File_release_def File_fclose_def c_fclose_def File_copy_def
    File_move_def lds_def)

theorem File_copy_closes_twice_witness:
  "\<exists>W'. File_delete sample_file (sample_fs ''abcde'') = Inr W' \<and> File_delete (File_copy sample_file) W' = Inl Dangling"
proof -
  let ?s = "\<lparr>spath = ''f'', sAsset = False, sRead = True, sWrite = True, sAppend = False, spos = 0,
    sEof = False\<rparr>"
  have "file_on sample_file ?s (sample_fs ''abcde'')"
    by (simp add: file_on_def sample_file_def File_new_def sample_fs_def)
  from File_copy_closes_twice [OF this] show ?thesis by (auto simp: sample_file_def File_new_def)
qed

text \<open>The default mode of the constructor, \<open>rw\<close>, is read as \<open>r\<close>: nothing can be written.\<close>

lemma default_mode_read_only:
  assumes "File_open path ''rw'' W = (f, W')" and "path \<noteq> []" and "fbrk W \<noteq> 0"
  shows "\<exists>f' W''. File_fwrite (Some bs) 1 (int (length bs)) f W' = Inr (0, f', W'') \<and> disk W'' = disk W"
proof -
  have W': "disk W' = disk W" "mWritePos f = 0"
    "mFile f = 0 \<or> (mFile f \<noteq> 0 \<and> (\<exists>s. streams W' (mFile f) = Some s \<and> \<not> sWrite s))"
    using assms by (auto simp: File_open_def File_fopen_def c_fopen_def new_stream_def Let_def
        split: if_splits)
  show ?thesis
  proof (cases "mFile f = 0 \<or> bs = []")
    case True
    then show ?thesis using W'(1) by (auto simp: File_fwrite_def)
  next
    case False
    then obtain s where "mFile f \<noteq> 0" "streams W' (mFile f) = Some s" "\<not> sWrite s" using W'(3) by blast
    then show ?thesis using W'(1,2) False by (simp add: File_fwrite_def c_fwrite_def)
  qed
qed

end
