(* ===== verification/File_Util.thy ===== *)
theory File_Util
  imports Cpp_File
begin

unbundle bit_operations_syntax

text \<open>
  The class \<open>FileUtil\<close> at the end of \<open>src/os/File.cpp\<close> and the C functions of \<open>src/os/FileUtil.cpp\<close>,
  on the POSIX branch. The answers of \<open>stat\<close> for paths that are no regular files and the listing
  of a directory are arguments: \<open>st\<close> and \<open>od\<close>.
\<close>

subsection \<open>Kinds and sizes of files\<close>

definition S_IFREG :: "32 word" where "S_IFREG = 0x8000"
definition S_IFDIR :: "32 word" where "S_IFDIR = 0x4000"

type_synonym stats = "string \<Rightarrow> (32 word \<times> nat) option"

definition c_stat :: "stats \<Rightarrow> string \<Rightarrow> fsworld \<Rightarrow> (32 word \<times> nat) option" where
  "c_stat st path W =
     (case disk W path of Some c \<Rightarrow> Some (S_IFREG OR 0x1A4, length c) | None \<Rightarrow> st path)"

definition isDirectory :: "stats \<Rightarrow> string \<Rightarrow> fsworld \<Rightarrow> bool" where
  "isDirectory st path W =
     (case c_stat st path W of None \<Rightarrow> False | Some (mode, _) \<Rightarrow> mode AND S_IFDIR = S_IFDIR)"

definition isFileExist :: "stats \<Rightarrow> string \<Rightarrow> fsworld \<Rightarrow> bool" where
  "isFileExist st path W =
     (case c_stat st path W of None \<Rightarrow> False | Some (mode, _) \<Rightarrow> mode AND S_IFREG = S_IFREG)"

definition getFileBytes :: "stats \<Rightarrow> string \<Rightarrow> fsworld \<Rightarrow> nat" where
  "getFileBytes st path W =
     (case c_stat st path W of
        None \<Rightarrow> 0
      | Some (mode, n) \<Rightarrow> if mode AND S_IFREG = S_IFREG then n else 0)"

definition getFileSize :: "ptr \<Rightarrow> fsworld \<Rightarrow> (nat \<times> fsworld) res" where
  "getFileSize file W =
     (if file \<noteq> 0 then
        bnd (c_fgetpos file W) (\<lambda>pos.
          bnd (c_fseek_end file W) (\<lambda>W.
            bnd (c_ftell file W) (\<lambda>n.
              bnd (c_fsetpos file pos W) (\<lambda>W. Inr (nat n, W)))))
      else Inr (0, W))"

definition FileUtil_isDirectory :: "(string \<Rightarrow> 'd option) \<Rightarrow> string \<Rightarrow> bool" where
  "FileUtil_isDirectory od dir = (od dir \<noteq> None)"

definition FileUtil_isFileExist :: "string \<Rightarrow> fsworld \<Rightarrow> (bool \<times> fsworld) res" where
  "FileUtil_isFileExist filePath W =
     (let (file, W) = c_fopen filePath ''rb'' W in
      if file \<noteq> 0 then bnd (c_fclose file W) (\<lambda>W. Inr (True, W)) else Inr (False, W))"

definition FileUtil_getFileSize :: "stats \<Rightarrow> string \<Rightarrow> fsworld \<Rightarrow> int" where
  "FileUtil_getFileSize st filePath W =
     (case c_stat st filePath W of None \<Rightarrow> -1 | Some (_, n) \<Rightarrow> int n)"

definition FileUtil_getFileSize_FILE :: "ptr \<Rightarrow> fsworld \<Rightarrow> (64 word \<times> fsworld) res" where
  "FileUtil_getFileSize_FILE file W =
     (if file \<noteq> 0 then
        bnd (c_fseek_set file 0 W) (\<lambda>W.
          bnd (c_ftell file W) (\<lambda>n.
            bnd (c_fseek_set file 0 W) (\<lambda>W. Inr (word_of_int n, W))))
      else Inr (-1, W))"

subsection \<open>Reading a whole file\<close>

text \<open>What is left to read for a \<open>File\<close>, whose next read starts at \<open>mReadPos\<close>.\<close>

definition file_rest :: "File \<Rightarrow> fsworld \<Rightarrow> nat" where
  "file_rest f W =
     (case streams W (mFile f) of
        None \<Rightarrow> 0
      | Some s \<Rightarrow> length (content s W) - (if mReadPos f < 0 then spos s else nat (mReadPos f)))"

text \<open>Where a read begins: at the remembered position, or where the stream is when there is none.\<close>

definition read_from :: "File \<Rightarrow> stream \<Rightarrow> nat" where
  "read_from f s = (if mReadPos f < 0 then spos s else nat (mReadPos f))"

lemma seek_read_from:
  assumes nz: "mFile f \<noteq> 0" and s: "streams W (mFile f) = Some s"
  shows "\<exists>s1. c_fseek_set (mFile f) (mReadPos f) W = Inr (sets (mFile f) s1 W) \<and> spos s1 = read_from f s \<and>
    content s1 W = content s W \<and> sRead s1 = sRead s \<and> spath s1 = spath s \<and> sAsset s1 = sAsset s"
proof (cases "mReadPos f < 0")
  case True
  have "sets (mFile f) s W = W" using s by (simp add: sets_def map_upd_triv)
  then show ?thesis using True by (intro exI [of _ s]) (simp add: c_fseek_set_def nz s read_from_def)
next
  case False
  then show ?thesis
    by (intro exI [of _ "s\<lparr>spos := nat (mReadPos f), sEof := False\<rparr>"])
      (simp add: c_fseek_set_def nz s read_from_def)
qed

lemma File_fread_rest:
  assumes "File_fread True 1 (int n) f W = Inr (n, bs, f', W')" and "0 < n"
  shows "file_rest f' W' < file_rest f W"
proof -
  have nz: "mFile f \<noteq> 0" using assms by (auto simp: File_fread_def split: if_splits)
  then obtain s where s: "streams W (mFile f) = Some s"
    using assms by (auto simp: File_fread_def c_fseek_set_def res_simps dest!: lds_InrD split: if_splits)
  define P where "P = read_from f s"
  let ?bs = "take n (drop P (content s W))"
  obtain s1 where s1: "c_fseek_set (mFile f) (mReadPos f) W = Inr (sets (mFile f) s1 W)" "spos s1 = P"
    "content s1 W = content s W" "sRead s1 = sRead s" "spath s1 = spath s" "sAsset s1 = sAsset s"
    using seek_read_from [OF nz s] unfolding P_def by blast
  have rd: "sRead s" using assms nz s1 by (auto simp: File_fread_def c_fread_def split: if_splits)
  let ?s2 = "s1\<lparr>spos := P + length ?bs, sEof := sEof s1 \<or> length ?bs < n\<rparr>"
  have "File_fread True 1 (int n) f W =
    Inr (length ?bs, ?bs, f\<lparr>mReadPos := int (P + length ?bs)\<rparr>, sets (mFile f) ?s2 (sets (mFile f) s1 W))"
    using nz s1 rd assms(2) by (simp add: File_fread_def c_fread_def Let_def)
  then have r: "length ?bs = n" "f' = f\<lparr>mReadPos := int (P + n)\<rparr>"
    "W' = sets (mFile f) ?s2 (sets (mFile f) s1 W)"
    using assms(1) by auto
  have "file_rest f' W' = length (content s W) - (P + n)"
    using s1 nat_int [of "P + n"] unfolding r(2,3) by (simp add: file_rest_def content_def del: nat_int)
  moreover have "file_rest f W = length (content s W) - P" using s by (simp add: file_rest_def P_def read_from_def)
  moreover have "n \<le> length (content s W) - P" using r(1) by simp
  ultimately show ?thesis using assms(2) by linarith
qed

function FileUtil_readFile_loop ::
  "nat \<Rightarrow> string \<Rightarrow> File \<Rightarrow> fsworld \<Rightarrow> (nat \<times> string \<times> File \<times> fsworld) res" where
  "FileUtil_readFile_loop got buffer file W =
     bnd (File_eof file W) (\<lambda>e.
       if e then Inr (got, buffer, file, W)
       else
         bnd (File_fread True 1 1024 file W) (\<lambda>(n, data, file, W).
           (let (got, buffer) = (if 0 < n then (got + n, buffer @ take n data) else (got, buffer)) in
            if n < 1024 then Inr (got, buffer, file, W)
            else FileUtil_readFile_loop got buffer file W)))"
  by pat_completeness auto

lemma File_fread_le: "File_fread True 1 (int k) f W = Inr (n, bs, f', W') \<Longrightarrow> n \<le> k"
  by (auto simp: File_fread_def c_fread_def res_simps Let_def split: if_splits)

termination FileUtil_readFile_loop
proof (relation "measure (\<lambda>(got, buffer, f, W). file_rest f W)", goal_cases)
  case (2 got buffer f W e r n x2 data x3 f' W' p t b)
  then have "File_fread True 1 (int 1024) f W = Inr (n, data, f', W')" by simp
  with 2 File_fread_le [OF this] File_fread_rest [of 1024] show ?case by auto
qed simp

declare FileUtil_readFile_loop.simps [simp del]

definition FileUtil_readFile_File ::
  "File option \<Rightarrow> string \<Rightarrow> fsworld \<Rightarrow> (nat \<times> string \<times> File option \<times> fsworld) res" where
  "FileUtil_readFile_File fo buffer W =
     (case fo of
        None \<Rightarrow> Inr (0, buffer, None, W)
      | Some f \<Rightarrow>
          bnd (FileUtil_readFile_loop 0 buffer f W) (\<lambda>(n, b, f, W). Inr (n, b, Some f, W)))"

text \<open>The overload for a path, on the \<open>FILE*\<close> itself.\<close>

lemma c_fread_le: "c_fread 1 k f W = Inr (n, bs, W') \<Longrightarrow> n \<le> k"
  by (auto simp: c_fread_def res_simps Let_def split: if_splits)

lemma c_fread_remaining:
  assumes "c_fread 1 n f W = Inr (n, bs, W')" and "0 < n"
  shows "remaining f W' < remaining f W"
proof -
  obtain s where s: "f \<noteq> 0" "streams W f = Some s" "sRead s"
    using assms by (auto simp: c_fread_def res_simps dest!: lds_InrD split: if_splits)
  let ?bs = "take n (drop (spos s) (content s W))"
  have r: "length ?bs = n" "W' = sets f (s\<lparr>spos := spos s + length ?bs, sEof := sEof s \<or> length ?bs < n\<rparr>) W"
    using assms s by (auto simp: c_fread_def Let_def)
  have "remaining f W' = length (content s W) - (spos s + n)"
    using r by (simp add: remaining_def content_def)
  moreover have "remaining f W = length (content s W) - spos s" using s by (simp add: remaining_def)
  moreover have "n \<le> length (content s W) - spos s" using r(1) by simp
  ultimately show ?thesis using assms(2) by linarith
qed

function readPath_loop :: "nat \<Rightarrow> string \<Rightarrow> ptr \<Rightarrow> fsworld \<Rightarrow> (nat \<times> string \<times> fsworld) res" where
  "readPath_loop got buffer fp W =
     bnd (c_feof fp W) (\<lambda>e.
       if e then Inr (got, buffer, W)
       else
         bnd (c_fread 1 1024 fp W) (\<lambda>(n, data, W).
           (let (got, buffer) = (if 0 < n then (got + n, buffer @ take n data) else (got, buffer)) in
            if n < 1024 then Inr (got, buffer, W) else readPath_loop got buffer fp W)))"
  by pat_completeness auto

termination
proof (relation "measure (\<lambda>(got, buffer, fp, W). remaining fp W)", goal_cases)
  case (2 got buffer fp W e r n x2 data W' p t b)
  then have r: "c_fread 1 1024 fp W = Inr (n, data, W')" by simp
  from c_fread_le [OF r] 2 have "n = 1024" by auto
  with c_fread_remaining [of 1024] r show ?case by auto
qed simp

declare readPath_loop.simps [simp del]

definition FileUtil_readFile :: "string \<Rightarrow> string \<Rightarrow> fsworld \<Rightarrow> (nat \<times> string \<times> fsworld) res" where
  "FileUtil_readFile filePath buffer W =
     (let (fp, W) = c_fopen filePath ''rb'' W in
      if fp = 0 then Inr (0, buffer, W)
      else
        bnd (readPath_loop 0 buffer fp W) (\<lambda>(n, b, W).
          bnd (c_fclose fp W) (\<lambda>W. Inr (n, b, W))))"

text \<open>
  The overload that returns memory: a null pointer, the bytes, or a pointer that has been freed. The
  argument \<open>meanwhile\<close> is what other programs do to the disk between \<open>stat\<close> and \<open>fopen\<close>.
\<close>

datatype memory = NullMem | Bytes string | FreedMem

definition FileUtil_readFile_mem ::
  "stats \<Rightarrow> (fsworld \<Rightarrow> fsworld) \<Rightarrow> string \<Rightarrow> bool \<Rightarrow> fsworld \<Rightarrow> (memory \<times> nat option \<times> fsworld) res" where
  "FileUtil_readFile_mem st meanwhile filePath sz W =
     (if \<not> sz then Inr (NullMem, None, W)
      else
        (let len = (word_of_int (FileUtil_getFileSize st filePath W) :: 64 word) in
         if 0 < len then
           (let (fp, W) = c_fopen filePath ''rb'' (meanwhile W) in
            if fp = 0 then Inr (NullMem, None, W)
            else
              bnd (c_fread 1 (unat (len + 1)) fp W) (\<lambda>(n, data, W).
                bnd (c_fclose fp W) (\<lambda>W.
                  if unat len = n then Inr (Bytes data, Some (unat len), W)
                  else Inr (FreedMem, None, W))))
         else Inr (NullMem, None, W)))"

text \<open>\<open>saveFile\<close>; \<open>None\<close> is a null pointer to the data.\<close>

definition FileUtil_saveFile :: "string \<Rightarrow> string option \<Rightarrow> nat \<Rightarrow> fsworld \<Rightarrow> (bool \<times> fsworld) res" where
  "FileUtil_saveFile filePath data n W =
     (case data of
        Some bs \<Rightarrow>
          if 0 < n then
            (let (fp, W) = c_fopen filePath ''wb+'' W in
             if fp \<noteq> 0 then
               bnd (c_fseek_set fp 0 W) (\<lambda>W.
                 bnd (c_fwrite (take n bs) n 1 fp W) (\<lambda>(w, W).
                   bnd (c_fclose fp W) (\<lambda>W. Inr (n = w, W))))
             else Inr (False, W))
          else Inr (False, W)
      | None \<Rightarrow> Inr (False, W))"

definition FileUtil_delFile :: "string option \<Rightarrow> fsworld \<Rightarrow> fsworld" where
  "FileUtil_delFile filePath W = (case filePath of None \<Rightarrow> W | Some p \<Rightarrow> c_remove p W)"

subsection \<open>The C functions\<close>

text \<open>Opening an \<open>ifstream\<close> fails for a path that is refused or not there.\<close>

definition ifstream_open :: "string \<Rightarrow> fsworld \<Rightarrow> string option" where
  "ifstream_open path W = (if denied W path then None else disk W path)"

definition readFile0 :: "string option \<Rightarrow> string \<Rightarrow> fsworld \<Rightarrow> nat \<times> string" where
  "readFile0 filePath buffer W =
     (case filePath of
        None \<Rightarrow> (0, buffer)
      | Some p \<Rightarrow> (case ifstream_open p W of None \<Rightarrow> (0, buffer) | Some c \<Rightarrow> (length c, c)))"

text \<open>
  \<open>readFile1\<close> lets \<open>fread\<close> write to \<open>buffer.data()\<close>: the string keeps its length, only the characters
  it already has are replaced.
\<close>

definition readFile1 ::
  "File option \<Rightarrow> string \<Rightarrow> fsworld \<Rightarrow> (nat \<times> string \<times> File option \<times> fsworld) res" where
  "readFile1 fo buffer W =
     (case fo of
        None \<Rightarrow> Inr (0, buffer, None, W)
      | Some f \<Rightarrow>
          bnd (File_eof f W) (\<lambda>e.
            if e then Inr (0, buffer, Some f, W)
            else
              bnd (File_size f W) (\<lambda>(n, W).
                bnd (File_fread True 1 n f W) (\<lambda>(_, bs, f, W).
                  Inr (nat n, take (length buffer) (bs @ drop (length bs) buffer), Some f, W)))))"

definition readFile2 :: "string option \<Rightarrow> fsworld \<Rightarrow> memory \<times> nat option" where
  "readFile2 filePath W =
     (case filePath of
        None \<Rightarrow> (NullMem, None)
      | Some p \<Rightarrow>
          (case ifstream_open p W of
             None \<Rightarrow> (NullMem, None)
           | Some c \<Rightarrow> (Bytes c, Some (length c))))"

definition saveFile :: "string option \<Rightarrow> string \<Rightarrow> nat \<Rightarrow> fsworld \<Rightarrow> bool \<times> fsworld" where
  "saveFile filePath data n W =
     (case filePath of
        None \<Rightarrow> (False, W)
      | Some p \<Rightarrow>
          if denied W p then (False, W)
          else (True, W\<lparr>disk := (disk W)(p := Some (if diskFull W then [] else take n data))\<rparr>))"

definition deleteFile :: "string option \<Rightarrow> fsworld \<Rightarrow> fsworld" where
  "deleteFile filePath W = (case filePath of None \<Rightarrow> W | Some p \<Rightarrow> c_remove p W)"

subsection \<open>The loops read everything\<close>

lemma sets_sets [simp]: "sets f t (sets f s W) = sets f t W"
  by (simp add: sets_def)

lemma readPath_loop_reads:
  assumes "fp \<noteq> 0" and "streams W fp = Some s" and "sRead s" and "\<not> sEof s"
    and "rest = drop (spos s) (content s W)"
  shows "\<exists>t. readPath_loop got buffer fp W = Inr (got + length rest, buffer @ rest, sets fp t W)"
  using assms
proof (induction "length rest" arbitrary: rest got buffer W s rule: less_induct)
  case less
  let ?bs = "take 1024 rest"
  let ?t = "s\<lparr>spos := spos s + length ?bs, sEof := length ?bs < 1024\<rparr>"
  have rd: "c_fread 1 1024 fp W = Inr (length ?bs, ?bs, sets fp ?t W)"
    using less.prems by (simp add: c_fread_def Let_def)
  have eof: "c_feof fp W = Inr False" using less.prems by (simp add: c_feof_def)
  show ?case
  proof (cases "length ?bs < 1024")
    case True
    then have "?bs = rest" by simp
    then show ?thesis using eof rd True
      by (subst readPath_loop.simps) (auto intro!: exI [of _ ?t])
  next
    case False
    then have n: "length ?bs = 1024" by simp
    then have lt: "length (drop 1024 rest) < length rest" by simp
    have e: "readPath_loop got buffer fp W = readPath_loop (got + 1024) (buffer @ ?bs) fp (sets fp ?t W)"
      using eof rd n by (subst readPath_loop.simps) simp
    have "\<not> sEof ?t" "sRead ?t" using n less.prems(3) by simp_all
    moreover have "drop 1024 rest = drop (spos ?t) (content ?t (sets fp ?t W))"
      using less.prems(5) n by (simp add: content_def add.commute)
    ultimately obtain t where "readPath_loop (got + 1024) (buffer @ ?bs) fp (sets fp ?t W) =
        Inr (got + 1024 + length (drop 1024 rest), (buffer @ ?bs) @ drop 1024 rest, sets fp t (sets fp ?t W))"
      using less.hyps [OF lt less.prems(1), of "sets fp ?t W" ?t "got + 1024" "buffer @ ?bs"] by auto
    moreover have "got + 1024 + length (drop 1024 rest) = got + length rest" using n by simp
    moreover have "(buffer @ ?bs) @ drop 1024 rest = buffer @ rest" by simp
    ultimately show ?thesis using e by (metis sets_sets)
  qed
qed

lemma readFile_loop_reads:
  assumes "file_on f s W" and "sRead s" and "\<not> sEof s"
    and "rest = drop (nat (mReadPos f)) (content s W)"
  shows "\<exists>f' W'. FileUtil_readFile_loop got buffer f W = Inr (got + length rest, buffer @ rest, f', W') \<and>
    disk W' = disk W"
  using assms
proof (induction "length rest" arbitrary: rest got buffer f W s rule: less_induct)
  case less
  let ?bs = "take 1024 rest"
  let ?f = "f\<lparr>mReadPos := mReadPos f + int (length ?bs)\<rparr>"
  have b: "take 1024 (drop (nat (mReadPos f)) (content s W)) = ?bs" using less.prems(4) by simp
  obtain s' W' where
    rd: "File_fread True 1 (int 1024) f W = Inr (length ?bs, ?bs, ?f, W')" "file_on ?f s' W'"
    "sRead s'" "spath s' = spath s" "disk W' = disk W" "sEof s' \<longleftrightarrow> length ?bs < 1024"
    using File_fread_ok [OF less.prems(1,2), of 1024] unfolding b Let_def by auto
  have eof: "File_eof f W = Inr False"
    using less.prems by (simp add: File_eof_def c_feof_def file_on_def)
  show ?case
  proof (cases "length ?bs < 1024")
    case True
    then have "?bs = rest" by simp
    then show ?thesis using eof rd True
      by (subst FileUtil_readFile_loop.simps) auto
  next
    case False
    then have n: "length ?bs = 1024" by simp
    then have lt: "length (drop 1024 rest) < length rest" by simp
    have e: "FileUtil_readFile_loop got buffer f W = FileUtil_readFile_loop (got + 1024) (buffer @ ?bs) ?f W'"
      using eof rd(1) n by (subst FileUtil_readFile_loop.simps) simp
    have nm: "nat (mReadPos ?f) = 1024 + nat (mReadPos f)"
      using less.prems(1) n by (simp add: file_on_def nat_add_distrib)
    have cc: "content s' W' = content s W"
      using less.prems(1) rd(2,4,5) by (simp add: content_def file_on_def)
    have "drop 1024 rest = drop (1024 + nat (mReadPos f)) (content s W)"
      using less.prems(4) by simp
    then have "drop 1024 rest = drop (nat (mReadPos ?f)) (content s' W')" unfolding nm cc .
    then obtain f' W'' where "FileUtil_readFile_loop (got + 1024) (buffer @ ?bs) ?f W' =
        Inr (got + 1024 + length (drop 1024 rest), (buffer @ ?bs) @ drop 1024 rest, f', W'')" "disk W'' = disk W'"
      using less.hyps [OF lt rd(2,3), of "got + 1024" "buffer @ ?bs"] rd(6) n by auto
    moreover have "got + 1024 + length (drop 1024 rest) = got + length rest" using n by simp
    moreover have "(buffer @ ?bs) @ drop 1024 rest = buffer @ rest" by simp
    ultimately show ?thesis using e rd(5) by metis
  qed
qed

lemma FileUtil_readFile_eq:
  assumes "disk W path = Some c" and "\<not> denied W path" and "fbrk W \<noteq> 0"
  shows "FileUtil_readFile path buffer W =
    Inr (length c, buffer @ c, W\<lparr>streams := (streams W)(fbrk W := None), fbrk := Suc (fbrk W)\<rparr>)"
proof -
  let ?s = "\<lparr>spath = path, sAsset = False, sRead = True, sWrite = False, sAppend = False, spos = 0,
    sEof = False\<rparr>"
  let ?W = "W\<lparr>streams := (streams W)(fbrk W := Some ?s), fbrk := Suc (fbrk W)\<rparr>"
  have op: "c_fopen path ''rb'' W = (fbrk W, ?W)"
    using assms by (simp add: c_fopen_def new_stream_def)
  have "c = drop (spos ?s) (content ?s ?W)" using assms(1) by (simp add: content_def)
  with readPath_loop_reads [OF assms(3), of ?W ?s c 0 buffer] obtain t where
    "readPath_loop 0 buffer (fbrk W) ?W = Inr (length c, buffer @ c, sets (fbrk W) t ?W)" by auto
  then show ?thesis using op assms(3)
    by (simp add: FileUtil_readFile_def c_fclose_def)
qed

text \<open>C19: \<open>FileUtil::readFile\<close> returns and appends exactly the bytes of the file to the buffer, for
  files of every length (multiples of the block of 1024 included): by path the whole file, for an
  open File what lies behind its read position. It changes no file, and closes what it opened.\<close>
theorem readFile_reads_all:
  assumes "disk W path = Some c" and "\<not> denied W path" and "fbrk W \<noteq> 0"
    and "file_on f s W" and "sRead s" and "\<not> sEof s"
  shows "FileUtil_readFile path buffer W =
      Inr (length c, buffer @ c, W\<lparr>streams := (streams W)(fbrk W := None), fbrk := Suc (fbrk W)\<rparr>) \<and>
    (\<exists>f' W'. FileUtil_readFile_File (Some f) buffer W =
      Inr (length (content s W) - nat (mReadPos f),
        buffer @ drop (nat (mReadPos f)) (content s W), Some f', W') \<and> disk W' = disk W)"
  using readFile_loop_reads [OF assms(4-6) refl, of 0 buffer] FileUtil_readFile_eq [OF assms(1-3)]
  by (auto simp: FileUtil_readFile_File_def)

theorem readFile_reads_all_witness:
  "\<exists>W'. FileUtil_readFile ''f'' ''>'' (sample_fs ''abcde'') = Inr (5, ''>abcde'', W')"
proof -
  let ?s = "\<lparr>spath = ''f'', sAsset = False, sRead = True, sWrite = True, sAppend = False, spos = 0,
    sEof = False\<rparr>"
  have on: "file_on sample_file ?s (sample_fs ''abcde'')"
    by (simp add: file_on_def sample_file_def File_new_def sample_fs_def)
  have "disk (sample_fs ''abcde'') ''f'' = Some ''abcde''" "\<not> denied (sample_fs ''abcde'') ''f''"
    "fbrk (sample_fs ''abcde'') \<noteq> 0" by (simp_all add: sample_fs_def)
  from readFile_reads_all [OF this on] show ?thesis by simp
qed

text \<open>C36: What \<open>saveFile\<close> stores is what \<open>readFile\<close> returns, and no other file changes; but \<open>saveFile\<close>
  compares the number of bytes with the number of items written, which is one: it reports success
  for a single byte only.\<close>
theorem saveFile_readFile:
  assumes "bs \<noteq> []" and "\<not> denied W path" and "\<not> diskFull W" and "fbrk W \<noteq> 0"
  shows "\<exists>W'. FileUtil_saveFile path (Some bs) (length bs) W = Inr (length bs = 1, W') \<and>
    (\<forall>p. p \<noteq> path \<longrightarrow> disk W' p = disk W p) \<and>
    (\<exists>W''. FileUtil_readFile path [] W' = Inr (length bs, bs, W''))"
proof -
  let ?s = "\<lparr>spath = path, sAsset = False, sRead = True, sWrite = True, sAppend = False, spos = 0,
    sEof = False\<rparr>"
  let ?W = "W\<lparr>disk := (disk W)(path := Some []), streams := (streams W)(fbrk W := Some ?s), fbrk := Suc (fbrk W)\<rparr>"
  have op: "c_fopen path ''wb+'' W = (fbrk W, ?W)"
    using assms by (simp add: c_fopen_def new_stream_def)
  let ?W1 = "?W\<lparr>disk := (disk W)(path := Some bs), streams := (streams W)(fbrk W := None)\<rparr>"
  have w: "FileUtil_saveFile path (Some bs) (length bs) W = Inr (length bs = 1, ?W1)"
    using op assms
    by (simp add: FileUtil_saveFile_def c_fwrite_def write_at_def c_fclose_def sets_def Let_def lds_def content_def)
  moreover have "disk ?W1 path = Some bs" "\<not> denied ?W1 path" "fbrk ?W1 \<noteq> 0" using assms by simp_all
  from FileUtil_readFile_eq [OF this, of "[]"]
  have "\<exists>W''. FileUtil_readFile path [] ?W1 = Inr (length bs, bs, W'')" by simp
  ultimately show ?thesis by (intro exI [of _ ?W1]) simp
qed

theorem saveFile_readFile_witness:
  "\<exists>W'. FileUtil_saveFile ''g'' (Some ''xyz'') 3 (sample_fs ''abcde'') = Inr (False, W') \<and>
    disk W' ''f'' = Some ''abcde'' \<and> (\<exists>W''. FileUtil_readFile ''g'' [] W' = Inr (3, ''xyz'', W''))"
proof -
  have "\<not> denied (sample_fs ''abcde'') ''g''" "\<not> diskFull (sample_fs ''abcde'')" "fbrk (sample_fs ''abcde'') \<noteq> 0"
    by (simp_all add: sample_fs_def)
  from saveFile_readFile [OF _ this, of "''xyz''"] obtain W' W'' where
    "FileUtil_saveFile ''g'' (Some ''xyz'') 3 (sample_fs ''abcde'') = Inr (False, W')"
    "disk W' ''f'' = disk (sample_fs ''abcde'') ''f''"
    "FileUtil_readFile ''g'' [] W' = Inr (3, ''xyz'', W'')"
    by (auto simp: numeral_3_eq_3)
  then show ?thesis by (auto simp: sample_fs_def)
qed

subsection \<open>Defects and differences\<close>

text \<open>
  The two \<open>getFileSize\<close> of an open file: the one of \<open>src/os/FileUtil.cpp\<close> yields the size and leaves the position;
  \<open>FileUtil::getFileSize\<close> seeks to the start instead of the end, yields 0 and moves to the start.
\<close>

lemma getFileSize_both:
  assumes "f \<noteq> 0" and "streams W f = Some s"
  shows "\<exists>W'. getFileSize f W = Inr (length (content s W), W') \<and>
      map_option spos (streams W' f) = Some (spos s)"
    and "\<exists>W'. FileUtil_getFileSize_FILE f W = Inr (0, W') \<and> map_option spos (streams W' f) = Some 0"
  using assms
  by (simp_all add: getFileSize_def FileUtil_getFileSize_FILE_def c_fgetpos_def c_fseek_end_def
    c_fsetpos_def)

text \<open>\<open>readFile1\<close> reports the size of the file, but an empty buffer stays empty.\<close>

lemma readFile1_drops:
  assumes "file_on f s W" and "sRead s" and "\<not> sEof s" and "content s W \<noteq> []"
  shows "\<exists>f' W'. readFile1 (Some f) [] W = Inr (length (content s W), [], Some f', W')"
proof -
  let ?s = "s\<lparr>sEof := False\<rparr>"
  have f: "mFile f \<noteq> 0" "streams W (mFile f) = Some s" using assms(1) by (simp_all add: file_on_def)
  let ?W = "sets (mFile f) ?s W"
  have sz: "File_size f W = Inr (int (length (content s W)), ?W)"
    using f by (simp add: File_size_def c_fgetpos_def c_fseek_end_def c_fsetpos_def)
  have "file_on f ?s ?W" using assms(1) by (simp add: file_on_def)
  from File_fread_ok [OF this, of "length (content s W)"] assms(2,4)
  have "\<exists>r bs f' W'. File_fread True 1 (int (length (content s W))) f ?W = Inr (r, bs, f', W')"
    by (auto simp: Let_def)
  then show ?thesis using f sz assms(3)
    by (auto simp: readFile1_def File_eof_def c_feof_def)
qed

text \<open>If the file changes its size between \<open>stat\<close> and \<open>fopen\<close>, the pointer returned has been freed.\<close>

lemma readFile_mem_freed:
  "\<exists>W'. FileUtil_readFile_mem (\<lambda>_. None) (\<lambda>W. W\<lparr>disk := (disk W)(''f'' := Some ''abcdef'')\<rparr>) ''f'' True
    (sample_fs ''abc'') = Inr (FreedMem, None, W')"
  by (simp add: FileUtil_readFile_mem_def FileUtil_getFileSize_def c_stat_def sample_fs_def c_fopen_def
    new_stream_def c_fread_def c_fclose_def content_def Let_def lds_def)

text \<open>The masks are not the tests of POSIX: a socket counts as a regular file and as a directory.\<close>

lemma socket_is_both:
  assumes "disk W p = None" and "st p = Some (0xC1FF, n)"
  shows "isDirectory st p W" and "isFileExist st p W"
  using assms by (simp_all add: isDirectory_def isFileExist_def c_stat_def S_IFDIR_def S_IFREG_def)

end
