(* ===== verification/Dir_Listing.thy ===== *)
theory Dir_Listing
  imports File_Util
begin

text \<open>
  \<open>getAllFiles\<close>, which lists the files below a directory whose names end in \<open>type\<close>: the POSIX
  branches in \<open>src/os/File.cpp\<close> and \<open>src/os/FileUtil.cpp\<close>, the same but for the size of the array
  in which absolute paths are put together. What \<open>opendir\<close> and \<open>readdir\<close> yield is the argument \<open>od\<close>; an
  entry is its \<open>d_type\<close> (8 a file, 4 a directory, 10 a link) and its name. A path that does not fit
  the array is the fault \<open>OutOfBounds\<close>: this also bounds the depth, so the recursion ends whatever
  the directories are.
\<close>

record dirent =
  d_type :: nat
  d_name :: string

type_synonym listing = "string \<Rightarrow> dirent list option"

definition absolute :: "string \<Rightarrow> string \<Rightarrow> string" where
  "absolute dir nm = dir @ ''/'' @ nm"

text \<open>\<open>strcpy\<close> and \<open>strcat\<close> into an array of \<open>cap\<close> bytes, the terminator included.\<close>

definition put_path :: "nat \<Rightarrow> string \<Rightarrow> string \<Rightarrow> string res" where
  "put_path cap dir nm =
     (if length (absolute dir nm) < cap then Inr (absolute dir nm) else Inl OutOfBounds)"

definition ends_in :: "string \<Rightarrow> string \<Rightarrow> bool" where
  "ends_in type nm \<longleftrightarrow> length type < length nm \<and> drop (length nm - length type) nm = type"

function list_files :: "nat \<Rightarrow> listing \<Rightarrow> string option \<Rightarrow> string \<Rightarrow> string list \<Rightarrow> (bool \<times> string list) res"
  and scan_entries ::
    "nat \<Rightarrow> listing \<Rightarrow> string option \<Rightarrow> string \<Rightarrow> dirent list \<Rightarrow> string list \<Rightarrow> string list res" where
  "list_files cap od type dir files =
     (case od dir of
        None \<Rightarrow> Inr (False, files)
      | Some es \<Rightarrow> bnd (scan_entries cap od type dir es files) (\<lambda>files. Inr (True, files)))"
| "scan_entries cap od type dir [] files = Inr files"
| "scan_entries cap od type dir (e # es) files =
     bnd
       (if d_type e = 10 \<or> d_name e = ''.'' \<or> d_name e = ''..'' then Inr files
        else if d_type e = 8 then
          (case type of
             None \<Rightarrow> Inr files
           | Some ty \<Rightarrow>
               if ends_in ty (d_name e) then
                 bnd (put_path cap dir (d_name e)) (\<lambda>p. Inr (files @ [p]))
               else Inr files)
        else if d_type e = 4 then
          bnd (put_path cap dir (d_name e)) (\<lambda>p.
            bnd (list_files cap od type p files) (\<lambda>(_, files). Inr files))
        else Inr files)
       (scan_entries cap od type dir es)"
  by pat_completeness auto

lemma put_path_longer: "put_path cap dir nm = Inr p \<Longrightarrow> length dir < length p \<and> length p < cap"
  by (auto simp: put_path_def absolute_def split: if_splits)

termination list_files
  by (relation "measures [
      \<lambda>x. case x of Inl (cap, od, ty, dir, fs) \<Rightarrow> cap - length dir | Inr (cap, od, ty, dir, es, fs) \<Rightarrow> cap - length dir,
      \<lambda>x. case x of Inl _ \<Rightarrow> 1 | Inr _ \<Rightarrow> 0,
      \<lambda>x. case x of Inl _ \<Rightarrow> 0 | Inr (cap, od, ty, dir, es, fs) \<Rightarrow> length es]")
    (auto dest!: put_path_longer)

declare list_files.simps [simp del] scan_entries.simps [simp del]

definition getAllFiles_with ::
  "nat \<Rightarrow> listing \<Rightarrow> string option \<Rightarrow> string list \<Rightarrow> string option \<Rightarrow> (bool \<times> string list) res" where
  "getAllFiles_with cap od dirPath files type =
     (case dirPath of None \<Rightarrow> Inr (False, files) | Some dir \<Rightarrow> list_files cap od type dir files)"

definition FileUtil_getAllFiles ::
  "listing \<Rightarrow> string option \<Rightarrow> string list \<Rightarrow> string option \<Rightarrow> (bool \<times> string list) res" where
  "FileUtil_getAllFiles = getAllFiles_with 500"

definition getAllFiles ::
  "listing \<Rightarrow> string option \<Rightarrow> string list \<Rightarrow> string option \<Rightarrow> (bool \<times> string list) res" where
  "getAllFiles = getAllFiles_with 512"

subsection \<open>The files below a directory\<close>

text \<open>Specification: the paths that are put together while listing, directories and files.\<close>

definition listed :: "dirent \<Rightarrow> bool" where
  "listed e \<longleftrightarrow> d_name e \<noteq> ''.'' \<and> d_name e \<noteq> ''..''"

inductive dir_below :: "listing \<Rightarrow> string \<Rightarrow> string \<Rightarrow> bool" for od :: listing where
  here: "dir_below od dir dir"
| down: "od dir = Some es \<Longrightarrow> e \<in> set es \<Longrightarrow> d_type e = 4 \<Longrightarrow> listed e \<Longrightarrow>
    dir_below od (absolute dir (d_name e)) d \<Longrightarrow> dir_below od dir d"

definition below :: "listing \<Rightarrow> string \<Rightarrow> string set" where
  "below od dir = {d. dir_below od dir d}"

definition subdirs :: "listing \<Rightarrow> string \<Rightarrow> dirent set" where
  "subdirs od dir = {e. \<exists>es. od dir = Some es \<and> e \<in> set es \<and> d_type e = 4 \<and> listed e}"

definition matches :: "listing \<Rightarrow> string option \<Rightarrow> string \<Rightarrow> dirent set" where
  "matches od type dir = {e. \<exists>es ty. od dir = Some es \<and> type = Some ty \<and> e \<in> set es \<and> d_type e = 8 \<and>
     listed e \<and> ends_in ty (d_name e)}"

text \<open>The matching files below a directory, and with them the directories below it.\<close>

definition files_below :: "listing \<Rightarrow> string option \<Rightarrow> string \<Rightarrow> string set" where
  "files_below od type dir = (\<Union>d\<in>below od dir. (\<lambda>e. absolute d (d_name e)) ` matches od type d)"

definition paths_below :: "listing \<Rightarrow> string option \<Rightarrow> string \<Rightarrow> string set" where
  "paths_below od type dir =
     (\<Union>d\<in>below od dir. (\<lambda>e. absolute d (d_name e)) ` (matches od type d \<union> subdirs od d))"

lemma below_unfold:
  "below od dir = insert dir (\<Union>e\<in>subdirs od dir. below od (absolute dir (d_name e)))"
proof (rule set_eqI)
  fix d
  show "d \<in> below od dir \<longleftrightarrow> d \<in> insert dir (\<Union>e\<in>subdirs od dir. below od (absolute dir (d_name e)))"
    by (subst below_def, simp add: dir_below.simps [of od dir d]) (auto simp: below_def subdirs_def)
qed

text \<open>What one entry contributes to the two sets.\<close>

definition entry_files :: "listing \<Rightarrow> string option \<Rightarrow> string \<Rightarrow> dirent \<Rightarrow> string set" where
  "entry_files od type dir e =
     (if \<not> listed e then {}
      else if d_type e = 8 then
        (case type of None \<Rightarrow> {} | Some ty \<Rightarrow> if ends_in ty (d_name e) then {absolute dir (d_name e)} else {})
      else if d_type e = 4 then files_below od type (absolute dir (d_name e))
      else {})"

definition entry_paths :: "listing \<Rightarrow> string option \<Rightarrow> string \<Rightarrow> dirent \<Rightarrow> string set" where
  "entry_paths od type dir e =
     (if \<not> listed e then {}
      else if d_type e = 4 then insert (absolute dir (d_name e)) (paths_below od type (absolute dir (d_name e)))
      else entry_files od type dir e)"

lemma files_below_unfold:
  "files_below od type dir = (case od dir of None \<Rightarrow> {} | Some es \<Rightarrow> (\<Union>e\<in>set es. entry_files od type dir e))"
proof -
  have "files_below od type dir = (\<lambda>e. absolute dir (d_name e)) ` matches od type dir \<union>
      (\<Union>e\<in>subdirs od dir. files_below od type (absolute dir (d_name e)))"
    unfolding files_below_def by (subst below_unfold) auto
  then show ?thesis
    by (cases "od dir"; cases type)
      (auto simp: matches_def subdirs_def entry_files_def split: if_splits)
qed

lemma paths_below_unfold:
  "paths_below od type dir = (case od dir of None \<Rightarrow> {} | Some es \<Rightarrow> (\<Union>e\<in>set es. entry_paths od type dir e))"
proof -
  have "paths_below od type dir = (\<lambda>e. absolute dir (d_name e)) ` (matches od type dir \<union> subdirs od dir) \<union>
      (\<Union>e\<in>subdirs od dir. paths_below od type (absolute dir (d_name e)))"
    unfolding paths_below_def by (subst below_unfold) auto
  then show ?thesis
    by (cases "od dir"; cases type)
      (auto simp: matches_def subdirs_def entry_paths_def entry_files_def split: if_splits)
qed

subsection \<open>The listing is the specification\<close>

definition lists :: "nat \<Rightarrow> string set \<Rightarrow> string set \<Rightarrow> string list \<Rightarrow> string list res \<Rightarrow> bool" where
  "lists cap F P files r \<longleftrightarrow>
     (if \<forall>p\<in>P. length p < cap then \<exists>fs. r = Inr (files @ fs) \<and> set fs = F else r = Inl OutOfBounds)"

lemma lists_bnd:
  assumes "lists cap F P files r" and "\<And>fs. r = Inr (files @ fs) \<Longrightarrow> lists cap G Q (files @ fs) (k (files @ fs))"
  shows "lists cap (F \<union> G) (P \<union> Q) files (bnd r k)"
proof (cases "\<forall>p\<in>P. length p < cap")
  case True
  then obtain fs where fs: "r = Inr (files @ fs)" "set fs = F" using assms(1) by (auto simp: lists_def)
  from assms(2) [OF fs(1)] True fs show ?thesis by (auto simp: lists_def split: if_splits)
next
  case False
  then show ?thesis using assms(1) by (auto simp: lists_def)
qed

lemma lists_put_path:
  "lists cap {absolute dir nm} {absolute dir nm} files (bnd (put_path cap dir nm) (\<lambda>p. Inr (files @ [p])))"
  by (simp add: lists_def put_path_def)

text \<open>One entry of a directory, given what the recursive call does.\<close>

definition visit :: "nat \<Rightarrow> listing \<Rightarrow> string option \<Rightarrow> string \<Rightarrow> dirent \<Rightarrow> string list \<Rightarrow> string list res" where
  "visit cap od type dir e files =
     (if d_type e = 10 \<or> d_name e = ''.'' \<or> d_name e = ''..'' then Inr files
      else if d_type e = 8 then
        (case type of
           None \<Rightarrow> Inr files
         | Some ty \<Rightarrow>
             if ends_in ty (d_name e) then bnd (put_path cap dir (d_name e)) (\<lambda>p. Inr (files @ [p]))
             else Inr files)
      else if d_type e = 4 then
        bnd (put_path cap dir (d_name e)) (\<lambda>p.
          bnd (list_files cap od type p files) (\<lambda>(_, files). Inr files))
      else Inr files)"

lemma scan_visit:
  "scan_entries cap od type dir (e # es) files =
    bnd (visit cap od type dir e files) (scan_entries cap od type dir es)"
  by (subst scan_entries.simps) (simp add: visit_def)

definition lists_dir :: "nat \<Rightarrow> listing \<Rightarrow> string option \<Rightarrow> string \<Rightarrow> string list \<Rightarrow> (bool \<times> string list) res \<Rightarrow> bool" where
  "lists_dir cap od type dir files x \<longleftrightarrow>
     (\<exists>r. x = bnd r (\<lambda>fs. Inr (od dir \<noteq> None, fs)) \<and>
       lists cap (files_below od type dir) (paths_below od type dir) files r)"

lemma visit_dir:
  assumes e: "listed e" "d_type e = 4"
    and rec: "length (absolute dir (d_name e)) < cap \<Longrightarrow>
      lists_dir cap od type (absolute dir (d_name e)) files (list_files cap od type (absolute dir (d_name e)) files)"
  shows "lists cap (entry_files od type dir e) (entry_paths od type dir e) files (visit cap od type dir e files)"
proof -
  have ef: "entry_files od type dir e = files_below od type (absolute dir (d_name e))"
    "entry_paths od type dir e =
      insert (absolute dir (d_name e)) (paths_below od type (absolute dir (d_name e)))"
    using e by (simp_all add: entry_files_def entry_paths_def)
  show ?thesis
  proof (cases "length (absolute dir (d_name e)) < cap")
    case fit: True
    obtain r where r: "list_files cap od type (absolute dir (d_name e)) files =
        bnd r (\<lambda>fs. Inr (od (absolute dir (d_name e)) \<noteq> None, fs))"
      "lists cap (files_below od type (absolute dir (d_name e))) (paths_below od type (absolute dir (d_name e))) files r"
      using rec [OF fit] by (auto simp: lists_dir_def)
    have "visit cap od type dir e files = r"
      using e fit r(1) by (cases r) (simp_all add: visit_def listed_def put_path_def)
    with r(2) fit show ?thesis unfolding ef by (simp add: lists_def)
  next
    case False
    then have "visit cap od type dir e files = Inl OutOfBounds"
      using e by (simp add: visit_def listed_def put_path_def)
    then show ?thesis unfolding ef using False by (simp add: lists_def)
  qed
qed

lemma visit_other:
  "\<not> (listed e \<and> d_type e = 4) \<Longrightarrow>
    lists cap (entry_files od type dir e) (entry_paths od type dir e) files (visit cap od type dir e files)"
  using lists_put_path [of cap dir "d_name e" files]
  by (auto simp: visit_def entry_files_def entry_paths_def listed_def lists_def split: option.splits)

lemma list_files_spec:
  shows "lists_dir cap od type dir files (list_files cap od type dir files)"
    and "lists cap (\<Union>e\<in>set es. entry_files od type dir e) (\<Union>e\<in>set es. entry_paths od type dir e) files
      (scan_entries cap od type dir es files)"
proof (induction cap od type dir files and cap od type dir es files rule: list_files_scan_entries.induct)
  case (1 cap od type dir files)
  show ?case
  proof (cases "od dir")
    case None
    then show ?thesis unfolding lists_dir_def
      by (intro exI [of _ "Inr files"])
        (simp add: list_files.simps files_below_unfold [of od type dir] paths_below_unfold [of od type dir] lists_def)
  next
    case (Some es)
    then show ?thesis using 1 [OF Some] unfolding lists_dir_def
      by (intro exI [of _ "scan_entries cap od type dir es files"])
        (simp add: list_files.simps files_below_unfold [of od type dir] paths_below_unfold [of od type dir])
  qed
next
  case (2 cap od type dir files)
  then show ?case by (simp add: lists_def scan_entries.simps)
next
  case (3 cap od type dir e es files)
  have "lists cap (entry_files od type dir e) (entry_paths od type dir e) files (visit cap od type dir e files)"
  proof (cases "listed e \<and> d_type e = 4")
    case True
    then have l: "d_type e \<noteq> 10" "d_name e \<noteq> ''.''" "d_name e \<noteq> ''..''" "d_type e \<noteq> 8" "d_type e = 4"
      by (auto simp: listed_def)
    show ?thesis
    proof (rule visit_dir)
      assume "length (absolute dir (d_name e)) < cap"
      then have "put_path cap dir (d_name e) = Inr (absolute dir (d_name e))" by (simp add: put_path_def)
      from 3(1) [OF _ _ _ this] l show "lists_dir cap od type (absolute dir (d_name e)) files
          (list_files cap od type (absolute dir (d_name e)) files)" by auto
    qed (use True in auto)
  qed (rule visit_other)
  from lists_bnd [OF this, of "\<Union>e\<in>set es. entry_files od type dir e" "\<Union>e\<in>set es. entry_paths od type dir e"
      "scan_entries cap od type dir es"]
  show ?case using 3(2) unfolding scan_visit by (auto simp: visit_def)
qed


definition sample_listing :: listing where
  "sample_listing = (\<lambda>_. None)(''d'' := Some [\<lparr>d_type = 8, d_name = ''a.txt''\<rparr>, \<lparr>d_type = 8, d_name = ''b.bin''\<rparr>])"


subsection \<open>Windows\<close>

text \<open>
  The Windows branches do not look below the directory. \<open>findfirst\<close> is what \<open>_findfirst\<close> and \<open>_findnext\<close> yield for
  a pattern, \<open>None\<close> when the first finds nothing. The class takes the length of \<open>type\<close> before it looks at
  anything.
\<close>

definition win_getAllFiles ::
  "(string \<Rightarrow> string list option) \<Rightarrow> string option \<Rightarrow> string list \<Rightarrow> string option \<Rightarrow> (bool \<times> string list) res" where
  "win_getAllFiles findfirst dirPath files type =
     (case dirPath of
        None \<Rightarrow> Inr (False, files)
      | Some dir \<Rightarrow>
          (case type of
             None \<Rightarrow> Inl NullDeref
           | Some ty \<Rightarrow>
               (let ap = [CHR 0x5C, CHR ''*''] @ ty in
                case findfirst (dir @ ap) of
                  None \<Rightarrow> Inr (True, files)
                | Some names \<Rightarrow> Inr (True, fold (\<lambda>name files. files @ [name]) names files))))"

text \<open>It lists names without their directory, reports success for a directory that does not exist, and
  has no default ending: the POSIX branch answers in all three cases otherwise.\<close>

lemma win_getAllFiles_names:
  "win_getAllFiles findfirst (Some dir) files (Some ty) =
    Inr (True, files @ (case findfirst (dir @ [CHR 0x5C, CHR ''*''] @ ty) of None \<Rightarrow> [] | Some names \<Rightarrow> names))"
proof -
  have "fold (\<lambda>name files. files @ [name]) names files = files @ names" for names :: "string list"
    by (induction names arbitrary: files) simp_all
  then show ?thesis by (simp add: win_getAllFiles_def split: option.splits)
qed

lemma win_getAllFiles_differs:
  "win_getAllFiles findfirst (Some dir) files None = Inl NullDeref"
  "od dir = None \<Longrightarrow> FileUtil_getAllFiles od (Some dir) files type = Inr (False, files)"
  by (simp_all add: win_getAllFiles_def FileUtil_getAllFiles_def getAllFiles_with_def list_files.simps)

text \<open>The C function adds \<open>type\<close> to the pattern without looking at it, and fails when nothing is found.\<close>

definition win_getAllFiles_C ::
  "(string \<Rightarrow> string list option) \<Rightarrow> string option \<Rightarrow> string list \<Rightarrow> string option \<Rightarrow> (bool \<times> string list) res" where
  "win_getAllFiles_C findfirst dirPath files type =
     (case dirPath of
        None \<Rightarrow> Inr (False, files)
      | Some dir \<Rightarrow>
          (case type of
             None \<Rightarrow> Inl NullDeref
           | Some ty \<Rightarrow>
               (case findfirst (dir @ ([CHR 0x5C, CHR ''*''] @ ty)) of
                  None \<Rightarrow> Inr (False, files)
                | Some names \<Rightarrow> Inr (True, fold (\<lambda>name files. files @ [name]) names files))))"

lemma win_getAllFiles_same_list:
  "map_sum id snd (win_getAllFiles_C findfirst dir files type) = map_sum id snd (win_getAllFiles findfirst dir files type)"
  by (simp add: win_getAllFiles_C_def win_getAllFiles_def split: option.splits)

end
