(* ===== verification/Asset_Files.thy ===== *)
theory Asset_Files
  imports Cpp_File
begin

text \<open>
  Reading the assets of an Android package: the class \<open>AssetFile\<close> (\<open>src/os/AssetFile.cpp\<close>), a File
  on a stream that \<open>funopen\<close> makes from an asset, and the C interface to one global AssetFile
  (\<open>src/os/CAssetFile.cpp\<close>). What the asset manager knows is \<open>assets\<close> of the world.
\<close>

record AssetFile = File +
  mSize :: nat

text \<open>The globals: the asset manager, the C interface's file, and the world.\<close>

record capi =
  fw :: fsworld
  gAssetManager :: ptr
  cFile :: "AssetFile option"

definition EACCES :: int where "EACCES = 13"

text \<open>The write function given to \<open>funopen\<close>.\<close>

definition android_write :: "string \<Rightarrow> nat \<Rightarrow> int" where
  "android_write buf n = EACCES"

text \<open>
  It claims to have written 13 bytes, whatever it was given; the C library takes a negative result for a
  failure.
\<close>

lemma android_write_claims: "android_write buf n \<noteq> -1" "n < 13 \<Longrightarrow> int n < android_write buf n"
  by (simp_all add: android_write_def EACCES_def)

text \<open>The other callbacks forward to the open asset: its bytes and its position, closed or not.\<close>

record asset =
  aBytes :: string
  aPos :: nat
  aOpen :: bool

definition android_read :: "asset \<Rightarrow> nat \<Rightarrow> int \<times> string \<times> asset" where
  "android_read a n =
     (let bs = take n (drop (aPos a) (aBytes a)) in (int (length bs), bs, a\<lparr>aPos := aPos a + length bs\<rparr>))"

text \<open>\<open>AAsset_seek\<close> with \<open>whence\<close> 0, 1 or 2: the new position, or -1 when it is outside the asset.\<close>

definition android_seek :: "asset \<Rightarrow> int \<Rightarrow> nat \<Rightarrow> int \<times> asset" where
  "android_seek a offset whence =
     (let p = offset + (if whence = 0 then 0 else if whence = 1 then int (aPos a) else int (length (aBytes a))) in
      if 0 \<le> p \<and> p \<le> int (length (aBytes a)) then (p, a\<lparr>aPos := nat p\<rparr>) else (-1, a))"

definition android_close :: "asset \<Rightarrow> int \<times> asset" where
  "android_close a = (0, a\<lparr>aOpen := False\<rparr>)"

text \<open>Reads of any sizes, one after the other, give the bytes of the asset in order.\<close>

primrec android_reads :: "nat list \<Rightarrow> asset \<Rightarrow> string" where
  "android_reads [] a = []"
| "android_reads (n # ns) a = (let (_, bs, a) = android_read a n in bs @ android_reads ns a)"

lemma android_reads_prefix:
  "aPos a \<le> length (aBytes a) \<Longrightarrow> android_reads ns a = take (sum_list ns) (drop (aPos a) (aBytes a))"
proof (induction ns arbitrary: a)
  case (Cons n ns)
  let ?bs = "take n (drop (aPos a) (aBytes a))"
  let ?a = "a\<lparr>aPos := aPos a + length ?bs\<rparr>"
  have "android_reads ns ?a = take (sum_list ns) (drop (aPos a + length ?bs) (aBytes a))"
    using Cons.IH [of ?a] Cons.prems by simp
  moreover have "drop (aPos a + length ?bs) (aBytes a) = drop n (drop (aPos a) (aBytes a))"
    using Cons.prems by (cases "aPos a + n \<le> length (aBytes a)") (simp_all add: add.commute)
  ultimately show ?case by (simp add: android_read_def Let_def take_add)
qed simp

lemma android_rewind_reads:
  assumes "android_seek a 0 0 = (r, b)"
  shows "r = 0 \<and> android_reads ns b = take (sum_list ns) (aBytes a)"
  using assms android_reads_prefix [of b ns] by (auto simp: android_seek_def)

definition android_fopen :: "string \<Rightarrow> string \<Rightarrow> fsworld \<Rightarrow> ptr \<times> nat option \<times> fsworld" where
  "android_fopen fname mode W =
     (if mode \<noteq> [] \<and> hd mode = CHR ''w'' then (0, None, W)
      else
        (case assets W fname of
           None \<Rightarrow> (0, None, W)
         | Some c \<Rightarrow>
             (let (p, W) = new_stream \<lparr>spath = fname, sAsset = True, sRead = True, sWrite = False,
                sAppend = False, spos = 0, sEof = False\<rparr> W
              in (p, Some (length c), W))))"

definition AssetFile_new :: AssetFile where
  "AssetFile_new = File.extend File_new \<lparr>mSize = 0\<rparr>"

definition AssetFile_fopen :: "string \<Rightarrow> string \<Rightarrow> AssetFile \<Rightarrow> fsworld \<Rightarrow> bool \<times> AssetFile \<times> fsworld" where
  "AssetFile_fopen path mode f W =
     (let (f, W) =
        (if mFile f = 0 then
           (let (p, n, W) = android_fopen path mode W in
            (f\<lparr>mFile := p, mSize := (case n of None \<Rightarrow> mSize f | Some k \<Rightarrow> k)\<rparr>, W))
         else (f, W))
      in (mFile f \<noteq> 0, f\<lparr>mPath := path\<rparr>, W))"

definition AssetFile_open :: "string \<Rightarrow> string \<Rightarrow> fsworld \<Rightarrow> AssetFile \<times> fsworld" where
  "AssetFile_open path mode W = snd (AssetFile_fopen path mode AssetFile_new W)"

definition AssetFile_fclose :: "AssetFile \<Rightarrow> fsworld \<Rightarrow> (AssetFile \<times> fsworld) res" where
  "AssetFile_fclose f W =
     (if mFile f \<noteq> 0 then bnd (c_fclose (mFile f) W) (\<lambda>W. Inr (f\<lparr>mFile := 0\<rparr>, W)) else Inr (f, W))"

text \<open>The destructor, then the one of the base class.\<close>

definition AssetFile_delete :: "AssetFile \<Rightarrow> fsworld \<Rightarrow> fsworld res" where
  "AssetFile_delete f W = bnd (AssetFile_fclose f W) (\<lambda>(f, W). File_delete (File.truncate f) W)"

definition AssetFile_fread ::
  "nat \<Rightarrow> nat \<Rightarrow> AssetFile \<Rightarrow> fsworld \<Rightarrow> (nat \<times> string \<times> AssetFile \<times> fsworld) res" where
  "AssetFile_fread sz count f W =
     (if mFile f \<noteq> 0 then
        bnd (c_fseek_set (mFile f) (mReadPos f) W) (\<lambda>W.
          bnd (c_fread sz count (mFile f) W) (\<lambda>(r, bs, W).
            bnd (c_ftell (mFile f) W) (\<lambda>p. Inr (r, bs, f\<lparr>mReadPos := p\<rparr>, W))))
      else Inr (0, [], f, W))"

definition AssetFile_fwrite :: "string \<Rightarrow> nat \<Rightarrow> nat \<Rightarrow> AssetFile \<Rightarrow> nat" where
  "AssetFile_fwrite bs sz count f = 0"

definition AssetFile_fgets :: "nat \<Rightarrow> AssetFile \<Rightarrow> fsworld \<Rightarrow> (string option \<times> AssetFile \<times> fsworld) res" where
  "AssetFile_fgets bufferSize f W =
     (if mFile f \<noteq> 0 then
        bnd (c_fseek_set (mFile f) (mReadPos f) W) (\<lambda>W.
          bnd (c_fgets bufferSize (mFile f) W) (\<lambda>(r, W).
            bnd (c_ftell (mFile f) W) (\<lambda>p. Inr (r, f\<lparr>mReadPos := p\<rparr>, W))))
      else Inr (None, f, W))"

definition AssetFile_size :: "AssetFile \<Rightarrow> nat" where
  "AssetFile_size f = mSize f"

definition AssetFile_eof :: "AssetFile \<Rightarrow> fsworld \<Rightarrow> bool res" where
  "AssetFile_eof f W = (if mFile f \<noteq> 0 then c_feof (mFile f) W else Inr True)"

text \<open>The overridden resets have empty bodies.\<close>

definition AssetFile_resetRead :: "AssetFile \<Rightarrow> AssetFile" where
  "AssetFile_resetRead f = f"

definition AssetFile_resetWrite :: "AssetFile \<Rightarrow> AssetFile" where
  "AssetFile_resetWrite f = f"

definition AssetFile_getPath :: "AssetFile \<Rightarrow> string" where
  "AssetFile_getPath f = mPath f"

definition AssetFile_setAssetManager :: "ptr \<Rightarrow> capi \<Rightarrow> capi" where
  "AssetFile_setAssetManager manager c = c\<lparr>gAssetManager := manager\<rparr>"

definition AssetFile_getAssetManager :: "capi \<Rightarrow> ptr" where
  "AssetFile_getAssetManager c = gAssetManager c"

subsection \<open>The C interface\<close>

definition hadSetAssetManager :: "capi \<Rightarrow> bool" where
  "hadSetAssetManager c = (AssetFile_getAssetManager c \<noteq> 0)"

definition setAssetManager :: "ptr \<Rightarrow> capi \<Rightarrow> capi" where
  "setAssetManager manager c = AssetFile_setAssetManager manager c"

definition fileOpen :: "string \<Rightarrow> string \<Rightarrow> capi \<Rightarrow> (bool \<times> capi) res" where
  "fileOpen path mode c =
     bnd (case cFile c of
            None \<Rightarrow> Inr (AssetFile_new, fw c)
          | Some f \<Rightarrow> AssetFile_fclose f (fw c)) (\<lambda>(f, W).
       (let (b, f, W) = AssetFile_fopen path mode f W in Inr (b, c\<lparr>cFile := Some f, fw := W\<rparr>)))"

definition fileClose :: "capi \<Rightarrow> capi res" where
  "fileClose c =
     (case cFile c of
        None \<Rightarrow> Inr c
      | Some f \<Rightarrow>
          bnd (AssetFile_fclose f (fw c)) (\<lambda>(f, W).
            bnd (AssetFile_delete f W) (\<lambda>W. Inr (c\<lparr>cFile := None, fw := W\<rparr>))))"

definition fileFread :: "nat \<Rightarrow> nat \<Rightarrow> capi \<Rightarrow> (nat \<times> string \<times> capi) res" where
  "fileFread sz count c =
     (case cFile c of
        None \<Rightarrow> Inr (0, [], c)
      | Some f \<Rightarrow>
          bnd (AssetFile_fread sz count f (fw c)) (\<lambda>(r, bs, f, W).
            Inr (r, bs, c\<lparr>cFile := Some f, fw := W\<rparr>)))"

definition fileGets :: "nat \<Rightarrow> capi \<Rightarrow> (string option \<times> capi) res" where
  "fileGets bufferSize c =
     (case cFile c of
        None \<Rightarrow> Inr (None, c)
      | Some f \<Rightarrow>
          bnd (AssetFile_fgets bufferSize f (fw c)) (\<lambda>(r, f, W). Inr (r, c\<lparr>cFile := Some f, fw := W\<rparr>)))"

definition getFileOneLine ::
  "string option option \<Rightarrow> capi \<Rightarrow> (bool \<times> string option option \<times> nat option \<times> capi) res" where
  "getFileOneLine buf c =
     (case cFile c of
        None \<Rightarrow> Inr (False, buf, None, c)
      | Some f \<Rightarrow>
          bnd (getOneLine buf (File.truncate f) (fw c)) (\<lambda>(b, buf, len, W).
            Inr (b, buf, len, c\<lparr>fw := W\<rparr>)))"

definition file_size :: "capi \<Rightarrow> nat" where
  "file_size c = (case cFile c of None \<Rightarrow> 0 | Some f \<Rightarrow> AssetFile_size f)"

subsection \<open>Where reading starts\<close>

lemma AssetFile_fread_ok:
  assumes "mFile f \<noteq> 0" and "streams W (mFile f) = Some s" and "sRead s" and "0 < n" and "0 \<le> mReadPos f"
  shows "\<exists>W'. AssetFile_fread 1 n f W =
    (let bs = take n (drop (nat (mReadPos f)) (content s W)) in
     Inr (length bs, bs, f\<lparr>mReadPos := mReadPos f + int (length bs)\<rparr>, W'))"
  using assms by (simp add: AssetFile_fread_def c_fread_def Let_def)

text \<open>An asset that the C interface opens is read from its beginning when nothing was open
  before, but when a file was open, \<open>fileOpen\<close> closes it without resetting the read position: the
  new asset is read from where the old one had been left, and its first bytes are lost.\<close>
theorem fileOpen_start:
  assumes "assets (fw c) path = Some a" and "fbrk (fw c) \<noteq> 0" and "0 < n"
    and "cFile c = None \<or> (\<exists>f s. cFile c = Some f \<and> mFile f \<noteq> 0 \<and> streams (fw c) (mFile f) = Some s \<and> 0 \<le> mReadPos f)"
  shows "\<exists>c'. fileOpen path ''r'' c = Inr (True, c') \<and> file_size c' = length a \<and>
    (\<exists>c''. fileFread 1 n c' =
      (let bs = take n (drop (case cFile c of None \<Rightarrow> 0 | Some f \<Rightarrow> nat (mReadPos f)) a)
       in Inr (length bs, bs, c'')))"
proof -
  let ?s = "\<lparr>spath = path, sAsset = True, sRead = True, sWrite = False, sAppend = False, spos = 0, sEof = False\<rparr>"
  obtain f0 W0 where f0: "(case cFile c of None \<Rightarrow> Inr (AssetFile_new, fw c) | Some f \<Rightarrow> AssetFile_fclose f (fw c)) = Inr (f0, W0)"
    "mFile f0 = 0" "mReadPos f0 = (case cFile c of None \<Rightarrow> 0 | Some f \<Rightarrow> mReadPos f)" "0 \<le> mReadPos f0"
    "assets W0 path = Some a" "fbrk W0 = fbrk (fw c)"
    using assms(4)
  proof (elim disjE exE conjE)
    assume "cFile c = None"
    then show ?thesis
      using that [of AssetFile_new "fw c"] assms(1)
      by (simp add: AssetFile_new_def File_new_def File.defs)
  next
    fix f s assume "cFile c = Some f" "mFile f \<noteq> 0" "streams (fw c) (mFile f) = Some s" "0 \<le> mReadPos f"
    then show ?thesis
      using that [of "f\<lparr>mFile := 0\<rparr>" "(fw c)\<lparr>streams := (streams (fw c))(mFile f := None)\<rparr>"] assms(1)
      by (simp add: AssetFile_fclose_def c_fclose_def)
  qed
  let ?f = "f0\<lparr>mPath := path, mFile := fbrk W0, mSize := length a\<rparr>"
  let ?W = "W0\<lparr>streams := (streams W0)(fbrk W0 := Some ?s), fbrk := Suc (fbrk W0)\<rparr>"
  let ?c = "c\<lparr>cFile := Some ?f, fw := ?W\<rparr>"
  have e: "fileOpen path ''r'' c = Inr (True, ?c)"
    using f0 assms(2) by (simp add: fileOpen_def AssetFile_fopen_def android_fopen_def new_stream_def)
  have "content ?s ?W = a" using f0(5) by (simp add: content_def)
  with AssetFile_fread_ok [of ?f ?W ?s n] f0 assms(2,3) have
    "\<exists>c''. fileFread 1 n ?c = (let bs = take n (drop (nat (mReadPos f0)) a) in Inr (length bs, bs, c''))"
    by (auto simp: fileFread_def Let_def)
  moreover have "nat (mReadPos f0) = (case cFile c of None \<Rightarrow> 0 | Some f \<Rightarrow> nat (mReadPos f))"
    using f0(3) by (simp split: option.splits)
  ultimately show ?thesis using e by (auto simp: file_size_def AssetFile_size_def)
qed

definition sample_capi :: capi where
  "sample_capi = \<lparr>fw = (sample_fs [])\<lparr>assets := (\<lambda>_. None)(''a'' := Some ''xyz'')\<rparr>, gAssetManager = 5,
     cFile = Some (File.extend (File_new\<lparr>mFile := 1, mReadPos := 2\<rparr>) \<lparr>mSize = 4\<rparr>)\<rparr>"

theorem fileOpen_start_witness:
  "\<exists>c' c''. fileOpen ''a'' ''r'' sample_capi = Inr (True, c') \<and> fileFread 1 9 c' = Inr (1, ''z'', c'')"
proof -
  have f: "cFile sample_capi = Some (File.extend (File_new\<lparr>mFile := 1, mReadPos := 2\<rparr>) \<lparr>mSize = 4\<rparr>)"
    "assets (fw sample_capi) ''a'' = Some ''xyz''" "fbrk (fw sample_capi) \<noteq> 0" "(0::nat) < 9"
    by (simp_all add: sample_capi_def sample_fs_def)
  have "cFile sample_capi = None \<or> (\<exists>f s. cFile sample_capi = Some f \<and> mFile f \<noteq> 0 \<and>
      streams (fw sample_capi) (mFile f) = Some s \<and> 0 \<le> mReadPos f)"
    by (simp add: sample_capi_def sample_fs_def File.defs File_new_def)
  from fileOpen_start [OF f(2-4) this] f(1) show ?thesis
    by (auto simp: File.defs File_new_def Let_def)
qed

end
