(* ===== verification/Thread_Pool.thy ===== *)
theory Thread_Pool
  imports Step_System "HOL-Library.Multiset"
begin

text \<open>
  The thread pool of \<open>inc/os/SimpleFixedThreadpool.hpp\<close>. A task is a \<open>std::function\<close>; only one that
  holds a plain function (\<open>Fn\<close>) has a \<open>target\<close> of the type the worker asks for. The unordered map
  \<open>funParams\<close> is the list of its entries in its iteration order, and where an insertion puts a new
  entry is an argument. A worker keeps the lock from one wait or one task to the next: that section
  is one step, and its outcome \<open>Spins\<close> is the loop that neither waits, runs nor leaves.
\<close>

datatype task = Fn nat | Functor nat

record pool_data =
  is_shutdown :: bool
  tasks :: "task list"
  funParams :: "(ptr \<times> task) list"

definition pool_data_new :: pool_data where
  "pool_data_new = \<lparr>is_shutdown = False, tasks = [], funParams = []\<rparr>"

fun same_target :: "task \<Rightarrow> task \<Rightarrow> bool" where
  "same_target (Fn f) (Fn g) \<longleftrightarrow> f = g"
| "same_target _ _ \<longleftrightarrow> False"

definition set_param :: "nat \<Rightarrow> ptr \<Rightarrow> task \<Rightarrow> (ptr \<times> task) list \<Rightarrow> (ptr \<times> task) list" where
  "set_param k arg t kvs =
     (if arg \<in> fst ` set kvs then map (\<lambda>(a, u). if a = arg then (a, t) else (a, u)) kvs
      else take k kvs @ (arg, t) # drop k kvs)"

definition pool_execute :: "nat \<Rightarrow> task \<Rightarrow> ptr \<Rightarrow> pool_data \<Rightarrow> pool_data" where
  "pool_execute k t arg d = d\<lparr>funParams := set_param k arg t (funParams d), tasks := tasks d @ [t]\<rparr>"

datatype section_outcome = Runs task ptr pool_data | Waits | Exits | Spins

definition worker_section :: "pool_data \<Rightarrow> section_outcome" where
  "worker_section d =
     (case tasks d of
        func # rest \<Rightarrow>
          (case find (\<lambda>(_, t). same_target func t) (funParams d) of
             Some (param, _) \<Rightarrow>
               Runs func param (d\<lparr>funParams := filter (\<lambda>(a, _). a \<noteq> param) (funParams d), tasks := rest\<rparr>)
           | None \<Rightarrow> Spins)
      | [] \<Rightarrow> if is_shutdown d then Exits else Waits)"

definition pool_shutdown :: "pool_data \<Rightarrow> pool_data" where
  "pool_shutdown d = d\<lparr>is_shutdown := True\<rparr>"

subsection \<open>The pool and its threads\<close>

text \<open>
  Workers are counted by where they are: waiting, ready to take the lock, running tasks, gone. The
  lists \<open>submitted\<close> and \<open>ran\<close> record the pairs of task and argument.
\<close>

record psys =
  pdata :: pool_data
  pWait :: nat
  pReady :: nat
  pGone :: nat
  running :: "(task \<times> ptr) list"
  spinning :: bool
  submitted :: "(task \<times> ptr) list"
  ran :: "(task \<times> ptr) list"

definition fixed_thread_pool_new :: "nat \<Rightarrow> psys" where
  "fixed_thread_pool_new thread_count = \<lparr>pdata = pool_data_new, pWait = 0, pReady = thread_count,
     pGone = 0, running = [], spinning = False, submitted = [], ran = []\<rparr>"

definition do_execute :: "nat \<Rightarrow> task \<Rightarrow> ptr \<Rightarrow> psys \<Rightarrow> psys" where
  "do_execute k t arg s =
     (let s = s\<lparr>pdata := pool_execute k t arg (pdata s), submitted := submitted s @ [(t, arg)]\<rparr> in
      if pWait s = 0 then s else s\<lparr>pWait := pWait s - 1, pReady := Suc (pReady s)\<rparr>)"

definition do_worker :: "psys \<Rightarrow> psys" where
  "do_worker s =
     (case worker_section (pdata s) of
        Runs t a d \<Rightarrow> s\<lparr>pdata := d, pReady := pReady s - 1, running := (t, a) # running s, ran := ran s @ [(t, a)]\<rparr>
      | Waits \<Rightarrow> s\<lparr>pReady := pReady s - 1, pWait := Suc (pWait s)\<rparr>
      | Exits \<Rightarrow> s\<lparr>pReady := pReady s - 1, pGone := Suc (pGone s)\<rparr>
      | Spins \<Rightarrow> s\<lparr>spinning := True\<rparr>)"

definition do_finish :: "task \<times> ptr \<Rightarrow> psys \<Rightarrow> psys" where
  "do_finish x s = s\<lparr>running := remove1 x (running s), pReady := Suc (pReady s)\<rparr>"

definition do_delete :: "psys \<Rightarrow> psys" where
  "do_delete s = s\<lparr>pdata := pool_shutdown (pdata s), pReady := pReady s + pWait s, pWait := 0\<rparr>"

text \<open>
  The steps. The lock must be free (\<open>\<not> spinning\<close>). Clients keep the discipline of the example in the
  file: plain functions, and no argument that still waits in the pool.
\<close>

inductive pool_step :: "psys \<Rightarrow> psys res \<Rightarrow> bool" where
  exec: "\<not> spinning s \<Longrightarrow> \<not> is_shutdown (pdata s) \<Longrightarrow> t = Fn f \<Longrightarrow> arg \<notin> fst ` set (funParams (pdata s)) \<Longrightarrow>
    pool_step s (Inr (do_execute k t arg s))"
| work: "\<not> spinning s \<Longrightarrow> 0 < pReady s \<Longrightarrow> pool_step s (Inr (do_worker s))"
| finish: "x \<in> set (running s) \<Longrightarrow> pool_step s (Inr (do_finish x s))"
| wake: "0 < pWait s \<Longrightarrow> pool_step s (Inr (s\<lparr>pWait := pWait s - 1, pReady := Suc (pReady s)\<rparr>))"
| del: "\<not> spinning s \<Longrightarrow> pool_step s (Inr (do_delete s))"

definition pool_start :: "psys \<Rightarrow> bool" where
  "pool_start s \<longleftrightarrow> (\<exists>n. s = fixed_thread_pool_new n)"

definition waiting_pairs :: "pool_data \<Rightarrow> (task \<times> ptr) list" where
  "waiting_pairs d = map (\<lambda>(a, t). (t, a)) (funParams d)"

definition pool_inv :: "psys \<Rightarrow> bool" where
  "pool_inv s \<longleftrightarrow>
     \<not> spinning s \<and>
     mset (map snd (funParams (pdata s))) = mset (tasks (pdata s)) \<and>
     distinct (map fst (funParams (pdata s))) \<and>
     (\<forall>t\<in>set (tasks (pdata s)). \<exists>f. t = Fn f) \<and>
     mset (submitted s) = mset (ran s) + mset (waiting_pairs (pdata s)) \<and>
     (0 < pWait s \<longrightarrow> length (tasks (pdata s)) \<le> pReady s \<and> \<not> is_shutdown (pdata s)) \<and>
     (0 < pGone s \<longrightarrow> tasks (pdata s) = [] \<and> is_shutdown (pdata s))"

lemma mset_filter_key:
  assumes "distinct (map fst kvs)" and "(a, t) \<in> set kvs"
  shows "mset kvs = add_mset (a, t) (mset (filter (\<lambda>(b, _). b \<noteq> a) kvs))"
  using assms
proof (induction kvs)
  case (Cons x kvs)
  show ?case
  proof (cases "x = (a, t)")
    case True
    then have "a \<notin> fst ` set kvs" using Cons.prems(1) by auto
    then have "filter (\<lambda>(b, _). b \<noteq> a) kvs = kvs" by (force simp: filter_id_conv)
    with True show ?thesis by simp
  next
    case False
    then have "(a, t) \<in> set kvs" using Cons.prems(2) by simp
    moreover from this have "a \<in> fst ` set kvs" by force
    then have "fst x \<noteq> a" using Cons.prems(1) by auto
    ultimately show ?thesis using Cons by (cases x) simp
  qed
qed simp

lemma worker_section_runs:
  assumes "mset (map snd (funParams d)) = mset (tasks d)" and "distinct (map fst (funParams d))"
    and "\<forall>t\<in>set (tasks d). \<exists>f. t = Fn f" and "tasks d = t # rest"
  shows "\<exists>a d'. worker_section d = Runs t a d' \<and> tasks d' = rest \<and> is_shutdown d' = is_shutdown d \<and>
    mset (map snd (funParams d')) = mset rest \<and> distinct (map fst (funParams d')) \<and>
    mset (waiting_pairs d) = add_mset (t, a) (mset (waiting_pairs d'))"
proof -
  have "t \<in># mset (map snd (funParams d))" using assms(1,4) by simp
  then obtain b where "(b, t) \<in> set (funParams d)" by auto
  moreover obtain f where f: "t = Fn f" using assms(3,4) by auto
  moreover from f have "same_target t t" by simp
  ultimately have "find (\<lambda>(_, u). same_target t u) (funParams d) \<noteq> None"
    unfolding find_None_iff by blast
  then obtain a u where fd: "find (\<lambda>(_, u). same_target t u) (funParams d) = Some (a, u)"
    by (metis not_None_eq surj_pair)
  then have u: "(a, u) \<in> set (funParams d)" "same_target t u"
    by (auto simp: find_Some_iff in_set_conv_nth)
  then have ut: "u = t" using f by (cases u) auto
  let ?k = "filter (\<lambda>(b, _). b \<noteq> a) (funParams d)"
  let ?d = "d\<lparr>funParams := ?k, tasks := rest\<rparr>"
  have m: "mset (funParams d) = add_mset (a, t) (mset ?k)"
    using mset_filter_key [OF assms(2)] u(1) ut by blast
  have "mset (map snd (funParams d)) = add_mset t (mset (map snd ?k))"
    using arg_cong [OF m, of "image_mset snd"] by simp
  then have "mset (map snd ?k) = mset rest" using assms(1,4) by simp
  moreover have "mset (waiting_pairs d) = add_mset (t, a) (mset (waiting_pairs ?d))"
    using arg_cong [OF m, of "image_mset (\<lambda>(a, t). (t, a))"] by (simp add: waiting_pairs_def)
  moreover have "distinct (map fst ?k)" using assms(2) by (simp add: distinct_map_filter)
  ultimately show ?thesis using fd assms(4) by (simp add: worker_section_def)
qed


lemma do_worker_inv:
  assumes "pool_inv s" and "0 < pReady s"
  shows "pool_inv (do_worker s)"
proof (cases "tasks (pdata s)")
  case Nil
  then have "worker_section (pdata s) = (if is_shutdown (pdata s) then Exits else Waits)"
    by (simp add: worker_section_def)
  then show ?thesis using assms Nil by (auto simp: do_worker_def pool_inv_def)
next
  case (Cons t rest)
  from worker_section_runs [OF _ _ _ Cons] assms(1) obtain a d' where
    d: "worker_section (pdata s) = Runs t a d'" "tasks d' = rest" "is_shutdown d' = is_shutdown (pdata s)"
    "mset (map snd (funParams d')) = mset rest" "distinct (map fst (funParams d'))"
    "mset (waiting_pairs (pdata s)) = add_mset (t, a) (mset (waiting_pairs d'))"
    unfolding pool_inv_def by blast
  have "length rest \<le> pReady s - 1 \<and> \<not> is_shutdown (pdata s)" if "0 < pWait s"
    using that assms(1) Cons by (auto simp: pool_inv_def)
  then show ?thesis using assms(1) d Cons unfolding pool_inv_def do_worker_def by auto
qed

lemma do_execute_inv:
  assumes "pool_inv s" and "\<not> is_shutdown (pdata s)" and "arg \<notin> fst ` set (funParams (pdata s))"
  shows "pool_inv (do_execute k (Fn f) arg s)"
proof -
  let ?kvs = "funParams (pdata s)"
  define l where "l = take k ?kvs @ (arg, Fn f) # drop k ?kvs"
  have e: "set_param k arg (Fn f) ?kvs = l" using assms(3) by (simp add: set_param_def l_def)
  have "mset (take k ?kvs) + mset (drop k ?kvs) = mset ?kvs" by (metis append_take_drop_id mset_append)
  then have m: "mset l = add_mset (arg, Fn f) (mset ?kvs)" by (simp add: l_def)
  have "mset (map snd l) = add_mset (Fn f) (mset (map snd ?kvs))"
    using arg_cong [OF m, of "image_mset snd"] by simp
  moreover have "mset (map fst l) = add_mset arg (mset (map fst ?kvs))"
    using arg_cong [OF m, of "image_mset fst"] by simp
  then have "distinct (map fst l) \<longleftrightarrow> distinct (arg # map fst ?kvs)"
    by (metis mset.simps(2) mset_eq_imp_distinct_iff)
  moreover have "mset (map (\<lambda>(a, t). (t, a)) l) = add_mset (Fn f, arg) (mset (map (\<lambda>(a, t). (t, a)) ?kvs))"
    using arg_cong [OF m, of "image_mset (\<lambda>(a, t). (t, a))"] by simp
  ultimately show ?thesis using assms e
    by (auto simp: pool_inv_def do_execute_def pool_execute_def waiting_pairs_def Let_def)
qed

interpretation poolp: safe_system pool_start pool_step pool_inv
proof (unfold_locales, goal_cases)
  case (1 s)
  then show ?case
    by (auto simp: pool_start_def pool_inv_def fixed_thread_pool_new_def pool_data_new_def waiting_pairs_def)
next
  case (2 s r)
  from 2(2) show ?case
  proof cases
    case exec
    then show ?thesis using do_execute_inv [OF 2(1)] by auto
  next
    case work
    then show ?thesis using do_worker_inv [OF 2(1)] by auto
  qed (use 2(1) in \<open>auto simp: pool_inv_def do_finish_def do_delete_def pool_shutdown_def waiting_pairs_def\<close>)
qed



text \<open>Outside that discipline a worker spins for ever with the lock held and the pool is dead: at
  once for a callable that is no plain function, and for a second submission of an argument that
  still waits, once the first has been taken.\<close>
theorem pool_spins:
  "worker_section (pool_execute k (Functor f) a pool_data_new) = Spins \<and>
   (\<exists>d. worker_section (pool_execute k (Fn f) a (pool_execute j (Fn g) a pool_data_new)) = Spins \<or>
     worker_section (pool_execute k (Fn f) a (pool_execute j (Fn g) a pool_data_new)) = Runs (Fn g) a d \<and>
     worker_section d = Spins)"
  by (simp add: worker_section_def pool_execute_def pool_data_new_def set_param_def)

subsection \<open>The example task\<close>

text \<open>
  \<open>threadFunc\<close> calls back the \<open>param\<close> object it is given and deletes it. The state is the set of the
  objects that exist, and the list of those called back.
\<close>

definition threadFunc :: "ptr \<Rightarrow> ptr set \<times> ptr list \<Rightarrow> (ptr set \<times> ptr list) res" where
  "threadFunc args s =
     (case s of (live, called) \<Rightarrow>
        if args = 0 then Inr s
        else if args \<notin> live then Inl Dangling
        else Inr (live - {args}, called @ [args]))"

primrec run_tasks :: "ptr list \<Rightarrow> ptr set \<times> ptr list \<Rightarrow> (ptr set \<times> ptr list) res" where
  "run_tasks [] s = Inr s"
| "run_tasks (a # as) s = bnd (threadFunc a s) (run_tasks as)"

lemma run_tasks_each_once:
  assumes "distinct as" and "0 \<notin> set as" and "set as \<subseteq> live"
  shows "run_tasks as (live, called) = Inr (live - set as, called @ as)"
  using assms
proof (induction as arbitrary: live called)
  case (Cons a as)
  then have "run_tasks as (live - {a}, called @ [a]) = Inr (live - {a} - set as, (called @ [a]) @ as)"
    by (intro Cons.IH) auto
  moreover have "live - {a} - set as = live - set (a # as)" by auto
  ultimately show ?case using Cons.prems by (simp add: threadFunc_def)
qed simp

text \<open>
  So a pool to which every object is submitted once runs every callback once and leaves none of the
  objects that it took; an object submitted again after it ran is used after it was deleted.
\<close>

lemma pool_frees_params:
  assumes "reach pool_start pool_step s" and "distinct (map snd (submitted s))"
    and "0 \<notin> snd ` set (submitted s)" and "snd ` set (submitted s) \<subseteq> live"
  shows "run_tasks (map snd (ran s)) (live, []) = Inr (live - snd ` set (ran s), map snd (ran s))"
proof -
  have m: "mset (submitted s) = mset (ran s) + mset (waiting_pairs (pdata s))"
    using poolp.reach_inv [OF assms(1)] by (simp add: pool_inv_def)
  then have "mset (map snd (submitted s)) = mset (map snd (ran s)) + mset (map snd (waiting_pairs (pdata s)))"
    by simp
  then have "mset (map snd (submitted s)) = mset (map snd (ran s) @ map snd (waiting_pairs (pdata s)))" by simp
  then have "distinct (map snd (ran s) @ map snd (waiting_pairs (pdata s)))"
    using assms(2) mset_eq_imp_distinct_iff by blast
  then have "distinct (map snd (ran s))" by simp
  moreover have "set (ran s) \<subseteq> set (submitted s)" using arg_cong [OF m, of set_mset] by auto
  then have "snd ` set (ran s) \<subseteq> snd ` set (submitted s)" by (rule image_mono)
  with assms(3,4) have "0 \<notin> set (map snd (ran s))" "set (map snd (ran s)) \<subseteq> live" by auto
  ultimately show ?thesis using run_tasks_each_once [of "map snd (ran s)" live "[]"] by simp
qed

lemma run_tasks_twice: "a \<noteq> 0 \<Longrightarrow> run_tasks [a, a] (live, called) = Inl Dangling"
  by (simp add: threadFunc_def)

end
