(* ===== verification/Thread_Base.thy ===== *)
theory Thread_Base
  imports Lock_Guards
begin

text \<open>
  The thread wrapper of \<open>src/os/ThreadBase.cpp\<close> on the POSIX branch: one ThreadBase, its owner and
  the thread it starts. The \<open>threaddata\<close> that both use is one heap cell, which the thread frees at its
  end. \<open>start\<close> is two steps of the owner, up to \<open>pthread_create\<close> and from \<open>data->lock()\<close> on, because the
  new thread may run in between. The owner is thread 0, the new thread thread 1.
\<close>

datatype cell = NoData | Live "Mutex option" | Freed

datatype child_pc = ChNone | ChStart | ChRunning | ChDone
datatype owner_pc = OwIdle | OwCreated bool

record ThreadBase =
  mHandle :: nat
  tbName :: string
  mIsJoined :: bool
  mIsAttached :: bool

record tbsys =
  tb :: ThreadBase
  tdata :: cell
  tdname :: string
  comm :: string
  tchild :: child_pc
  towner :: owner_pc

definition ThreadBase_new :: "string \<Rightarrow> tbsys" where
  "ThreadBase_new name = \<lparr>tb = \<lparr>mHandle = 0, tbName = name, mIsJoined = False, mIsAttached = True\<rparr>,
     tdata = NoData, tdname = '''', comm = '''', tchild = ChNone, towner = OwIdle\<rparr>"

definition threaddata_new :: "bool \<Rightarrow> cell" where
  "threaddata_new syn = Live (if syn then Some (Mutex_new PTHREAD_MUTEX_TIMED_NP) else None)"

definition threaddata_lock :: "nat \<Rightarrow> cell \<Rightarrow> cell option res" where
  "threaddata_lock t d =
     (case d of
        NoData \<Rightarrow> Inl NullDeref
      | Freed \<Rightarrow> Inl Dangling
      | Live None \<Rightarrow> Inr (Some d)
      | Live (Some m) \<Rightarrow> bnd (Mutex_lock t m) (\<lambda>r. Inr (map_option (\<lambda>m. Live (Some m)) r)))"

definition threaddata_unlock :: "nat \<Rightarrow> cell \<Rightarrow> cell res" where
  "threaddata_unlock t d =
     (case d of
        NoData \<Rightarrow> Inl NullDeref
      | Freed \<Rightarrow> Inl Dangling
      | Live None \<Rightarrow> Inr d
      | Live (Some m) \<Rightarrow> bnd (Mutex_unlock t m) (\<lambda>m. Inr (Live (Some m))))"

definition threaddata_delete :: "cell \<Rightarrow> cell res" where
  "threaddata_delete d =
     (case d of
        NoData \<Rightarrow> Inl NullDeref
      | Freed \<Rightarrow> Inl Dangling
      | Live None \<Rightarrow> Inr Freed
      | Live (Some m) \<Rightarrow> bnd (Mutex_delete m) (\<lambda>_. Inr Freed))"

text \<open>
  The name of the thread: \<open>snprintf\<close> into 64 bytes, up to a null character in the name; the system keeps
  15 characters of what \<open>prctl\<close> is given. \<open>tdname\<close> is the copy of the name in \<open>threaddata\<close>, \<open>comm\<close> the name
  the system knows.
\<close>

definition thread_name :: "string \<Rightarrow> string" where
  "thread_name name = take 63 (''thread-'' @ takeWhile (\<lambda>c. of_char c \<noteq> (0 :: nat)) name)"

definition set_comm :: "string \<Rightarrow> string" where
  "set_comm name = take 15 name"

definition start_flags :: "bool \<Rightarrow> ThreadBase \<Rightarrow> ThreadBase" where
  "start_flags enJoined b = b\<lparr>mIsJoined := enJoined, mIsAttached := \<not> enJoined\<rparr>"

text \<open>\<open>start\<close>: \<open>created\<close> is the handle \<open>pthread_create\<close> gives, 0 when it fails.\<close>

definition start_create :: "nat \<Rightarrow> bool \<Rightarrow> bool \<Rightarrow> tbsys \<Rightarrow> tbsys" where
  "start_create created syn enJoined s =
     (if created = 0 then
        s\<lparr>tb := start_flags enJoined ((tb s)\<lparr>mHandle := 0\<rparr>), tdata := Freed, towner := OwIdle\<rparr>
      else
        s\<lparr>tb := (tb s)\<lparr>mHandle := created\<rparr>, tdata := threaddata_new syn, tdname := tbName (tb s), tchild := ChStart,
          towner := OwCreated enJoined\<rparr>)"

definition start_lock :: "bool \<Rightarrow> tbsys \<Rightarrow> tbsys res" where
  "start_lock enJoined s =
     bnd (threaddata_lock 0 (tdata s)) (\<lambda>r.
       case r of
         None \<Rightarrow> Inr s
       | Some d \<Rightarrow> Inr (s\<lparr>tdata := d, tb := start_flags enJoined (tb s), towner := OwIdle\<rparr>))"

text \<open>\<open>startThread\<close>: the thread takes its name, unlocks, runs the function and deletes its data.\<close>

definition runThreadFunc :: "tbsys \<Rightarrow> tbsys res" where
  "runThreadFunc s = bnd (threaddata_unlock 1 (tdata s)) (\<lambda>d. Inr (s\<lparr>tdata := d, tchild := ChRunning\<rparr>))"

definition startThread :: "tbsys \<Rightarrow> tbsys res" where
  "startThread s =
     (case tchild s of
        ChStart \<Rightarrow> runThreadFunc (s\<lparr>comm := set_comm (thread_name (tdname s))\<rparr>)
      | ChRunning \<Rightarrow> bnd (threaddata_delete (tdata s)) (\<lambda>d. Inr (s\<lparr>tdata := d, tchild := ChDone\<rparr>))
      | _ \<Rightarrow> Inr s)"

definition joinable :: "ThreadBase \<Rightarrow> bool" where
  "joinable b = (mIsJoined b \<and> \<not> mIsAttached b)"

text \<open>\<open>join\<close> waits for the thread; joining the handle 0 is undefined.\<close>

definition tb_join :: "tbsys \<Rightarrow> tbsys res" where
  "tb_join s =
     (if joinable (tb s) then
        if mHandle (tb s) = 0 then Inl Undefined
        else if tchild s = ChDone then Inr (s\<lparr>tb := (tb s)\<lparr>mHandle := 0, mIsJoined := False\<rparr>\<rparr>)
        else Inr s
      else Inr s)"

text \<open>\<open>detach\<close>; its last assignment is to a member that is not declared and is left out.\<close>

definition tb_detach :: "tbsys \<Rightarrow> tbsys" where
  "tb_detach s =
     (if \<not> mIsJoined (tb s) \<and> mIsAttached (tb s) \<and> mHandle (tb s) \<noteq> 0
      then s\<lparr>tb := (tb s)\<lparr>mHandle := 0\<rparr>\<rparr> else s)"

definition getName :: "ThreadBase \<Rightarrow> string" where
  "getName b = tbName b"

definition getNativeThreadHandle :: "ThreadBase \<Rightarrow> nat" where
  "getNativeThreadHandle b = mHandle b"

definition getThreadId :: "ThreadBase \<Rightarrow> nat" where
  "getThreadId b = mHandle b"

subsection \<open>One start\<close>

inductive tb_step :: "bool \<Rightarrow> bool \<Rightarrow> tbsys \<Rightarrow> tbsys res \<Rightarrow> bool" for syn enJoined where
  create: "tdata s = NoData \<Longrightarrow> tb_step syn enJoined s (Inr (start_create created syn enJoined s))"
| lock: "towner s = OwCreated b \<Longrightarrow> tb_step syn enJoined s (start_lock b s)"
| child: "tb_step syn enJoined s (startThread s)"
| join: "towner s = OwIdle \<Longrightarrow> tb_step syn enJoined s (tb_join s)"
| detach: "towner s = OwIdle \<Longrightarrow> tb_step syn enJoined s (Inr (tb_detach s))"

inductive_cases tb_stepE [elim!]: "tb_step syn enJoined s r"

definition tb_start :: "tbsys \<Rightarrow> bool" where
  "tb_start s \<longleftrightarrow> (\<exists>name. s = ThreadBase_new name)"

text \<open>
  Before the thread has started, the data is there; without \<open>syn\<close> it has no mutex; a mutex is never
  held by the new thread, which with a mutex never gets as far as its function; a null handle of a
  joinable thread comes from a failed creation.
\<close>

definition tb_inv :: "bool \<Rightarrow> tbsys \<Rightarrow> bool" where
  "tb_inv syn s \<longleftrightarrow>
     (tdata s = NoData \<longrightarrow> tchild s = ChNone \<and> towner s = OwIdle \<and> \<not> joinable (tb s)) \<and>
     (tchild s = ChStart \<or> tchild s = ChRunning \<longrightarrow> (\<exists>m. tdata s = Live m)) \<and>
     (tdata s = Freed \<longrightarrow> tchild s = ChDone \<or> tchild s = ChNone \<and> towner s = OwIdle) \<and>
     (\<forall>m. tdata s = Live (Some m) \<longrightarrow> syn \<and> tchild s = ChStart \<and> kind (mMutex m) = KDefault \<and> holder (mMutex m) \<noteq> Some 1 \<and>
       (towner s \<noteq> OwIdle \<longrightarrow> holder (mMutex m) = None)) \<and>
     (tchild s = ChRunning \<or> tchild s = ChDone \<longrightarrow> comm s = set_comm (thread_name (tdname s))) \<and>
     (joinable (tb s) \<and> mHandle (tb s) = 0 \<longrightarrow> tchild s = ChNone) \<and>
     (towner s \<noteq> OwIdle \<longrightarrow> mHandle (tb s) \<noteq> 0)"

definition tb_fault :: "bool \<Rightarrow> tbsys \<Rightarrow> fault \<Rightarrow> bool" where
  "tb_fault syn s e \<longleftrightarrow>
     e = Dangling \<and> towner s \<noteq> OwIdle \<and> tchild s = ChDone \<or>
     e = Undefined \<and> syn \<and> tchild s = ChStart \<or>
     e = Undefined \<and> towner s = OwIdle \<and> tchild s = ChNone \<and> joinable (tb s)"

lemmas tb_defs = start_create_def start_lock_def startThread_def tb_join_def tb_detach_def
  threaddata_lock_def threaddata_unlock_def threaddata_new_def threaddata_delete_def runThreadFunc_def
  start_flags_def joinable_def

lemma tb_step_inv:
  assumes "tb_inv syn s" and "tb_step syn enJoined s r"
  shows "(\<exists>s'. r = Inr s' \<and> tb_inv syn s') \<or> (\<exists>e. r = Inl e \<and> tb_fault syn s e)"
  using assms(2)
proof cases
  case (create created)
  then show ?thesis using assms(1)
    by (auto simp: tb_inv_def tb_defs Mutex_new_def)
next
  case (lock b)
  show ?thesis
  proof (cases "tdata s")
    case NoData
    then show ?thesis using assms(1) lock by (auto simp: tb_inv_def)
  next
    case Freed
    then show ?thesis using assms(1) lock by (auto simp: tb_inv_def tb_defs tb_fault_def)
  next
    case (Live m)
    then show ?thesis using assms(1) lock
      by (cases m) (auto simp: tb_inv_def tb_defs Mutex_lock_def pthread_mutex_lock_def)
  qed
next
  case child
  show ?thesis
  proof (cases "tchild s")
    case ChStart
    then obtain m where m: "tdata s = Live m" using assms(1) by (auto simp: tb_inv_def)
    then show ?thesis using assms(1) child ChStart
      by (cases m) (auto simp: tb_inv_def tb_defs tb_fault_def Mutex_unlock_def pthread_mutex_unlock_def)
  next
    case ChRunning
    then obtain m where m: "tdata s = Live m" using assms(1) by (auto simp: tb_inv_def)
    then show ?thesis using assms(1) child ChRunning by (cases m) (auto simp: tb_inv_def tb_defs)
  qed (use assms(1) child in \<open>auto simp: tb_inv_def tb_defs\<close>)
next
  case join
  then show ?thesis using assms(1) by (auto simp: tb_inv_def tb_defs tb_fault_def)
next
  case detach
  then show ?thesis using assms(1) by (auto simp: tb_inv_def tb_defs)
qed

lemma reach_tb_inv: "reach tb_start (tb_step syn enJoined) s \<Longrightarrow> tb_inv syn s"
proof (induction rule: reach.induct)
  case (reach_init s)
  then show ?case by (auto simp: tb_start_def ThreadBase_new_def tb_inv_def joinable_def)
next
  case (reach_step s s')
  then show ?case using tb_step_inv [of syn s enJoined "Inr s'"] by auto
qed


text \<open>The first of them, reached without \<open>syn\<close>.\<close>

definition early_end :: "tbsys res" where
  "early_end = bnd (startThread (start_create 5 False True (ThreadBase_new ''t''))) startThread"


subsection \<open>The name\<close>

text \<open>
  Once the function of a thread runs, the system knows at most the first eight characters of the name
  its ThreadBase had when it was started, behind the prefix.
\<close>

lemma comm_prefix: "set_comm (thread_name name) = ''thread-'' @ take 8 (takeWhile (\<lambda>c. of_char c \<noteq> (0 :: nat)) name)"
proof -
  have "take 15 (take 63 (''thread-'' @ xs)) = take 15 (''thread-'' @ xs)" for xs by (simp only: take_take) simp
  also have "take 15 (''thread-'' @ xs) = ''thread-'' @ take 8 xs" for xs
    by (subst take_append) (simp add: numeral_eq_Suc)
  finally show ?thesis unfolding set_comm_def thread_name_def .
qed

lemma reach_comm:
  assumes "reach tb_start (tb_step syn enJoined) s" and "tchild s = ChRunning \<or> tchild s = ChDone"
  shows "comm s = ''thread-'' @ take 8 (takeWhile (\<lambda>c. of_char c \<noteq> (0 :: nat)) (tdname s))"
  using reach_tb_inv [OF assms(1)] assms(2) comm_prefix by (auto simp: tb_inv_def)

text \<open>The default names of looper threads are cut: the queue thread of the sample program.\<close>

lemma comm_sample: "set_comm (thread_name ''SubLooperThread'') = ''thread-SubLoope''"
  by (simp add: set_comm_def thread_name_def)

end
