(* ===== verification/Thread_Windows.thy ===== *)
theory Thread_Windows
  imports Thread_Base Looper_Thread
begin

text \<open>
  The Windows branch of \<open>src/os/ThreadBase.cpp\<close>: \<open>std::thread\<close> as the handle, and a promise and a
  future of the object through which \<open>start\<close> hands the thread its data. The exceptions of the
  standard library are values (\<open>std_fault\<close>): no function of the repository catches one, so a step
  that raises one is the end of the program. Starts are numbered; start \<open>d\<close> allocates data \<open>d\<close> and
  creates thread \<open>d\<close>. An owner works on the object; \<open>start\<close> is two steps of it, up to the creation of
  the thread and the rest, because the thread may run in between.
\<close>

datatype std_fault =
    SystemError
  | FutureError
  | InvalidArgument
  | OutOfRange
  | Terminated
  | UseAfterFree

datatype wcell = WNoData | WLive | WFreed
datatype wchild = WNone | WWaiting | WRunning nat | WEnded
datatype wowner = WIdle | WStarted bool bool nat

record winthread =
  wHandle :: "nat option"
  wIsJoined :: bool
  wIsAttached :: bool
  wProm :: "nat option"
  wFut :: bool
  wAlive :: bool
  wData :: "nat \<Rightarrow> wcell"
  wThread :: "nat \<Rightarrow> wchild"
  wStarts :: nat
  wOwner :: wowner

definition WinThread_new :: winthread where
  "WinThread_new = \<lparr>wHandle = None, wIsJoined = False, wIsAttached = True, wProm = None, wFut = True,
     wAlive = True, wData = \<lambda>_. WNoData, wThread = \<lambda>_. WNone, wStarts = 0, wOwner = WIdle\<rparr>"

text \<open>The second value of a promise raises \<open>promise_already_satisfied\<close>.\<close>

definition set_value :: "nat \<Rightarrow> winthread \<Rightarrow> std_fault + winthread" where
  "set_value d s = (case wProm s of None \<Rightarrow> Inr (s\<lparr>wProm := Some d\<rparr>) | Some _ \<Rightarrow> Inl FutureError)"

text \<open>Assigning to a joinable \<open>std::thread\<close> terminates.\<close>

definition assign_thread :: "nat \<Rightarrow> winthread \<Rightarrow> std_fault + winthread" where
  "assign_thread d s =
     (if wHandle s = None
      then Inr (s\<lparr>wHandle := Some d, wThread := (wThread s)(d := WWaiting)\<rparr>) else Inl Terminated)"

definition win_start_begin :: "bool \<Rightarrow> bool \<Rightarrow> winthread \<Rightarrow> std_fault + winthread" where
  "win_start_begin syn enJoined s =
     (let d = wStarts s;
          s = s\<lparr>wStarts := Suc d, wData := (wData s)(d := WLive)\<rparr> in
      case (if syn then Inr s else set_value d s) of
        Inl e \<Rightarrow> Inl e
      | Inr s \<Rightarrow>
          (case assign_thread d s of
             Inl e \<Rightarrow> Inl e
           | Inr s \<Rightarrow> Inr (s\<lparr>wOwner := WStarted syn enJoined d\<rparr>)))"

definition win_start_end :: "winthread \<Rightarrow> std_fault + winthread" where
  "win_start_end s =
     (case wOwner s of
        WIdle \<Rightarrow> Inr s
      | WStarted syn enJoined d \<Rightarrow>
          (let s = s\<lparr>wIsJoined := enJoined, wIsAttached := \<not> enJoined, wOwner := WIdle\<rparr> in
           if syn then set_value d s else Inr s))"

text \<open>
  \<open>startThread\<close>: \<open>get\<close> waits for the value and gives up the future's state (a second \<open>get\<close> has none and
  throws in the thread); then the function runs and the data is deleted.
\<close>

definition win_startThread :: "nat \<Rightarrow> winthread \<Rightarrow> std_fault + winthread" where
  "win_startThread i s =
     (case wThread s i of
        WWaiting \<Rightarrow>
          if \<not> wAlive s then Inl UseAfterFree
          else if \<not> wFut s then Inl Terminated
          else (case wProm s of
                  None \<Rightarrow> Inr s
                | Some d \<Rightarrow> if wData s d = WLive
                    then Inr (s\<lparr>wFut := False, wThread := (wThread s)(i := WRunning d)\<rparr>)
                    else Inl UseAfterFree)
      | WRunning d \<Rightarrow>
          if wData s d = WLive
          then Inr (s\<lparr>wData := (wData s)(d := WFreed), wThread := (wThread s)(i := WEnded)\<rparr>)
          else Inl UseAfterFree
      | _ \<Rightarrow> Inr s)"

definition win_joinable :: "winthread \<Rightarrow> bool" where
  "win_joinable s \<longleftrightarrow> wHandle s \<noteq> None"

definition win_join :: "winthread \<Rightarrow> std_fault + winthread" where
  "win_join s =
     (if win_joinable s then
        (case wHandle s of
           None \<Rightarrow> Inl SystemError
         | Some i \<Rightarrow> if wThread s i = WEnded then Inr (s\<lparr>wHandle := None, wIsJoined := False\<rparr>) else Inr s)
      else Inr s)"

definition win_detach :: "winthread \<Rightarrow> std_fault + winthread" where
  "win_detach s =
     (if \<not> wIsJoined s \<and> wIsAttached s then
        (case wHandle s of
           None \<Rightarrow> Inl SystemError
         | Some i \<Rightarrow> Inr (s\<lparr>wHandle := None, wIsAttached := False\<rparr>))
      else Inr s)"

text \<open>\<open>getNativeThreadHandle\<close> moves the thread object out: the caller owns it afterwards.\<close>

definition win_getNativeThreadHandle :: "winthread \<Rightarrow> nat option \<times> winthread" where
  "win_getNativeThreadHandle s = (wHandle s, s\<lparr>wHandle := None\<rparr>)"

lemma win_join_after_handle:
  "win_join (snd (win_getNativeThreadHandle s)) = Inr (snd (win_getNativeThreadHandle s))"
  by (simp add: win_getNativeThreadHandle_def win_join_def win_joinable_def)

text \<open>The destructor: the members are destroyed, a joinable \<open>std::thread\<close> terminates.\<close>

definition win_delete :: "winthread \<Rightarrow> std_fault + winthread" where
  "win_delete s = (if wHandle s = None then Inr (s\<lparr>wAlive := False\<rparr>) else Inl Terminated)"

inductive win_step :: "winthread \<Rightarrow> (std_fault + winthread) \<Rightarrow> bool" where
  start: "wAlive s \<Longrightarrow> wOwner s = WIdle \<Longrightarrow> win_step s (win_start_begin syn enJoined s)"
| flags: "wAlive s \<Longrightarrow> win_step s (win_start_end s)"
| child: "win_step s (win_startThread i s)"
| join: "wAlive s \<Longrightarrow> wOwner s = WIdle \<Longrightarrow> win_step s (win_join s)"
| detach: "wAlive s \<Longrightarrow> wOwner s = WIdle \<Longrightarrow> win_step s (win_detach s)"
| delete: "wAlive s \<Longrightarrow> wOwner s = WIdle \<Longrightarrow> win_step s (win_delete s)"

inductive_cases win_stepE [elim!]: "win_step s r"

subsection \<open>What can go wrong\<close>

definition begun :: "wchild \<Rightarrow> bool" where
  "begun c \<longleftrightarrow> (case c of WRunning _ \<Rightarrow> True | WEnded \<Rightarrow> True | _ \<Rightarrow> False)"

lemma begun_simps [simp]: "\<not> begun WNone" "\<not> begun WWaiting" "begun (WRunning d)" "begun WEnded"
  by (simp_all add: begun_def)

text \<open>
  The future is given up by the one thread that has begun; the value of the promise is the data of
  that thread's function, alive until the function has returned; threads exist for the starts made.
\<close>

definition win_inv :: "winthread \<Rightarrow> bool" where
  "win_inv s \<longleftrightarrow>
     (wFut s \<longrightarrow> (\<forall>i. \<not> begun (wThread s i))) \<and>
     (\<forall>i j. begun (wThread s i) \<and> begun (wThread s j) \<longrightarrow> i = j) \<and>
     (\<forall>d. wProm s = Some d \<longrightarrow> d < wStarts s \<and> (wFut s \<longrightarrow> wData s d = WLive)) \<and>
     (\<forall>i d. wThread s i = WRunning d \<longrightarrow> wProm s = Some d \<and> wData s d = WLive) \<and>
     (\<forall>i. wThread s i \<noteq> WNone \<longrightarrow> i < wStarts s) \<and>
     (\<not> wFut s \<longrightarrow> wProm s \<noteq> None \<and> (\<exists>j. begun (wThread s j))) \<and>
     (\<forall>i. wHandle s = Some i \<longrightarrow> wThread s i \<noteq> WNone) \<and>
     (\<forall>syn b d. wOwner s = WStarted syn b d \<longrightarrow> wAlive s \<and> wStarts s = Suc d \<and>
        wHandle s = Some d \<and> (syn \<longrightarrow> wData s d = WLive \<and> (\<forall>d'. wProm s = Some d' \<longrightarrow> d' < d))) \<and>
     (wProm s = None \<longrightarrow> wStarts s = 0 \<or> (\<exists>b d. wOwner s = WStarted True b d))"

definition win_fault :: "winthread \<Rightarrow> std_fault \<Rightarrow> bool" where
  "win_fault s e \<longleftrightarrow>
     e = SystemError \<and> wHandle s = None \<and> wIsAttached s \<or>
     e = FutureError \<and> 0 < wStarts s \<or>
     e = Terminated \<and> (wHandle s \<noteq> None \<or> 1 < wStarts s) \<or>
     e = UseAfterFree \<and> \<not> wAlive s \<and> (\<exists>i. wThread s i = WWaiting)"

definition win_new :: "winthread \<Rightarrow> bool" where
  "win_new s \<longleftrightarrow> s = WinThread_new"

lemma win_inv_new: "win_inv WinThread_new"
  by (simp add: win_inv_def WinThread_new_def)

lemma win_start_begin_cases:
  "win_start_begin syn b s =
     (if \<not> syn \<and> wProm s \<noteq> None then Inl FutureError
      else if wHandle s \<noteq> None then Inl Terminated
      else Inr (s\<lparr>wStarts := Suc (wStarts s), wData := (wData s)(wStarts s := WLive),
        wProm := (if syn then wProm s else Some (wStarts s)), wHandle := Some (wStarts s),
        wThread := (wThread s)(wStarts s := WWaiting), wOwner := WStarted syn b (wStarts s)\<rparr>))"
  by (cases syn; cases "wProm s"; cases "wHandle s")
    (simp_all add: win_start_begin_def set_value_def assign_thread_def Let_def)

text \<open>A start that gets through: a new thread that waits, its data, and the promise unless \<open>syn\<close>.\<close>

lemma win_started_inv:
  assumes inv: "win_inv s" and o: "wAlive s" "wOwner s = WIdle" and p: "syn \<or> wProm s = None"
  shows "win_inv (s\<lparr>wStarts := Suc (wStarts s), wData := (wData s)(wStarts s := WLive),
      wProm := (if syn then wProm s else Some (wStarts s)), wHandle := Some (wStarts s),
      wThread := (wThread s)(wStarts s := WWaiting), wOwner := WStarted syn b (wStarts s)\<rparr>)" (is "win_inv ?s")
proof -
  have fresh: "wThread s (wStarts s) = WNone" using inv by (auto simp: win_inv_def)
  have old: "begun (wThread ?s i) \<longleftrightarrow> begun (wThread s i)"
    "wThread ?s i = WRunning d \<longleftrightarrow> wThread s i = WRunning d" for i d
    using fresh by simp_all
  have run: "wThread s i = WRunning d \<Longrightarrow> wProm s = Some d \<and> wData s d = WLive"
    "wProm s = Some d \<Longrightarrow> d < wStarts s \<and> (wFut s \<longrightarrow> wData s d = WLive)" for i d
    using inv by (auto simp: win_inv_def)
  show ?thesis
    unfolding win_inv_def old
  proof (intro conjI)
    show "\<forall>d. wProm ?s = Some d \<longrightarrow> d < wStarts ?s \<and> (wFut ?s \<longrightarrow> wData ?s d = WLive)"
      using run(2) by (cases syn) (simp_all add: less_Suc_eq)
    show "\<forall>i d. wThread s i = WRunning d \<longrightarrow> wProm ?s = Some d \<and> wData ?s d = WLive"
      using run(1) p by (cases syn) fastforce+
    show "\<forall>i. wThread ?s i \<noteq> WNone \<longrightarrow> i < wStarts ?s"
      using inv by (simp add: win_inv_def less_Suc_eq)
    show "\<not> wFut ?s \<longrightarrow> wProm ?s \<noteq> None \<and> (\<exists>j. begun (wThread s j))"
      using inv by (simp add: win_inv_def)
    show "\<forall>syn b d. wOwner ?s = WStarted syn b d \<longrightarrow> wAlive ?s \<and> wStarts ?s = Suc d \<and>
      wHandle ?s = Some d \<and> (syn \<longrightarrow> wData ?s d = WLive \<and> (\<forall>d'. wProm ?s = Some d' \<longrightarrow> d' < d))"
      using o(1) run(2) by simp
  qed (use inv o(2) in \<open>simp_all add: win_inv_def\<close>)
qed

lemma win_start_begin_ok:
  assumes inv: "win_inv s" and o: "wAlive s" "wOwner s = WIdle"
  shows "case win_start_begin syn b s of Inr s' \<Rightarrow> win_inv s' | Inl e \<Rightarrow> win_fault s e"
proof -
  consider "\<not> syn" "wProm s \<noteq> None" | "wHandle s \<noteq> None" "syn \<or> wProm s = None"
    | "syn \<or> wProm s = None" "wHandle s = None"
    by blast
  then show ?thesis
  proof cases
    case 1
    then have "0 < wStarts s" using inv by (auto simp: win_inv_def)
    then show ?thesis using 1 by (simp add: win_start_begin_cases win_fault_def)
  next
    case 2
    then show ?thesis by (auto simp: win_start_begin_cases win_fault_def)
  next
    case 3
    then show ?thesis using win_started_inv [OF inv o 3(1)] by (auto simp: win_start_begin_cases)
  qed
qed

lemma win_start_end_ok:
  assumes "win_inv s" and "wAlive s"
  shows "case win_start_end s of Inr s' \<Rightarrow> win_inv s' | Inl e \<Rightarrow> win_fault s e"
  using assms
  by (auto simp: win_start_end_def set_value_def win_inv_def win_fault_def Let_def
      split: option.splits wowner.splits)

text \<open>The end of the thread's function, where the thread frees its data.\<close>

lemma win_ended_inv:
  assumes inv: "win_inv s" and run: "wThread s i = WRunning d"
  shows "wData s d = WLive" "win_inv (s\<lparr>wData := (wData s)(d := WFreed), wThread := (wThread s)(i := WEnded)\<rparr>)"
    (is "win_inv ?s")
proof -
  have b: "begun (wThread s i)" using run by simp
  then have fut: "\<not> wFut s" and one: "\<forall>j. begun (wThread s j) \<longrightarrow> j = i" using inv unfolding win_inv_def by blast+
  from one have only: "\<forall>j e. wThread s j = WRunning e \<longrightarrow> j = i" by fastforce
  have prom: "wProm s = Some d" and live: "wData s d = WLive" using inv run unfolding win_inv_def by blast+
  show "wData s d = WLive" by (rule live)
  have old: "begun (wThread ?s j) \<longleftrightarrow> begun (wThread s j)" for j using b by simp
  show "win_inv ?s"
    unfolding win_inv_def old
  proof (intro conjI)
    show "\<forall>j e. wThread ?s j = WRunning e \<longrightarrow> wProm ?s = Some e \<and> wData ?s e = WLive"
      using only by auto
    show "\<forall>syn b e. wOwner ?s = WStarted syn b e \<longrightarrow> wAlive ?s \<and> wStarts ?s = Suc e \<and>
        wHandle ?s = Some e \<and> (syn \<longrightarrow> wData ?s e = WLive \<and> (\<forall>d'. wProm ?s = Some d' \<longrightarrow> d' < e))"
      using inv prom by (fastforce simp: win_inv_def)
    show "\<forall>j. wThread ?s j \<noteq> WNone \<longrightarrow> j < wStarts ?s"
      using inv run by (simp add: win_inv_def)
    show "\<forall>e. wProm ?s = Some e \<longrightarrow> e < wStarts ?s \<and> (wFut ?s \<longrightarrow> wData ?s e = WLive)"
      using inv fut by (simp add: win_inv_def)
  qed (use inv in \<open>simp_all add: win_inv_def\<close>)
qed

lemma win_startThread_ok:
  assumes inv: "win_inv s"
  shows "case win_startThread i s of Inr s' \<Rightarrow> win_inv s' | Inl e \<Rightarrow> win_fault s e"
proof (cases "wThread s i")
  case WWaiting
  then have i: "i < wStarts s" "\<not> begun (wThread s i)" using inv by (auto simp: win_inv_def)
  consider "\<not> wAlive s" | "wAlive s" "\<not> wFut s" | "wAlive s" "wFut s" "wProm s = None"
    | d where "wAlive s" "wFut s" "wProm s = Some d" by blast
  then show ?thesis
  proof cases
    case 1
    then show ?thesis using WWaiting by (auto simp: win_startThread_def win_fault_def)
  next
    case 2
    then obtain j where j: "begun (wThread s j)" using inv by (auto simp: win_inv_def)
    then have "wThread s j \<noteq> WNone" by auto
    then have "j < wStarts s" using inv by (auto simp: win_inv_def)
    moreover have "i \<noteq> j" using i(2) j by auto
    ultimately have "1 < wStarts s" using i(1) by linarith
    then show ?thesis using WWaiting 2 by (simp add: win_startThread_def win_fault_def)
  next
    case 3
    then show ?thesis using WWaiting inv by (simp add: win_startThread_def)
  next
    case 4
    then have "wData s d = WLive" "\<forall>i. \<not> begun (wThread s i)" using inv by (auto simp: win_inv_def)
    then show ?thesis using WWaiting 4 inv by (auto simp: win_startThread_def win_inv_def)
  qed
next
  case (WRunning d)
  then show ?thesis using win_ended_inv [OF inv WRunning] by (simp add: win_startThread_def)
qed (use inv in \<open>simp_all add: win_startThread_def\<close>)

lemma win_owner_ok:
  assumes "win_inv s" and "wAlive s" and "wOwner s = WIdle"
  shows "case win_join s of Inr s' \<Rightarrow> win_inv s' | Inl e \<Rightarrow> win_fault s e"
    and "case win_detach s of Inr s' \<Rightarrow> win_inv s' | Inl e \<Rightarrow> win_fault s e"
    and "case win_delete s of Inr s' \<Rightarrow> win_inv s' | Inl e \<Rightarrow> win_fault s e"
  using assms
  by (auto simp: win_join_def win_joinable_def win_detach_def win_delete_def win_inv_def win_fault_def
      split: option.splits)

lemma win_step_ok:
  assumes "win_inv s" and "win_step s r"
  shows "case r of Inr s' \<Rightarrow> win_inv s' | Inl e \<Rightarrow> win_fault s e"
  using assms(2)
proof cases
  case (start syn b)
  then show ?thesis using win_start_begin_ok [OF assms(1)] by simp
next
  case flags
  then show ?thesis using win_start_end_ok [OF assms(1)] by simp
next
  case (child i)
  then show ?thesis using win_startThread_ok [OF assms(1)] by simp
next
  case join
  then show ?thesis using win_owner_ok(1) [OF assms(1)] by simp
next
  case detach
  then show ?thesis using win_owner_ok(2) [OF assms(1)] by simp
next
  case delete
  then show ?thesis using win_owner_ok(3) [OF assms(1)] by simp
qed

lemma reach_win_inv: "reach win_new win_step s \<Longrightarrow> win_inv s"
proof (induction rule: reach.induct)
  case (reach_init s)
  then show ?case by (simp add: win_new_def win_inv_new)
next
  case (reach_step s s')
  then show ?case using win_step_ok [of s "Inr s'"] by simp
qed

text \<open>C40: A ThreadBase on Windows, in every interleaving of its owner with the threads it starts: at
  most one of them ever begins to run, so the object starts one function in its life; the thread of
  a first start with \<open>syn\<close> waits until the flags are set; and the program ends by an exception only
  when a thread that does not exist is detached, when \<open>start\<close> is called again, when the handle is
  joinable while it is assigned or destroyed, or when the object is destroyed before a detached
  thread has fetched its data.\<close>
theorem WinThread_one_function:
  assumes "reach win_new win_step s"
  shows "(\<forall>i j. begun (wThread s i) \<and> begun (wThread s j) \<longrightarrow> i = j) \<and>
    (\<forall>b. wOwner s = WStarted True b 0 \<longrightarrow> wThread s 0 = WWaiting) \<and>
    (\<forall>e. win_step s (Inl e) \<longrightarrow>
      e = SystemError \<and> wHandle s = None \<and> wIsAttached s \<or>
      e = FutureError \<and> 0 < wStarts s \<or>
      e = Terminated \<and> (wHandle s \<noteq> None \<or> 1 < wStarts s) \<or>
      e = UseAfterFree \<and> \<not> wAlive s \<and> (\<exists>i. wThread s i = WWaiting))"
proof (intro conjI allI impI)
  have inv: "win_inv s" using reach_win_inv [OF assms] .
  show "i = j" if "begun (wThread s i) \<and> begun (wThread s j)" for i j
    using inv that unfolding win_inv_def by blast
  show "wThread s 0 = WWaiting" if o: "wOwner s = WStarted True b 0" for b
  proof -
    have "wProm s = None" using inv o unfolding win_inv_def by (metis not_less0 option.exhaust)
    then have "\<not> begun (wThread s 0)" using inv unfolding win_inv_def by blast
    moreover have "wThread s 0 \<noteq> WNone" using inv o unfolding win_inv_def by blast
    ultimately show ?thesis by (cases "wThread s 0") auto
  qed
  show "e = SystemError \<and> wHandle s = None \<and> wIsAttached s \<or>
      e = FutureError \<and> 0 < wStarts s \<or>
      e = Terminated \<and> (wHandle s \<noteq> None \<or> 1 < wStarts s) \<or>
      e = UseAfterFree \<and> \<not> wAlive s \<and> (\<exists>i. wThread s i = WWaiting)" if "win_step s (Inl e)" for e
    using win_step_ok [OF inv that] by (simp add: win_fault_def)
qed

text \<open>Detaching before the first start is the first of them; the POSIX branch does nothing there.\<close>

theorem WinThread_one_function_witness:
  "reach win_new win_step WinThread_new \<and> win_detach WinThread_new = Inl SystemError \<and>
    wHandle WinThread_new = None"
proof -
  have r: "reach win_new win_step WinThread_new" by (rule reach_init) (simp add: win_new_def)
  have d: "win_detach WinThread_new = Inl SystemError" by (simp add: win_detach_def WinThread_new_def)
  have "win_step WinThread_new (win_detach WinThread_new)"
    by (rule win_step.detach) (simp_all add: WinThread_new_def)
  then have "win_step WinThread_new (Inl SystemError)" by (simp add: d)
  with conjunct2 [OF conjunct2 [OF WinThread_one_function [OF r]], rule_format, of SystemError]
  have "wHandle WinThread_new = None" by simp
  with r d show ?thesis by simp
qed

lemma posix_detach_unstarted: "tb_detach (ThreadBase_new name) = ThreadBase_new name"
  by (simp add: tb_detach_def ThreadBase_new_def)

subsection \<open>The id of the thread\<close>

text \<open>\<open>std::stoi\<close>: spaces, a sign and the decimal digits that follow.\<close>

definition stoi :: "string \<Rightarrow> std_fault + int" where
  "stoi cs =
     (let cs = dropWhile is_space cs;
          neg = (cs \<noteq> [] \<and> hd cs = CHR ''-'');
          ds = takeWhile is_digit (if cs \<noteq> [] \<and> hd cs \<in> {CHR ''-'', CHR ''+''} then tl cs else cs);
          v = (if neg then - int (digits_value ds) else int (digits_value ds)) in
      if ds = [] then Inl InvalidArgument
      else if v < - (2 ^ 31) \<or> 2 ^ 31 \<le> v then Inl OutOfRange
      else Inr v)"

text \<open>\<open>ss << mHandle.get_id()\<close>: how the id is printed is left to the implementation, an argument.\<close>

definition win_getThreadId :: "(nat option \<Rightarrow> string) \<Rightarrow> winthread \<Rightarrow> std_fault + 64 word" where
  "win_getThreadId show_id s = (case stoi (show_id (wHandle s)) of Inl e \<Rightarrow> Inl e | Inr v \<Rightarrow> Inr (word_of_int v))"

lemma stoi_decimal: "stoi (decimal n) = (if n < 2 ^ 31 then Inr (int n) else Inl OutOfRange)"
proof -
  obtain c cs where c: "decimal n = c # cs" using decimal_digits [of n] by (cases "decimal n") auto
  have d: "\<forall>x\<in>set (c # cs). is_digit x" "digits_value (c # cs) = n" using decimal_digits [of n] c by simp_all
  have "takeWhile is_digit (c # cs) = c # cs" using d(1) by (simp only: takeWhile_eq_all_conv)
  moreover have "dropWhile is_space (c # cs) = c # cs" "c \<noteq> CHR ''-''" "c \<noteq> CHR ''+''"
    using is_digit_other [of c] d(1) by simp_all
  moreover have "(2 ^ 31 \<le> int n) = (\<not> n < 2 ^ 31)" by (simp add: not_less numeral_le_iff [symmetric] del: numeral_le_iff)
  ultimately show ?thesis unfolding c stoi_def Let_def using d(2) by simp
qed

text \<open>
  An id that is printed in decimal comes back when it is below \<open>2^31\<close>; the ids of Windows have 32
  bits, and from \<open>2^31\<close> on the call throws.
\<close>

lemma win_getThreadId_decimal:
  assumes "wHandle s = Some i" and "show_id (Some i) = decimal i"
  shows "win_getThreadId show_id s = (if i < 2 ^ 31 then Inr (word_of_nat i) else Inl OutOfRange)"
  using assms by (simp add: win_getThreadId_def stoi_decimal)

end
