(* ===== verification/Coroutines.thy ===== *)
theory Coroutines
  imports Step_System
begin

text \<open>
  The coroutines of \<open>src/os/SimpleCoroutine.cpp\<close>: the list of resumed coroutines, the random
  scheduler and the state machine of \<open>coro_resume\<close>, \<open>coro_yield\<close> and \<open>coro_destroy\<close> in one thread.
  Switching the machine context (\<open>setjmp\<close>, \<open>longjmp\<close>, the assembly that enters a new stack) is the
  change of \<open>cur_co\<close>: who runs. Values of \<open>rand\<close> are an argument. The main coroutine is the object
  at address 1.
\<close>

datatype costatus = co_ready | co_running | co_suspend | co_done

record coro =
  co_func :: ptr
  co_arg :: ptr
  co_stack :: bool
  status :: costatus
  co_next :: ptr

record cosys =
  cos :: "ptr \<Rightarrow> coro option"
  cbrk :: ptr
  co_list :: ptr
  cur_co :: ptr
  co_cnt :: nat

definition main_co :: ptr where "main_co = 1"

definition cosys_new :: cosys where
  "cosys_new = \<lparr>cos = (\<lambda>_. None)(main_co := Some \<lparr>co_func = 0, co_arg = 0, co_stack = False,
     status = co_running, co_next = 0\<rparr>), cbrk = 2, co_list = 0, cur_co = main_co, co_cnt = 0\<rparr>"

definition ldc :: "ptr \<Rightarrow> cosys \<Rightarrow> coro res" where
  "ldc p s = (if p = 0 then Inl NullDeref else case cos s p of None \<Rightarrow> Inl Dangling | Some c \<Rightarrow> Inr c)"

definition stc :: "ptr \<Rightarrow> (coro \<Rightarrow> coro) \<Rightarrow> cosys \<Rightarrow> cosys res" where
  "stc p f s = bnd (ldc p s) (\<lambda>c. Inr (s\<lparr>cos := (cos s)(p := Some (f c))\<rparr>))"

text \<open>The walks over the list, with as many steps as there are objects.\<close>

primrec in_list :: "nat \<Rightarrow> ptr \<Rightarrow> ptr \<Rightarrow> cosys \<Rightarrow> bool res" where
  "in_list 0 c head s = (if head = 0 then Inr False else Inl Diverge)"
| "in_list (Suc n) c head s =
     (if head = 0 then Inr False
      else if head = c then Inr True
      else bnd (ldc head s) (\<lambda>h. in_list n c (co_next h) s))"

definition coro_add_list :: "ptr \<Rightarrow> cosys \<Rightarrow> cosys res" where
  "coro_add_list c s =
     bnd (in_list (cbrk s) c (co_list s) s) (\<lambda>found.
       if found then Inr s
       else bnd (stc c (\<lambda>x. x\<lparr>co_next := co_list s\<rparr>) s) (\<lambda>s.
         Inr (s\<lparr>co_list := c, co_cnt := Suc (co_cnt s)\<rparr>)))"

primrec walk :: "nat \<Rightarrow> ptr \<Rightarrow> cosys \<Rightarrow> ptr res" where
  "walk 0 cur s = Inr cur"
| "walk (Suc idx) cur s = bnd (ldc cur s) (\<lambda>c. walk idx (co_next c) s)"

text \<open>
  \<open>coro_select\<close>: the static counter \<open>cnt\<close> is the depth of the recursion; a finished coroutine makes it
  choose once more, and a second one makes it fall back to the main coroutine. The argument counts
  the levels that are left, the list holds the values of \<open>rand\<close>.
\<close>

primrec select_at :: "nat \<Rightarrow> nat list \<Rightarrow> cosys \<Rightarrow> ptr res" where
  "select_at 0 rs s = Inr main_co"
| "select_at (Suc left) rs s =
     bnd (if co_cnt s = 0 then Inl Undefined
          else walk ((case rs of [] \<Rightarrow> 0 | r # _ \<Rightarrow> r) mod co_cnt s) (co_list s) s) (\<lambda>cur.
       bnd (ldc cur s) (\<lambda>c. if status c = co_done then select_at left (tl rs) s else Inr cur))"

definition coro_select :: "nat list \<Rightarrow> cosys \<Rightarrow> ptr res" where
  "coro_select rs s = (if co_list s = 0 then Inr 0 else select_at 2 rs s)"

definition coro_create :: "ptr \<Rightarrow> ptr \<Rightarrow> cosys \<Rightarrow> ptr \<times> cosys" where
  "coro_create func arg s =
     (cbrk s, s\<lparr>cos := (cos s)(cbrk s := Some \<lparr>co_func = func, co_arg = arg, co_stack = False,
        status = co_ready, co_next = 0\<rparr>), cbrk := Suc (cbrk s)\<rparr>)"

definition coro_resume :: "ptr \<Rightarrow> cosys \<Rightarrow> cosys res" where
  "coro_resume p s =
     (if p = 0 then Inl AssertFail
      else bnd (ldc p s) (\<lambda>c.
        if co_func c = 0 \<or> co_arg c = 0 then Inl AssertFail
        else if status c \<noteq> co_ready \<and> status c \<noteq> co_suspend then Inr s
        else
          bnd (stc p (\<lambda>c. c\<lparr>co_stack := True\<rparr>) s) (\<lambda>s.
          bnd (if co_cnt s = 0 then coro_add_list main_co s else Inr s) (\<lambda>s.
          bnd (coro_add_list p s) (\<lambda>s.
          (let s = s\<lparr>cur_co := p\<rparr> in
           if status c = co_suspend then Inr s
           else stc p (\<lambda>c. c\<lparr>status := co_running\<rparr>) s))))))"

definition coro_yield :: "nat list \<Rightarrow> cosys \<Rightarrow> cosys res" where
  "coro_yield rs s =
     bnd (coro_select rs s) (\<lambda>nxt.
       if nxt = 0 then Inl AssertFail
       else bnd (ldc nxt s) (\<lambda>n.
         if nxt = cur_co s \<or> status n = co_done then Inr s
         else
           bnd (stc (cur_co s) (\<lambda>c. c\<lparr>status := if status c = co_running then co_suspend else status c\<rparr>) s) (\<lambda>s.
           bnd (stc nxt (\<lambda>c. c\<lparr>status := if status c = co_suspend then co_running else status c\<rparr>)
             (s\<lparr>cur_co := nxt\<rparr>)) Inr)))"

text \<open>\<open>coro_run\<close> after the function has returned.\<close>

definition coro_run_end :: "nat list \<Rightarrow> cosys \<Rightarrow> cosys res" where
  "coro_run_end rs s = bnd (stc (cur_co s) (\<lambda>c. c\<lparr>status := co_done\<rparr>) s) (coro_yield rs)"

text \<open>Unlinking and freeing; the walk keeps the predecessor.\<close>

primrec unlink :: "nat \<Rightarrow> ptr \<Rightarrow> ptr \<Rightarrow> ptr \<Rightarrow> cosys \<Rightarrow> (bool \<times> cosys) res" where
  "unlink 0 c pre cur s = (if cur = 0 then Inr (False, s) else Inl Diverge)"
| "unlink (Suc n) c pre cur s =
     (if cur = 0 then Inr (False, s)
      else
        bnd (ldc cur s) (\<lambda>x.
          if cur = c then
            bnd (if pre \<noteq> 0 then stc pre (\<lambda>y. y\<lparr>co_next := co_next x\<rparr>) s
                 else Inr (s\<lparr>co_list := co_next x\<rparr>)) (\<lambda>s.
              Inr (True, s\<lparr>cos := (cos s)(cur := None), co_cnt := co_cnt s - 1\<rparr>))
          else unlink n c cur (co_next x) s))"

text \<open>
  One round of \<open>coro_destroy\<close>: while the coroutine runs or is suspended it yields, so the caller goes
  on later; otherwise the object is unlinked and freed. The second component says that it is gone.
\<close>

definition coro_destroy :: "nat list \<Rightarrow> ptr \<Rightarrow> cosys \<Rightarrow> (bool \<times> cosys) res" where
  "coro_destroy rs p s =
     (if p = 0 then Inl AssertFail
      else if p = main_co then Inr (True, s)
      else bnd (ldc p s) (\<lambda>c.
        if status c = co_running \<or> status c = co_suspend then bnd (coro_yield rs s) (\<lambda>s. Inr (False, s))
        else bnd (unlink (cbrk s) p 0 (co_list s) s) (\<lambda>(found, s).
          Inr (True, if found then s else s\<lparr>cos := (cos s)(p := None)\<rparr>))))"

subsection \<open>Chains\<close>

primrec chain :: "cosys \<Rightarrow> ptr \<Rightarrow> ptr list \<Rightarrow> bool" where
  "chain s p [] \<longleftrightarrow> p = 0"
| "chain s p (a # as) \<longleftrightarrow> p = a \<and> a \<noteq> 0 \<and> (\<exists>c. cos s a = Some c \<and> chain s (co_next c) as)"

lemma chain_cong:
  "(\<And>a. a \<in> set as \<Longrightarrow> map_option co_next (cos t a) = map_option co_next (cos s a)) \<Longrightarrow>
    chain t p as = chain s p as"
proof (induction as arbitrary: p)
  case (Cons a as)
  from Cons.prems [of a] show ?case
    by (cases "cos s a"; cases "cos t a") (simp_all add: Cons.IH Cons.prems)
qed simp

lemma chain_alive: "chain s p as \<Longrightarrow> a \<in> set as \<Longrightarrow> a \<noteq> 0 \<and> (\<exists>c. cos s a = Some c)"
  by (induction as arbitrary: p) auto

lemma in_list_chain: "chain s p as \<Longrightarrow> length as \<le> n \<Longrightarrow> in_list n c p s = Inr (c \<in> set as)"
proof (induction as arbitrary: p n)
  case Nil
  then show ?case by (cases n) simp_all
next
  case (Cons a as)
  then obtain m where "n = Suc m" by (cases n) auto
  with Cons show ?case by (auto simp: ldc_def)
qed

lemma walk_chain: "chain s p as \<Longrightarrow> i < length as \<Longrightarrow> walk i p s = Inr (as ! i)"
proof (induction as arbitrary: p i)
  case (Cons a as)
  then show ?case by (cases i) (auto simp: ldc_def)
qed simp



lemma unlink_eq:
  assumes "chain s p (as @ c # bs)" and "c \<notin> set as" and "length as < n" and "cos s c = Some x"
  shows "unlink n c pre p s =
    (let q = (if as = [] then pre else last as) in
     bnd (if q \<noteq> 0 then stc q (\<lambda>y. y\<lparr>co_next := co_next x\<rparr>) s else Inr (s\<lparr>co_list := co_next x\<rparr>)) (\<lambda>s.
       Inr (True, s\<lparr>cos := (cos s)(c := None), co_cnt := co_cnt s - 1\<rparr>)))"
  using assms
proof (induction as arbitrary: p n pre)
  case Nil
  then obtain m where "n = Suc m" by (cases n) auto
  with Nil show ?case by (simp add: ldc_def fun_upd_def)
next
  case (Cons a as)
  then obtain m where m: "n = Suc m" by (cases n) auto
  obtain y where y: "cos s a = Some y" "chain s (co_next y) (as @ c # bs)" "p = a" "a \<noteq> 0"
    using Cons.prems(1) by auto
  have "unlink n c pre p s = unlink m c a (co_next y) s" using m y Cons.prems(2) by (simp add: ldc_def fun_upd_def)
  also have "\<dots> = (let q = (if as = [] then a else last as) in
     bnd (if q \<noteq> 0 then stc q (\<lambda>y. y\<lparr>co_next := co_next x\<rparr>) s else Inr (s\<lparr>co_list := co_next x\<rparr>)) (\<lambda>s.
       Inr (True, s\<lparr>cos := (cos s)(c := None), co_cnt := co_cnt s - 1\<rparr>)))"
    using Cons.prems m by (intro Cons.IH [OF y(2)]) auto
  finally show ?case by (simp add: fun_upd_def)
qed

lemma unlink_absent: "chain s p as \<Longrightarrow> c \<notin> set as \<Longrightarrow> length as \<le> n \<Longrightarrow> unlink n c pre p s = Inr (False, s)"
proof (induction as arbitrary: p n pre)
  case Nil
  then show ?case by (cases n) simp_all
next
  case (Cons a as)
  then obtain m where "n = Suc m" by (cases n) auto
  with Cons show ?case by (auto simp: ldc_def)
qed

lemma chain_drop:
  assumes "chain s p (as @ q # c # bs)" and "distinct (as @ q # c # bs)" and "cos s c = Some x"
    and "cos s q = Some y"
  shows "chain (s\<lparr>cos := (cos s)(q := Some (y\<lparr>co_next := co_next x\<rparr>), c := None), co_cnt := k\<rparr>) p (as @ q # bs)"
  using assms
proof (induction as arbitrary: p)
  case Nil
  let ?t = "s\<lparr>cos := (cos s)(q := Some (y\<lparr>co_next := co_next x\<rparr>), c := None), co_cnt := k\<rparr>"
  have "chain ?t (co_next x) bs = chain s (co_next x) bs"
    using Nil by (intro chain_cong) auto
  with Nil show ?case by (auto simp: fun_upd_def)
next
  case (Cons a as)
  then show ?case by (auto simp: fun_upd_def)
qed

subsection \<open>Safety\<close>

definition alive :: "cosys \<Rightarrow> ptr \<Rightarrow> bool" where
  "alive s a \<longleftrightarrow> cos s a \<noteq> None"

definition st_of :: "cosys \<Rightarrow> ptr \<Rightarrow> costatus" where
  "st_of s a = (case cos s a of None \<Rightarrow> co_done | Some c \<Rightarrow> status c)"

text \<open>
  The list \<open>xs\<close> holds each resumed coroutine once and its length is counted; the main coroutine has
  not finished and is on the list when there is one; coroutines outside have not been started.
\<close>

definition co_shape :: "cosys \<Rightarrow> ptr list \<Rightarrow> bool" where
  "co_shape s xs \<longleftrightarrow>
     chain s (co_list s) xs \<and> distinct xs \<and> length xs = co_cnt s \<and>
     (\<forall>a. alive s a \<longrightarrow> 0 < a \<and> a < cbrk s)"

definition co_cell :: "ptr list \<Rightarrow> ptr \<Rightarrow> coro \<Rightarrow> bool" where
  "co_cell xs a c \<longleftrightarrow>
     (if a = main_co then status c \<in> {co_running, co_suspend}
      else (a \<in> set xs \<longleftrightarrow> status c \<noteq> co_ready) \<and> co_func c \<noteq> 0 \<and> co_arg c \<noteq> 0)"

definition co_base :: "cosys \<Rightarrow> ptr list \<Rightarrow> bool" where
  "co_base s xs \<longleftrightarrow> co_shape s xs \<and> (\<forall>a c. cos s a = Some c \<longrightarrow> co_cell xs a c) \<and>
     alive s main_co \<and> (xs \<noteq> [] \<longrightarrow> main_co \<in> set xs) \<and>
     alive s (cur_co s) \<and> (cur_co s = main_co \<or> cur_co s \<in> set xs)"

text \<open>Whoever runs has not finished.\<close>

definition co_inv :: "cosys \<Rightarrow> bool" where
  "co_inv s \<longleftrightarrow> (\<exists>xs. co_base s xs) \<and> st_of s (cur_co s) \<noteq> co_done"

lemma co_shape_length: "co_shape s xs \<Longrightarrow> length xs \<le> cbrk s"
  unfolding co_shape_def by (intro card_bounded_distinct) (auto dest!: chain_alive simp: alive_def)

lemma select_at_base:
  assumes "co_base s xs" and "xs \<noteq> []"
  shows "\<exists>nxt c. select_at k rs s = Inr nxt \<and> nxt \<in> set xs \<and> nxt \<noteq> 0 \<and> cos s nxt = Some c \<and> status c \<noteq> co_done"
proof (induction k arbitrary: rs)
  case 0
  obtain c where c: "cos s main_co = Some c" "co_cell xs main_co c" "main_co \<in> set xs"
    using assms by (auto simp: co_base_def alive_def)
  then have "status c \<noteq> co_done" by (auto simp: co_cell_def)
  with c show ?case by (simp add: main_co_def)
next
  case (Suc k)
  let ?i = "(case rs of [] \<Rightarrow> 0 | r # _ \<Rightarrow> r) mod co_cnt s"
  have "length xs = co_cnt s" using assms by (simp add: co_base_def co_shape_def)
  then have i: "?i < length xs" using assms(2) by (metis length_greater_0_conv mod_less_divisor)
  have ch: "chain s (co_list s) xs" using assms(1) by (simp add: co_base_def co_shape_def)
  have n0: "co_cnt s \<noteq> 0" using \<open>length xs = co_cnt s\<close> assms(2) by (cases xs) auto
  have w: "walk ?i (co_list s) s = Inr (xs ! ?i)" by (rule walk_chain [OF ch i])
  obtain c where c: "cos s (xs ! ?i) = Some c" "xs ! ?i \<noteq> 0"
    using chain_alive [OF ch nth_mem [OF i]] by blast
  show ?case
  proof (cases "status c = co_done")
    case True
    then show ?thesis using Suc [of "tl rs"] w c n0 by (simp add: ldc_def)
  next
    case False
    then show ?thesis using w c n0 nth_mem [OF i] by (auto simp: ldc_def)
  qed
qed

text \<open>Changing a coroutine without its link, and passing control.\<close>

lemma co_shape_upd:
  assumes "co_shape s xs" and "cos s p = Some c" and "co_next c' = co_next c"
  shows "co_shape (s\<lparr>cos := (cos s)(p := Some c')\<rparr>) xs"
proof -
  have "chain (s\<lparr>cos := (cos s)(p := Some c')\<rparr>) (co_list s) xs = chain s (co_list s) xs"
    using assms(2,3) by (intro chain_cong) simp
  then show ?thesis using assms by (auto simp: co_shape_def alive_def split: if_splits)
qed

lemma co_base_upd:
  assumes "co_base s xs" and "cos s p = Some c" and "co_next c' = co_next c" and "co_cell xs p c'"
  shows "co_base (s\<lparr>cos := (cos s)(p := Some c')\<rparr>) xs"
  using assms co_shape_upd [OF _ assms(2,3)] by (auto simp: co_base_def alive_def)

lemma co_base_cur:
  "co_base s xs \<Longrightarrow> alive s p \<Longrightarrow> p = main_co \<or> p \<in> set xs \<Longrightarrow> co_base (s\<lparr>cur_co := p\<rparr>) xs"
proof -
  assume a: "co_base s xs" "alive s p" "p = main_co \<or> p \<in> set xs"
  have "chain (s\<lparr>cur_co := p\<rparr>) q as = chain s q as" for q as by (rule chain_cong) simp
  with a show ?thesis by (auto simp: co_base_def co_shape_def alive_def)
qed

lemma stc_Some: "p \<noteq> 0 \<Longrightarrow> cos s p = Some c \<Longrightarrow> stc p f s = Inr (s\<lparr>cos := (cos s)(p := Some (f c))\<rparr>)"
  by (simp add: stc_def ldc_def)

lemma co_base_alive: "co_base s xs \<Longrightarrow> alive s a \<Longrightarrow> 0 < a \<and> (\<exists>c. cos s a = Some c \<and> co_cell xs a c)"
  by (auto simp: co_base_def co_shape_def alive_def)

lemma co_base_cell: "co_base s xs \<Longrightarrow> cos s a = Some c \<Longrightarrow> co_cell xs a c"
  by (simp add: co_base_def)

lemma coro_yield_base:
  assumes b: "co_base s xs" and ne: "co_list s \<noteq> 0"
  shows "\<exists>s'. coro_yield rs s = Inr s' \<and> co_inv s'"
proof -
  have xs: "xs \<noteq> []" using assms by (auto simp: co_base_def co_shape_def)
  then have mem: "cur_co s \<in> set xs" using b by (auto simp: co_base_def)
  obtain nxt n where n: "coro_select rs s = Inr nxt" "nxt \<in> set xs" "nxt \<noteq> 0" "cos s nxt = Some n"
    "status n \<noteq> co_done"
    using select_at_base [OF b xs, of 2 rs] ne by (auto simp: coro_select_def)
  have ld: "ldc nxt s = Inr n" using n by (simp add: ldc_def)
  show ?thesis
  proof (cases "nxt = cur_co s")
    case True
    then show ?thesis using n ld b by (auto simp: coro_yield_def co_inv_def st_of_def)
  next
    case False
    obtain c where c: "cos s (cur_co s) = Some c" "co_cell xs (cur_co s) c" "0 < cur_co s"
      using co_base_alive [OF b, of "cur_co s"] b by (auto simp: co_base_def)
    let ?c = "c\<lparr>status := if status c = co_running then co_suspend else status c\<rparr>"
    let ?n = "n\<lparr>status := if status n = co_suspend then co_running else status n\<rparr>"
    let ?s1 = "s\<lparr>cos := (cos s)(cur_co s := Some ?c)\<rparr>"
    let ?s2 = "?s1\<lparr>cur_co := nxt\<rparr>"
    let ?s3 = "?s2\<lparr>cos := (cos ?s2)(nxt := Some ?n)\<rparr>"
    have "co_cell xs (cur_co s) ?c" using c(2) mem by (auto simp: co_cell_def)
    then have b1: "co_base ?s1 xs" by (intro co_base_upd [OF b c(1)]) simp_all
    have n1: "cos ?s1 nxt = Some n" using n(4) False by simp
    then have b2: "co_base ?s2 xs" using n(2) by (intro co_base_cur [OF b1]) (auto simp: alive_def)
    have "co_cell xs nxt n" using b n(4) by (simp add: co_base_def)
    then have "co_cell xs nxt ?n" using n(2) by (auto simp: co_cell_def)
    then have b3: "co_base ?s3 xs" using n1 by (intro co_base_upd [OF b2, of nxt n]) simp_all
    have "coro_yield rs s = Inr ?s3"
      using n ld False c(1,3) n1 by (simp add: coro_yield_def stc_Some)
    moreover have "st_of ?s3 (cur_co ?s3) \<noteq> co_done" using n(5) by (simp add: st_of_def)
    ultimately show ?thesis using b3 unfolding co_inv_def by blast
  qed
qed

lemma coro_run_end_inv:
  assumes "co_inv s" and "cur_co s \<noteq> main_co"
  shows "\<exists>s'. coro_run_end rs s = Inr s' \<and> co_inv s'"
proof -
  obtain xs where b: "co_base s xs" using assms(1) by (auto simp: co_inv_def)
  obtain c where c: "cos s (cur_co s) = Some c" "co_cell xs (cur_co s) c" "0 < cur_co s"
    using co_base_alive [OF b, of "cur_co s"] b by (auto simp: co_base_def)
  let ?s = "s\<lparr>cos := (cos s)(cur_co s := Some (c\<lparr>status := co_done\<rparr>))\<rparr>"
  have mem: "cur_co s \<in> set xs" using b assms(2) by (auto simp: co_base_def)
  then have "co_cell xs (cur_co s) (c\<lparr>status := co_done\<rparr>)" using c(2) assms(2) by (simp add: co_cell_def)
  then have b1: "co_base ?s xs" by (intro co_base_upd [OF b c(1)]) simp_all
  have "co_list ?s \<noteq> 0" using mem b by (cases xs) (auto simp: co_base_def co_shape_def)
  from coro_yield_base [OF b1 this] show ?thesis
    using c by (simp add: coro_run_end_def stc_Some)
qed


text \<open>The first entry on the list.\<close>

lemma coro_add_list_new:
  assumes sh: "co_shape s xs" and p: "p \<notin> set xs" "cos s p = Some c"
  defines "t \<equiv> s\<lparr>cos := (cos s)(p := Some (c\<lparr>co_next := co_list s\<rparr>)), co_list := p, co_cnt := Suc (co_cnt s)\<rparr>"
  shows "coro_add_list p s = Inr t" "co_shape t (p # xs)"
proof -
  have ch: "chain s (co_list s) xs" using sh by (simp add: co_shape_def)
  have p0: "p \<noteq> 0" using sh p(2) by (auto simp: co_shape_def alive_def)
  have "in_list (cbrk s) p (co_list s) s = Inr False"
    using in_list_chain [OF ch co_shape_length [OF sh], of p] p(1) by simp
  then show "coro_add_list p s = Inr t"
    using p0 p(2) by (simp add: coro_add_list_def stc_Some t_def)
  have "chain t (co_list s) xs = chain s (co_list s) xs"
    using p(1) by (intro chain_cong) (auto simp: t_def)
  then show "co_shape t (p # xs)"
    using sh p p0 ch by (auto simp: co_shape_def alive_def t_def split: if_splits)
qed

lemma coro_add_list_old:
  assumes "co_shape s xs" and "p \<in> set xs"
  shows "coro_add_list p s = Inr s"
proof -
  have ch: "chain s (co_list s) xs" using assms by (simp add: co_shape_def)
  show ?thesis
    using in_list_chain [OF ch co_shape_length [OF assms(1)], of p] assms(2) by (simp add: coro_add_list_def)
qed


lemma co_base_main:
  assumes b: "co_base s xs" and e: "xs = []"
  shows "\<exists>s'. coro_add_list main_co s = Inr s' \<and> co_base s' [main_co] \<and> cur_co s' = cur_co s \<and>
    (\<forall>a. a \<noteq> main_co \<longrightarrow> cos s' a = cos s a)"
proof -
  obtain c where c: "cos s main_co = Some c" "co_cell xs main_co c"
    using b by (auto simp: co_base_def alive_def)
  let ?t = "s\<lparr>cos := (cos s)(main_co := Some (c\<lparr>co_next := co_list s\<rparr>)), co_list := main_co, co_cnt := Suc (co_cnt s)\<rparr>"
  have "co_shape s []" using b e by (simp add: co_base_def)
  note add = coro_add_list_new [OF this _ c(1), simplified]
  have "co_cell [main_co] a x" if "cos ?t a = Some x" for a x
    using that co_base_cell [OF b, of a x] c e by (cases "a = main_co") (auto simp: co_cell_def)
  then have "co_base ?t [main_co]"
    using b add(2) c e by (auto simp: co_base_def alive_def)
  then show ?thesis using add(1) by auto
qed

lemma coro_start_inv:
  assumes b: "co_base s xs" and m: "xs \<noteq> []" and p: "cos s p = Some c" "status c = co_ready" "p \<noteq> main_co"
  shows "\<exists>s'. bnd (coro_add_list p s) (\<lambda>s. stc p (\<lambda>c. c\<lparr>status := co_running\<rparr>) (s\<lparr>cur_co := p\<rparr>)) = Inr s' \<and> co_inv s'"
proof -
  have sh: "co_shape s xs" and cell: "co_cell xs p c" using b p(1) by (auto simp: co_base_def)
  have nin: "p \<notin> set xs" using cell p by (simp add: co_cell_def)
  have p0: "p \<noteq> 0" using co_base_alive [OF b, of p] p(1) by (auto simp: alive_def)
  let ?c = "c\<lparr>co_next := co_list s\<rparr>"
  let ?t = "s\<lparr>cos := (cos s)(p := Some ?c), co_list := p, co_cnt := Suc (co_cnt s)\<rparr>"
  let ?u = "?t\<lparr>cos := (cos ?t)(p := Some (?c\<lparr>status := co_running\<rparr>))\<rparr>"
  let ?v = "?u\<lparr>cur_co := p\<rparr>"
  note add = coro_add_list_new [OF sh nin p(1)]
  have "co_shape ?u (p # xs)" by (rule co_shape_upd [OF add(2), where c = ?c]) simp_all
  moreover have "co_cell (p # xs) a x" if "cos ?u a = Some x" for a x
    using that co_base_cell [OF b, of a x] cell p(3)
    by (cases "a = p"; cases "a = main_co") (auto simp: co_cell_def)
  ultimately have "co_base ?u (p # xs)"
    using b m by (auto simp: co_base_def alive_def)
  then have "co_base ?v (p # xs)" by (rule co_base_cur) (simp_all add: alive_def)
  then have "co_inv ?v" unfolding co_inv_def by (auto simp: st_of_def)
  moreover have "bnd (coro_add_list p s) (\<lambda>s. stc p (\<lambda>c. c\<lparr>status := co_running\<rparr>) (s\<lparr>cur_co := p\<rparr>)) = Inr ?v"
    using add(1) p0 by (simp add: stc_Some)
  ultimately show ?thesis by blast
qed

text \<open>What \<open>coro_resume\<close> finds: the coroutine, its cell, and the state with its stack allocated.\<close>

lemma resume_cell:
  assumes b: "co_base s xs" and p: "alive s p" "p \<noteq> main_co"
  shows "\<exists>c. cos s p = Some c \<and> co_cell xs p c \<and> 0 < p \<and> co_func c \<noteq> 0 \<and> co_arg c \<noteq> 0 \<and>
    co_base (s\<lparr>cos := (cos s)(p := Some (c\<lparr>co_stack := True\<rparr>))\<rparr>) xs \<and> (co_cnt s = 0) = (xs = [])"
proof -
  obtain c where c: "cos s p = Some c" "co_cell xs p c" "0 < p" using co_base_alive [OF b p(1)] by auto
  have "co_cell xs p (c\<lparr>co_stack := True\<rparr>)" using c(2) by (auto simp: co_cell_def)
  then have "co_base (s\<lparr>cos := (cos s)(p := Some (c\<lparr>co_stack := True\<rparr>))\<rparr>) xs"
    by (intro co_base_upd [OF b c(1)]) simp_all
  moreover have "co_func c \<noteq> 0" "co_arg c \<noteq> 0" using c(2) p(2) by (auto simp: co_cell_def)
  moreover have "(co_cnt s = 0) = (xs = [])" using b by (auto simp: co_base_def co_shape_def)
  ultimately show ?thesis using c by (intro exI [of _ c] conjI) assumption+
qed

lemma coro_resume_suspended:
  assumes b: "co_base s xs" and p: "alive s p" "p \<noteq> main_co" and c: "cos s p = Some c" and st: "status c = co_suspend"
  shows "\<exists>s'. coro_resume p s = Inr s' \<and> co_inv s'"
proof -
  note cell = resume_cell [OF b p]
  let ?s = "s\<lparr>cos := (cos s)(p := Some (c\<lparr>co_stack := True\<rparr>))\<rparr>"
  have f: "co_cell xs p c" "0 < p" "co_func c \<noteq> 0" "co_arg c \<noteq> 0" "co_base ?s xs" "(co_cnt s = 0) = (xs = [])"
    using cell c by auto
  have px: "p \<in> set xs" using f(1) st p(2) by (simp add: co_cell_def)
  have "co_shape ?s xs" using f(5) by (simp add: co_base_def)
  then have old: "coro_add_list p ?s = Inr ?s" using px by (rule coro_add_list_old)
  have "co_base (?s\<lparr>cur_co := p\<rparr>) xs" using px by (intro co_base_cur [OF f(5)]) (auto simp: alive_def)
  then have "co_inv (?s\<lparr>cur_co := p\<rparr>)" using st unfolding co_inv_def by (auto simp: st_of_def)
  moreover have "xs \<noteq> []" "ldc p s = Inr c" "stc p (\<lambda>c. c\<lparr>co_stack := True\<rparr>) s = Inr ?s"
    using px c f(2) by (auto simp: ldc_def stc_Some)
  ultimately show ?thesis using st f old by (simp add: coro_resume_def Let_def)
qed

lemma coro_resume_ready:
  assumes b: "co_base s xs" and m: "cur_co s = main_co" and p: "alive s p" "p \<noteq> main_co"
    and c: "cos s p = Some c" and st: "status c = co_ready"
  shows "\<exists>s'. coro_resume p s = Inr s' \<and> co_inv s'"
proof -
  note cell = resume_cell [OF b p]
  let ?c = "c\<lparr>co_stack := True\<rparr>"
  let ?s = "s\<lparr>cos := (cos s)(p := Some ?c)\<rparr>"
  have f: "0 < p" "co_func c \<noteq> 0" "co_arg c \<noteq> 0" and b1: "co_base ?s xs" and cnt: "(co_cnt s = 0) = (xs = [])"
    using cell c by auto
  have cp: "cos ?s p = Some ?c" by simp
  have "ldc p s = Inr c" "stc p (\<lambda>c. c\<lparr>co_stack := True\<rparr>) s = Inr ?s" using c f(1) by (simp_all add: ldc_def stc_Some)
  then have step: "coro_resume p s = bnd (if co_cnt ?s = 0 then coro_add_list main_co ?s else Inr ?s)
    (\<lambda>s. bnd (coro_add_list p s) (\<lambda>s. stc p (\<lambda>c. c\<lparr>status := co_running\<rparr>) (s\<lparr>cur_co := p\<rparr>)))"
    using st f by (simp add: coro_resume_def Let_def)
  show ?thesis
  proof (cases "xs = []")
    case True
    obtain s1 where s1: "coro_add_list main_co ?s = Inr s1" "co_base s1 [main_co]" "cos s1 p = Some ?c"
      using co_base_main [OF b1 True] cp p(2) m by auto
    then show ?thesis
      using coro_start_inv [OF s1(2) _ s1(3)] st p(2) cnt True step by simp
  next
    case False
    then show ?thesis using coro_start_inv [OF b1 False cp] st p(2) cnt step by simp
  qed
qed

lemma coro_resume_inv:
  assumes i: "co_inv s" and m: "cur_co s = main_co" and p: "alive s p" "p \<noteq> main_co"
  shows "\<exists>s'. coro_resume p s = Inr s' \<and> co_inv s'"
proof -
  obtain xs where b: "co_base s xs" using i by (auto simp: co_inv_def)
  from resume_cell [OF b p] obtain c where c: "cos s p = Some c" "0 < p" "co_func c \<noteq> 0" "co_arg c \<noteq> 0" by blast
  consider "status c = co_suspend" | "status c = co_ready" | "status c \<in> {co_running, co_done}"
    by (cases "status c") auto
  then show ?thesis
  proof cases
    case 3
    then show ?thesis using c i by (auto simp: coro_resume_def ldc_def)
  qed (use coro_resume_suspended [OF b p c(1)] coro_resume_ready [OF b m p c(1)] in blast)+
qed


text \<open>Unlinking, at the head or behind a predecessor.\<close>

lemma co_baseI:
  assumes b: "co_base s xs" and sh: "co_shape t ys" and ys: "set ys = set xs - {p}"
    and p: "p \<noteq> main_co" "cur_co s \<noteq> p" and cur: "cur_co t = cur_co s"
    and same: "\<And>a. map_option (\<lambda>x. (co_func x, co_arg x, status x)) (cos t a) =
        (if a = p then None else map_option (\<lambda>x. (co_func x, co_arg x, status x)) (cos s a))"
  shows "co_base t ys \<and> st_of t (cur_co s) = st_of s (cur_co s) \<and> \<not> alive t p"
proof -
  have al: "alive t a \<longleftrightarrow> a \<noteq> p \<and> alive s a" for a
    using same [of a] by (cases "cos s a"; cases "cos t a") (auto simp: alive_def split: if_splits)
  have cell: "co_cell ys a x" if x: "cos t a = Some x" for a x
  proof -
    have "alive s a" "a \<noteq> p" using al [of a] x by (simp_all add: alive_def)
    then obtain y where y: "cos s a = Some y" by (auto simp: alive_def)
    then have "co_func x = co_func y" "co_arg x = co_arg y" "status x = status y"
      using same [of a] x \<open>a \<noteq> p\<close> by simp_all
    with co_base_cell [OF b y] \<open>a \<noteq> p\<close> ys show ?thesis
      by (cases "a = main_co") (simp_all add: co_cell_def)
  qed
  have "st_of t (cur_co s) = st_of s (cur_co s)"
    using same [of "cur_co s"] p(2) by (auto simp: st_of_def split: option.splits)
  then show ?thesis using b sh ys p cur al cell by (auto simp: co_base_def)
qed

lemma unlink_base:
  assumes b: "co_base s xs" and c: "cos s p = Some c" and xs: "xs = as @ p # bs"
    and p: "p \<noteq> main_co" "cur_co s \<noteq> p"
  shows "\<exists>t. unlink (cbrk s) p 0 (co_list s) s = Inr (True, t) \<and> co_base t (as @ bs) \<and>
    cur_co t = cur_co s \<and> st_of t (cur_co s) = st_of s (cur_co s) \<and> \<not> alive t p"
proof -
  have sh: "co_shape s xs" using b by (simp add: co_base_def)
  then have ch: "chain s (co_list s) (as @ p # bs)" and dis: "distinct (as @ p # bs)"
    and n: "length xs = co_cnt s" and al: "\<And>a. alive s a \<Longrightarrow> 0 < a \<and> a < cbrk s"
    using xs by (simp_all add: co_shape_def)
  have len: "length as < cbrk s" using co_shape_length [OF sh] xs by simp
  have nin: "p \<notin> set as" using dis by simp
  have ys: "set (as @ bs) = set xs - {p}" using dis xs by auto
  note un = unlink_eq [OF ch nin len c, of 0]
  show ?thesis
  proof (cases as rule: rev_cases)
    case Nil
    let ?t = "s\<lparr>co_list := co_next c, cos := (cos s)(p := None), co_cnt := co_cnt s - 1\<rparr>"
    have "chain ?t (co_next c) bs = chain s (co_next c) bs" using dis Nil by (intro chain_cong) auto
    then have "co_shape ?t (as @ bs)"
      using ch dis n xs c al Nil by (auto simp: co_shape_def alive_def)
    then have base: "co_base ?t (as @ bs) \<and> st_of ?t (cur_co s) = st_of s (cur_co s) \<and> \<not> alive ?t p"
      by (rule co_baseI [OF b _ ys p]) simp_all
    have "unlink (cbrk s) p 0 (co_list s) s = Inr (True, ?t)" using un Nil by simp
    with base show ?thesis by (intro exI [of _ ?t]) simp
  next
    case (snoc as' q)
    have q: "q \<in> set as" "q \<noteq> p" using snoc nin by auto
    obtain y where y: "cos s q = Some y" "q \<noteq> 0" using chain_alive [OF ch, of q] q by auto
    let ?t = "s\<lparr>cos := (cos s)(q := Some (y\<lparr>co_next := co_next c\<rparr>), p := None), co_cnt := co_cnt s - 1\<rparr>"
    have "chain ?t (co_list s) (as' @ q # bs)"
      using chain_drop [of s "co_list s" as' q p bs c y "co_cnt s - 1"] ch dis c y snoc by simp
    then have "co_shape ?t (as @ bs)"
      using dis n xs y al snoc by (auto simp: co_shape_def alive_def split: if_splits)
    then have base: "co_base ?t (as @ bs) \<and> st_of ?t (cur_co s) = st_of s (cur_co s) \<and> \<not> alive ?t p"
      using y by (rule_tac co_baseI [OF b _ ys p]) simp_all
    have "unlink (cbrk s) p 0 (co_list s) s = Inr (True, ?t)" using un snoc y q by (simp add: stc_Some)
    with base show ?thesis by (intro exI [of _ ?t]) simp
  qed
qed

text \<open>Unlinking a coroutine that has finished, or was never started.\<close>

lemma coro_destroy_ready:
  assumes i: "co_inv s" and b: "co_base s xs" and p: "p \<noteq> main_co" and c: "cos s p = Some c" "0 < p"
    and nin: "p \<notin> set xs" and st: "status c = co_ready"
  shows "\<exists>s'. coro_destroy rs p s = Inr (True, s') \<and> co_inv s' \<and> \<not> alive s' p"
proof -
  have sh: "co_shape s xs" using b by (simp add: co_base_def)
  then have ch: "chain s (co_list s) xs" by (simp add: co_shape_def)
  let ?t = "s\<lparr>cos := (cos s)(p := None)\<rparr>"
  have cur: "cur_co s \<noteq> p" using p nin b by (auto simp: co_base_def)
  have "chain ?t (co_list s) xs = chain s (co_list s) xs" using nin by (intro chain_cong) auto
  then have "co_base ?t xs" using b p cur by (auto simp: co_base_def co_shape_def alive_def)
  then have "co_inv ?t" using i cur unfolding co_inv_def by (auto simp: st_of_def)
  then show ?thesis
    using st c p unlink_absent [OF ch nin co_shape_length [OF sh]]
    by (auto simp: coro_destroy_def alive_def ldc_def)
qed

lemma coro_destroy_done:
  assumes i: "co_inv s" and b: "co_base s xs" and p: "p \<noteq> main_co" and c: "cos s p = Some c" "0 < p"
    and px: "p \<in> set xs" and st: "status c = co_done"
  shows "\<exists>s'. coro_destroy rs p s = Inr (True, s') \<and> co_inv s' \<and> \<not> alive s' p"
proof -
  obtain as bs where xs: "xs = as @ p # bs" "p \<notin> set as" using px split_list_first by metis
  have cur: "cur_co s \<noteq> p" using i st c(1) by (auto simp: co_inv_def st_of_def)
  obtain t where t: "unlink (cbrk s) p 0 (co_list s) s = Inr (True, t)" "co_base t (as @ bs)"
    "cur_co t = cur_co s" "st_of t (cur_co s) = st_of s (cur_co s)" "\<not> alive t p"
    using unlink_base [OF b c(1) xs(1) p cur] by blast
  then have "co_inv t" using i unfolding co_inv_def by auto
  then show ?thesis using t st c p by (auto simp: coro_destroy_def ldc_def)
qed

lemma coro_destroy_inv:
  assumes i: "co_inv s" and p: "alive s p"
  shows "\<exists>d s'. coro_destroy rs p s = Inr (d, s') \<and> co_inv s' \<and>
    (d \<longrightarrow> p \<noteq> main_co \<longrightarrow> \<not> alive s' p)"
proof -
  obtain xs where b: "co_base s xs" using i by (auto simp: co_inv_def)
  obtain c where c: "cos s p = Some c" "co_cell xs p c" "0 < p" using co_base_alive [OF b p] by auto
  consider "p = main_co" | "p \<noteq> main_co" "status c = co_running \<or> status c = co_suspend"
    | "p \<noteq> main_co" "status c = co_ready" | "p \<noteq> main_co" "status c = co_done"
    by (cases "status c") auto
  then show ?thesis
  proof cases
    case 1
    then show ?thesis using i c(3) by (auto simp: coro_destroy_def)
  next
    case 2
    then have "p \<in> set xs" using c(2) by (auto simp: co_cell_def)
    then have "co_list s \<noteq> 0" using b by (cases xs) (auto simp: co_base_def co_shape_def)
    then obtain t where "coro_yield rs s = Inr t" "co_inv t" using coro_yield_base [OF b, of rs] by blast
    then show ?thesis using 2 c by (auto simp: coro_destroy_def ldc_def)
  next
    case 3
    then have "p \<notin> set xs" using c(2) by (auto simp: co_cell_def)
    then show ?thesis using coro_destroy_ready [OF i b 3(1) c(1,3) _ 3(2)] by blast
  next
    case 4
    then have "p \<in> set xs" using c(2) by (auto simp: co_cell_def)
    then show ?thesis using coro_destroy_done [OF i b 4(1) c(1,3) _ 4(2)] by blast
  qed
qed


lemma coro_create_inv:
  assumes "co_inv s" and "f \<noteq> 0" and "a \<noteq> 0"
  shows "co_inv (snd (coro_create f a s))"
proof -
  obtain xs where b: "co_base s xs" using assms(1) by (auto simp: co_inv_def)
  let ?n = "\<lparr>co_func = f, co_arg = a, co_stack = False, status = co_ready, co_next = 0\<rparr>"
  let ?t = "s\<lparr>cos := (cos s)(cbrk s := Some ?n), cbrk := Suc (cbrk s)\<rparr>"
  have lt: "\<And>x. alive s x \<Longrightarrow> 0 < x \<and> x < cbrk s" and ch: "chain s (co_list s) xs"
    using b by (auto simp: co_base_def co_shape_def)
  have main: "main_co < cbrk s" and cur: "cur_co s < cbrk s" using lt b by (auto simp: co_base_def)
  have pos: "0 < cbrk s" using main by simp
  have mem: "x < cbrk s" if "x \<in> set xs" for x using chain_alive [OF ch that] lt by (auto simp: alive_def)
  then have "chain ?t (co_list s) xs = chain s (co_list s) xs" by (intro chain_cong) auto
  then have sh: "co_shape ?t xs" using b lt pos by (auto simp: co_base_def co_shape_def alive_def less_SucI)
  have "co_cell xs x c" if "cos ?t x = Some c" for x c
    using that co_base_cell [OF b, of x c] mem main assms(2,3)
    by (cases "x = cbrk s") (auto simp: co_cell_def)
  then have "co_base ?t xs" using b sh main cur by (auto simp: co_base_def alive_def)
  then have "co_inv ?t" using assms(1) cur unfolding co_inv_def by (auto simp: st_of_def)
  then show ?thesis by (simp add: coro_create_def)
qed

lemma cosys_new_inv: "co_inv cosys_new"
proof -
  have "co_base cosys_new []"
    by (auto simp: co_base_def co_shape_def cosys_new_def alive_def main_co_def co_cell_def split: if_splits)
  then show ?thesis unfolding co_inv_def by (auto simp: cosys_new_def st_of_def)
qed

subsection \<open>The thread's program\<close>

text \<open>
  What the program in one thread may do: create coroutines with a function and an argument, resume
  one from the main coroutine (as the comment of \<open>coro_resume\<close> demands), yield once there is a list,
  let the function of the running coroutine return, destroy a coroutine that has not been freed.
\<close>

inductive co_step :: "cosys \<Rightarrow> cosys res \<Rightarrow> bool" where
  co_create: "f \<noteq> 0 \<Longrightarrow> a \<noteq> 0 \<Longrightarrow> co_step s (Inr (snd (coro_create f a s)))"
| co_resume: "cur_co s = main_co \<Longrightarrow> alive s p \<Longrightarrow> p \<noteq> main_co \<Longrightarrow> co_step s (coro_resume p s)"
| co_yield: "co_list s \<noteq> 0 \<Longrightarrow> co_step s (coro_yield rs s)"
| co_finish: "cur_co s \<noteq> main_co \<Longrightarrow> co_step s (coro_run_end rs s)"
| co_destroy: "alive s p \<Longrightarrow> co_step s (map_sum id snd (coro_destroy rs p s))"

lemma co_step_inv: "co_step s r \<Longrightarrow> co_inv s \<Longrightarrow> \<exists>s'. r = Inr s' \<and> co_inv s'"
proof (induction rule: co_step.induct)
  case (co_yield s rs)
  then show ?case using coro_yield_base by (auto simp: co_inv_def)
next
  case (co_destroy s p rs)
  then show ?case using coro_destroy_inv [of s p rs] by auto
qed (auto intro: coro_create_inv coro_resume_inv coro_run_end_inv)

interpretation cop: safe_system "\<lambda>s. s = cosys_new" co_step co_inv
  by unfold_locales (auto simp: cosys_new_inv intro: co_step_inv)


definition demo_co :: "cosys res" where
  "demo_co = bnd (coro_resume 2 (snd (coro_create 5 6 cosys_new))) (coro_yield [1])"


end
