(* ===== verification/Coroutine_Stack.thy ===== *)
theory Coroutine_Stack
  imports Coroutines
begin

unbundle bit_operations_syntax

text \<open>
  The stack of a coroutine and the assembly of \<open>coro_resume\<close> that enters it
  (\<open>src/os/SimpleCoroutine.cpp\<close>): \<open>alignstack\<close> on words of the machine's width, and for every
  architecture the instructions of its \<open>asm\<close> block, run on a machine with a stack pointer, an
  argument register and a memory of words. The address \<open>malloc\<close> returns for the stack, the return
  address a call pushes and the contents of the saved registers are arguments.
\<close>

subsection \<open>Rounding up\<close>

definition alignstack :: "'w::len word \<Rightarrow> 'w word \<Rightarrow> 'w word" where
  "alignstack stack alignment = (stack + alignment - 1) AND NOT (alignment - 1)"

definition STACK_ALIGNMENT :: "'w::len word" where "STACK_ALIGNMENT = 16"

definition STACK_SIZE :: "'w::len word" where "STACK_SIZE = 16384"

lemma unat_and_not_mask:
  fixes x :: "'w::len word"
  shows "unat (x AND NOT (mask k)) = unat x - unat x mod 2 ^ k"
proof -
  have t: "unat (take_bit k x) = unat x mod 2 ^ k"
    by (simp only: unsigned_take_bit_eq) (simp only: take_bit_eq_mod)
  have "x AND NOT (mask k) = x AND NOT (take_bit k x)"
    by (rule bit_word_eqI) (auto simp: bit_simps)
  also have "\<dots> = x - take_bit k x"
    by (rule disjunctive_diff_eq_and_not [symmetric], rule bit_word_eqI) (simp add: bit_simps)
  finally have "x AND NOT (mask k) = x - take_bit k x" .
  moreover have "take_bit k x \<le> x" by (simp add: word_le_nat_alt t)
  ultimately show ?thesis by (simp add: unat_sub t)
qed

lemma unat_add_fits:
  fixes x :: "'w::len word"
  assumes "unat x + n < 2 ^ LENGTH('w)"
  shows "unat (x + word_of_nat n) = unat x + n"
  using assms by (simp add: unat_word_ariths unat_of_nat)

lemma unat_sub_fits:
  fixes x :: "'w::len word"
  assumes "n \<le> unat x"
  shows "unat (x - word_of_nat n) = unat x - n"
proof -
  have "n < 2 ^ LENGTH('w)" using assms unsigned_less [of x] le_less_trans by blast
  then have "unat (word_of_nat n :: 'w word) = n" by (simp add: unat_of_nat)
  then show ?thesis using assms by (simp add: unat_sub word_le_nat_alt)
qed

text \<open>The reference: the least multiple of the alignment that is not below the address.\<close>

definition round_up :: "nat \<Rightarrow> nat \<Rightarrow> nat" where
  "round_up n k = (n + 2 ^ k - 1) div 2 ^ k * 2 ^ k"

lemma round_up_least:
  "2 ^ k dvd round_up n k" "n \<le> round_up n k" "round_up n k < n + 2 ^ k"
  "2 ^ k dvd m \<Longrightarrow> n \<le> m \<Longrightarrow> round_up n k \<le> m"
proof -
  let ?a = "(2::nat) ^ k"
  have a: "0 < ?a" by simp
  have r: "round_up n k + (n + ?a - 1) mod ?a = n + ?a - 1"
    unfolding round_up_def by (rule div_mult_mod_eq)
  moreover have "(n + ?a - 1) mod ?a < ?a" by (rule mod_less_divisor [OF a])
  ultimately show lo: "n \<le> round_up n k" and hi: "round_up n k < n + ?a" using a by linarith+
  show d: "?a dvd round_up n k" by (simp add: round_up_def)
  show "round_up n k \<le> m" if m: "?a dvd m" "n \<le> m"
  proof (rule ccontr)
    assume "\<not> round_up n k \<le> m"
    then have "0 < round_up n k - m" "round_up n k - m < ?a" using hi m(2) by linarith+
    moreover have "?a dvd round_up n k - m" using d m(1) by (rule dvd_diff_nat)
    ultimately show False using nat_dvd_not_less by blast
  qed
qed

lemma unat_alignstack:
  fixes s :: "'w::len word"
  assumes "k < LENGTH('w)" and "unat s + 2 ^ k - 1 < 2 ^ LENGTH('w)"
  shows "unat (alignstack s (2 ^ k)) = round_up (unat s) k"
proof -
  have one: "(1::nat) \<le> 2 ^ k" by simp
  have m: "(2 ^ k - 1 :: 'w word) = mask k" by (simp add: mask_eq_exp_minus_1)
  have "s + 2 ^ k - 1 = s + word_of_nat (2 ^ k - 1)" using one by (simp add: of_nat_diff algebra_simps)
  moreover have "unat s + (2 ^ k - 1) < 2 ^ LENGTH('w)" using assms(2) one by linarith
  ultimately have "unat (s + 2 ^ k - 1) = unat s + (2 ^ k - 1)"
    using unat_add_fits [of s "2 ^ k - 1"] by metis
  then have x: "unat (s + 2 ^ k - 1) = unat s + 2 ^ k - 1" using one by linarith
  have "unat (alignstack s (2 ^ k)) = unat s + 2 ^ k - 1 - (unat s + 2 ^ k - 1) mod 2 ^ k"
    by (simp add: alignstack_def m unat_and_not_mask x)
  then show ?thesis by (simp add: round_up_def minus_mod_eq_div_mult)
qed

lemma and_not_7: 
  fixes x :: "'w::len word"
  assumes "8 dvd unat x" shows "x AND NOT 7 = x"
proof -
  have "(7 :: 'w word) = mask 3" by (simp add: mask_eq_exp_minus_1)
  then have "unat (x AND NOT 7) = unat x - unat x mod 8" using unat_and_not_mask [of x 3] by simp
  moreover have "unat x mod 8 = 0" using assms by (rule dvd_imp_mod_0)
  ultimately show ?thesis by (simp add: unsigned_word_eqI)
qed

subsection \<open>Entering the stack\<close>

text \<open>
  The instructions the \<open>asm\<close> blocks use. \<open>PushReg\<close> is one register of a \<open>push\<close> or \<open>stmfd\<close> list, the
  highest first; \<open>CallPush\<close> is the x86 call, which pushes its return address, \<open>CallLink\<close> the branch
  with link of ARM, which does not.
\<close>

datatype arch = X86_64 | I386 | AArch64 | Arm_Thumb | Arm | Win64 | Win32

datatype instr = MovSp | SubSp nat | AndSpNot7 | MovArg | PushArg | PushReg nat | CallPush | CallLink

fun switch_code :: "arch \<Rightarrow> instr list" where
  "switch_code X86_64 = [MovSp, SubSp 32, MovArg, CallPush]"
| "switch_code I386 = [MovSp, SubSp 8, PushArg, CallPush]"
| "switch_code AArch64 = [MovSp, SubSp 16, MovArg, CallLink]"
| "switch_code Arm_Thumb =
     [MovSp, SubSp 8, AndSpNot7, PushReg 14, PushReg 7, PushReg 6, PushReg 5, PushReg 4, MovArg, CallLink]"
| "switch_code Arm =
     [MovSp, SubSp 8, AndSpNot7, PushReg 14, PushReg 7, PushReg 6, PushReg 5, PushReg 4, MovArg, CallLink]"
| "switch_code Win64 = [MovSp, SubSp 32, MovArg, CallPush]"
| "switch_code Win32 = [MovSp, SubSp 8, PushArg, CallPush]"

fun arch_bits :: "arch \<Rightarrow> nat" where
  "arch_bits X86_64 = 64" | "arch_bits AArch64 = 64" | "arch_bits Win64 = 64"
| "arch_bits I386 = 32" | "arch_bits Arm_Thumb = 32" | "arch_bits Arm = 32" | "arch_bits Win32 = 32"

fun arg_on_stack :: "arch \<Rightarrow> bool" where
  "arg_on_stack I386 = True"
| "arg_on_stack Win32 = True"
| "arg_on_stack _ = False"

record 'v cpu =
  sp :: 'v
  argreg :: 'v
  stkmem :: "'v \<Rightarrow> 'v option"

record 'v asm_in =
  in_stack :: 'v
  in_arg :: 'v
  in_ret :: 'v
  in_reg :: "nat \<Rightarrow> 'v"

definition push_word :: "'w::len word \<Rightarrow> 'w word cpu \<Rightarrow> 'w word cpu" where
  "push_word v c =
     (let a = sp c - word_of_nat (LENGTH('w) div 8) in c\<lparr>sp := a, stkmem := (stkmem c)(a := Some v)\<rparr>)"

primrec asm_step :: "'w::len word asm_in \<Rightarrow> instr \<Rightarrow> 'w word cpu \<Rightarrow> 'w word cpu" where
  "asm_step e MovSp c = c\<lparr>sp := in_stack e\<rparr>"
| "asm_step e (SubSp n) c = c\<lparr>sp := sp c - word_of_nat n\<rparr>"
| "asm_step e AndSpNot7 c = c\<lparr>sp := sp c AND NOT 7\<rparr>"
| "asm_step e MovArg c = c\<lparr>argreg := in_arg e\<rparr>"
| "asm_step e PushArg c = push_word (in_arg e) c"
| "asm_step e (PushReg n) c = push_word (in_reg e n) c"
| "asm_step e CallPush c = push_word (in_ret e) c"
| "asm_step e CallLink c = c"

primrec asm_run :: "'w::len word asm_in \<Rightarrow> instr list \<Rightarrow> 'w word cpu \<Rightarrow> 'w word cpu" where
  "asm_run e [] c = c"
| "asm_run e (i # is) c = asm_run e is (asm_step e i c)"

text \<open>The machine as \<open>coro_run\<close> finds it; \<open>base\<close> is the block \<open>malloc(STACK_SIZE)\<close> returned.\<close>

definition coro_enter ::
  "arch \<Rightarrow> 'w::len word \<Rightarrow> 'w word \<Rightarrow> 'w word \<Rightarrow> (nat \<Rightarrow> 'w word) \<Rightarrow> 'w word cpu \<Rightarrow> 'w word cpu" where
  "coro_enter a base arg ret reg c =
     asm_run \<lparr>in_stack = alignstack (base + STACK_SIZE) STACK_ALIGNMENT, in_arg = arg, in_ret = ret,
       in_reg = reg\<rparr> (switch_code a) c"

text \<open>Alignment of the stack pointer on entry to a function, by the calling conventions.\<close>

fun abi_aligned :: "arch \<Rightarrow> nat \<Rightarrow> bool" where
  "abi_aligned X86_64 n = ((n + 8) mod 16 = 0)"
| "abi_aligned Win64 n = ((n + 8) mod 16 = 0)"
| "abi_aligned I386 n = ((n + 4) mod 16 = 0)"
| "abi_aligned AArch64 n = (n mod 16 = 0)"
| "abi_aligned Arm_Thumb n = (n mod 8 = 0)"
| "abi_aligned Arm n = (n mod 8 = 0)"
| "abi_aligned Win32 n = (n mod 4 = 0)"

text \<open>How far below the aligned top each entry is, and where it stored.\<close>

fun entry_depth :: "arch \<Rightarrow> nat" where
  "entry_depth X86_64 = 40" | "entry_depth Win64 = 40" | "entry_depth AArch64 = 16"
| "entry_depth I386 = 16" | "entry_depth Win32 = 16" | "entry_depth Arm = 28" | "entry_depth Arm_Thumb = 28"

fun stored_at :: "arch \<Rightarrow> nat list" where
  "stored_at X86_64 = [40]" | "stored_at Win64 = [40]" | "stored_at AArch64 = []"
| "stored_at I386 = [12, 16]" | "stored_at Win32 = [12, 16]"
| "stored_at Arm = [12, 16, 20, 24, 28]" | "stored_at Arm_Thumb = [12, 16, 20, 24, 28]"

lemma stack_top:
  fixes base :: "'w::len word"
  assumes "32 \<le> LENGTH('w)" and "8 dvd unat base" and "unat base + 16408 < 2 ^ LENGTH('w)"
  defines "t \<equiv> alignstack (base + STACK_SIZE) STACK_ALIGNMENT"
  shows "16 dvd unat t" "unat base + 16384 \<le> unat t" "unat t \<le> unat base + 16392"
proof -
  have s: "unat (base + STACK_SIZE) = unat base + 16384"
    using unat_add_fits [of base 16384] assms(3) by (simp add: STACK_SIZE_def)
  have "unat (alignstack (base + STACK_SIZE) (2 ^ 4)) = round_up (unat (base + STACK_SIZE)) 4"
    using assms(1,3) by (intro unat_alignstack) (simp_all add: s)
  then have t: "unat t = round_up (unat base + 16384) 4" by (simp add: t_def STACK_ALIGNMENT_def s)
  show d: "16 dvd unat t" using round_up_least(1) [of 4 "unat base + 16384"] by (simp add: t)
  show "unat base + 16384 \<le> unat t" using round_up_least(2) by (simp add: t)
  have "unat t < unat base + 16384 + 16" using round_up_least(3) [of "unat base + 16384" 4] by (simp add: t)
  moreover have "8 dvd unat t" using d by (rule dvd_trans [rotated]) simp
  ultimately show "unat t \<le> unat base + 16392" using assms(2) by presburger
qed

lemma sp_after_and:
  fixes t :: "'w::len word"
  assumes "16 dvd unat t" and "16 \<le> unat t"
  shows "(t - 8) AND NOT 7 = t - 8"
proof (rule and_not_7)
  have "unat (t - 8) = unat t - 8" using unat_sub_fits [of 8 t] assms(2) by simp
  moreover have "8 dvd unat t - 8" using assms by presburger
  ultimately show "8 dvd unat (t - 8)" by simp
qed

lemma depths_bounded: "k \<in> set (stored_at a) \<Longrightarrow> arch_bits a div 8 + 8 \<le> k \<or> k = 12 \<and> arch_bits a = 32"
  "k \<in> set (stored_at a) \<Longrightarrow> 8 + arch_bits a div 8 \<le> k" "k \<in> set (stored_at a) \<Longrightarrow> k \<le> 40"
  "entry_depth a \<le> 40"
  by (cases a; auto)+

lemma coro_enter_result:
  fixes base arg ret :: "'w::len word" and reg :: "nat \<Rightarrow> 'w word" and c :: "'w word cpu"
  assumes w: "LENGTH('w) = arch_bits a" and "8 dvd unat base" "unat base + 16408 < 2 ^ LENGTH('w)"
  defines "t \<equiv> alignstack (base + STACK_SIZE) STACK_ALIGNMENT"
    and "c' \<equiv> coro_enter a base arg ret reg c"
  shows "sp c' = t - word_of_nat (entry_depth a)"
    and "stkmem c' x \<noteq> stkmem c x \<Longrightarrow> \<exists>k\<in>set (stored_at a). x = t - word_of_nat k"
    and "if arg_on_stack a then stkmem c' (sp c' + word_of_nat (LENGTH('w) div 8)) = Some arg
      else argreg c' = arg"
proof -
  have b: "32 \<le> LENGTH('w)" using w by (cases a) auto
  have t: "16 dvd unat t" "16 \<le> unat t" using stack_top [OF b assms(2,3)] by (simp_all add: t_def)
  note defs = coro_enter_def t_def [symmetric] push_word_def Let_def sp_after_and [OF t, simplified] w c'_def
  show "sp c' = t - word_of_nat (entry_depth a)" by (cases a) (simp_all add: defs)
  show "\<exists>k\<in>set (stored_at a). x = t - word_of_nat k" if "stkmem c' x \<noteq> stkmem c x"
    using that by (cases a) (auto simp: defs split: if_splits)
  show "if arg_on_stack a then stkmem c' (sp c' + word_of_nat (LENGTH('w) div 8)) = Some arg
      else argreg c' = arg"
    by (cases a) (simp_all add: defs)
qed

text \<open>C39: Entering a coroutine's stack, on every architecture the code has: with a block that \<open>malloc\<close>
  aligned to 8 bytes, every word the assembly stores lies inside the block (although the rounded top
  may lie past its end), the function finds its argument where the calling convention puts it, and
  more than 16000 bytes are left; but the stack pointer has the alignment that convention asks for on
  every architecture except i386 and 32-bit ARM.\<close>
theorem coro_entry_in_block:
  fixes base arg ret :: "'w::len word" and reg :: "nat \<Rightarrow> 'w word" and c :: "'w word cpu"
  assumes "LENGTH('w) = arch_bits a" and "8 dvd unat base" and "unat base + 16408 < 2 ^ LENGTH('w)"
    and "c' = coro_enter a base arg ret reg c"
  shows "(\<forall>x. stkmem c' x \<noteq> stkmem c x \<longrightarrow>
      unat base \<le> unat x \<and> unat x + LENGTH('w) div 8 \<le> unat base + 16384) \<and>
    (if arg_on_stack a then stkmem c' (sp c' + word_of_nat (LENGTH('w) div 8)) = Some arg
     else argreg c' = arg) \<and>
    unat base + 16000 < unat (sp c') \<and> unat (sp c') \<le> unat base + 16384 \<and>
    (abi_aligned a (unat (sp c')) \<longleftrightarrow> a \<notin> {I386, Arm, Arm_Thumb})"
proof -
  let ?t = "alignstack (base + STACK_SIZE) STACK_ALIGNMENT"
  have b: "32 \<le> LENGTH('w)" using assms(1) by (cases a) auto
  note t = stack_top [OF b assms(2,3)]
  note r = coro_enter_result [OF assms(1-3), of arg ret reg c, folded assms(4)]
  have off: "unat (?t - word_of_nat k) = unat ?t - k" if "k \<le> 40" for k
    using unat_sub_fits [of k ?t] t(2) that by linarith
  have s: "unat (sp c') = unat ?t - entry_depth a" using r(1) off depths_bounded(4) by metis
  have "unat base \<le> unat x \<and> unat x + LENGTH('w) div 8 \<le> unat base + 16384"
    if x: "stkmem c' x \<noteq> stkmem c x" for x
  proof -
    obtain k where k: "k \<in> set (stored_at a)" "x = ?t - word_of_nat k" using r(2) [OF x] by blast
    have "unat x = unat ?t - k" using off k depths_bounded(3) by metis
    then show ?thesis using depths_bounded(2,3) [OF k(1)] t(2,3) assms(1) by linarith
  qed
  moreover have "8 \<le> entry_depth a" by (cases a) auto
  then have "unat base + 16000 < unat (sp c') \<and> unat (sp c') \<le> unat base + 16384"
    using s t depths_bounded(4) [of a] by linarith
  moreover have "abi_aligned a (unat (sp c')) \<longleftrightarrow> a \<notin> {I386, Arm, Arm_Thumb}"
  proof -
    obtain j where j: "unat ?t = 16 * j" using t(1) by blast
    then have "4 \<le> j" using t(2) by linarith
    then obtain i where "j = 4 + i" using le_Suc_ex by blast
    with j have "unat ?t = 16 * i + 64" by simp
    then show ?thesis by (cases a; simp add: s; presburger)
  qed
  ultimately show ?thesis using r(3) by blast
qed

text \<open>On i386, with a block at address 4104: the rounded top is 8 bytes past its end.\<close>

definition sample_cpu :: "32 word cpu" where
  "sample_cpu = coro_enter I386 4104 7 9 (\<lambda>_. 0) \<lparr>sp = 0, argreg = 0, stkmem = \<lambda>_. None\<rparr>"

theorem coro_entry_in_block_witness:
  "alignstack (4104 + STACK_SIZE) STACK_ALIGNMENT = (20496 :: 32 word) \<and> 4104 + 16384 < (20496 :: nat) \<and>
    sp sample_cpu = 20480 \<and> stkmem sample_cpu 20484 = Some 7 \<and> \<not> abi_aligned I386 (unat (sp sample_cpu))"
proof -
  note defs = sample_cpu_def coro_enter_def alignstack_def STACK_SIZE_def STACK_ALIGNMENT_def push_word_def
  have l: "LENGTH(32) = arch_bits I386" "8 dvd unat (4104 :: 32 word)"
    "unat (4104 :: 32 word) + 16408 < 2 ^ LENGTH(32)"
    by simp_all
  have "sp sample_cpu = 20480" "alignstack (4104 + STACK_SIZE) STACK_ALIGNMENT = (20496 :: 32 word)"
    by (simp_all add: defs)
  with coro_entry_in_block [OF l sample_cpu_def] show ?thesis by simp
qed

end
