(* ===== verification/Timer_Task.thy ===== *)
theory Timer_Task
  imports Looper_Thread
begin

text \<open>
  Timers (\<open>src/os/TimerTask.cpp\<close>): a task is sent as a delayed message to a handler whose function
  calls the task back. It composes the handler, the queue and the loop thread. Pointers to tasks and
  functions are addresses; the address of \<open>onTimerTaskFuncHandler\<close> is 7.
\<close>

definition TIMER_MESSAGE :: int where "TIMER_MESSAGE = 0"
definition onTimerTaskFuncHandler_fn :: ptr where "onTimerTaskFuncHandler_fn = 7"

text \<open>
  The constructor: the thread's own looper (\<open>mLoop\<close>, 0 for none) is prepared with the default pool of
  50, a handler is made on it, and then the loop runs - in the constructor.
\<close>

definition TimerTask_prepare :: "64 word \<Rightarrow> ptr \<Rightarrow> process \<Rightarrow> ptr \<times> process" where
  "TimerTask_prepare tid mLoop P = (if mLoop = 0 then prepare 50 tid P else (mLoop, P))"

definition TimerTask_handler :: "'a world_scheme \<Rightarrow> (ptr \<times> 'a world_scheme) res" where
  "TimerTask_handler w = createHandler 0 w"

definition TimerTask_delete :: "ptr \<Rightarrow> process \<Rightarrow> process res" where
  "TimerTask_delete mLoop P = (if mLoop \<noteq> 0 then looper_quit False mLoop P else Inr P)"

text \<open>\<open>sendTimerTaskMsg\<close> up to the send, and then the function of the handler.\<close>

definition send_timer_message ::
  "64 word \<Rightarrow> int \<Rightarrow> int \<Rightarrow> int \<Rightarrow> int \<Rightarrow> ptr \<Rightarrow> 64 word \<Rightarrow> ptr \<Rightarrow> bool \<Rightarrow> ptr \<Rightarrow> 'a world_scheme
    \<Rightarrow> 'a world_scheme res" where
  "send_timer_message ns what arg1 arg2 timeout data bytes fnFree isRemoved mHandler w =
     bnd (if isRemoved then handler_removeMessage_what mHandler what w else Inr w) (\<lambda>w.
     bnd (obtain_param what arg1 arg2 data bytes fnFree mHandler w) (\<lambda>(msg, w).
       sendMessageDelayed ns mHandler msg timeout w))"

definition sendTimerTaskMsg ::
  "64 word \<Rightarrow> int \<Rightarrow> int \<Rightarrow> int \<Rightarrow> int \<Rightarrow> ptr \<Rightarrow> 64 word \<Rightarrow> ptr \<Rightarrow> bool \<Rightarrow> ptr \<Rightarrow> 'a world_scheme
    \<Rightarrow> 'a world_scheme res" where
  "sendTimerTaskMsg ns what arg1 arg2 timeout data bytes fnFree isRemoved mHandler w =
     bnd (send_timer_message ns what arg1 arg2 timeout data bytes fnFree isRemoved mHandler w)
       (setMsgHandlerFunc mHandler onTimerTaskFuncHandler_fn)"

definition schedule :: "64 word \<Rightarrow> ptr \<Rightarrow> int \<Rightarrow> ptr \<Rightarrow> 'a world_scheme \<Rightarrow> 'a world_scheme res" where
  "schedule ns taskfunc timeout mHandler w =
     sendTimerTaskMsg ns TIMER_MESSAGE 0 0 timeout taskfunc 0 0 False mHandler w"

text \<open>The task whose \<open>onResponse\<close> the function calls.\<close>

definition onTimerTaskFuncHandler :: "ptr \<Rightarrow> 'a world_scheme \<Rightarrow> ptr option res" where
  "onTimerTaskFuncHandler msg w =
     bnd (ld msg w) (\<lambda>m.
       if mWhat m = TIMER_MESSAGE then
         (let p = getParam m in Inr (if p \<noteq> 0 then Some p else None))
       else Inr None)"

subsection \<open>The constructor does not return\<close>

text \<open>
  Until the constructor returns nobody else knows the looper, so no client acts on its queue. The
  loop thread alone, however often it is woken and whatever the time is, stays in \<open>next\<close>.
\<close>

definition stuck :: "sys \<Rightarrow> bool" where
  "stuck s \<longleftrightarrow> (case pc s of CLoop \<Rightarrow> True | CTop t \<Rightarrow> t = -1 | CWait _ \<Rightarrow> True | _ \<Rightarrow> False) \<and> \<not> mExit s \<and>
     mMsgQueueHead (que s) = 0 \<and> \<not> mQuit (que s) \<and> \<not> mNotEnqueMsg (que s) \<and> mOutTimeTest (que s) \<le> 0"

lemma stuck_step: "stuck s \<Longrightarrow> \<exists>s'. consumer_step s = Inr s' \<and> stuck s'"
  by (auto simp: stuck_def consumer_step_def next_begin_def next_scan_def after_scan_def Let_def
      split: cpc.splits)

lemma TimerTask_constructor_blocks:
  "\<exists>s. run_consumer n (sys_init name k now) = Inr s \<and> pc s \<noteq> CExit"
proof -
  have "stuck s \<Longrightarrow> \<exists>s'. run_consumer n s = Inr s' \<and> stuck s'" for s
    by (induction n arbitrary: s) (use stuck_step in fastforce)+
  moreover have "stuck (sys_init name k now)" by (simp add: stuck_def sys_init_def MsgQueue_new_def)
  ultimately show ?thesis by (fastforce simp: stuck_def)
qed

subsection \<open>A scheduled task\<close>

text \<open>Sending the message, before the function of the handler is set.\<close>

lemma send_timer_message_ok:
  assumes ok: "queue_ok w" and opn: "\<not> mQuit w" "\<not> mNotEnqueMsg w"
    and h: "handlers w h = Some H" "h \<noteq> 0" "mQueue H \<noteq> 0"
  shows "\<exists>w' p m. send_timer_message ns what a b d x n f False h w = Inr w' \<and> queue_ok w' \<and>
    p \<noteq> 0 \<and> p \<in> set (waiting w') \<and> remove1 p (waiting w') = waiting w \<and> qwhen w' p = due_time ns d \<and>
    handlers w' = handlers w \<and> cells w' p = Some m \<and> mWhat m = what \<and> mParam m = x \<and>
    mCallback m = 0 \<and> mHandleCallback m = 0"
proof -
  let ?f = "\<lambda>m. m\<lparr>mWhat := what, mArg1 := a, mArg2 := b, mParam := x, mParamBytes := n, mParamFreeFunc := f\<rparr>"
  have "send_timer_message ns what a b d x n f False h w =
      bnd (obtain_with ?f h w) (\<lambda>(p, w). sendMessageAtTime h p (due_time ns d) w)"
    by (simp add: send_timer_message_def obtain_param_def sendMessageDelayed_eq)
  then show ?thesis using send_obtained_ok [OF assms, of ?f "due_time ns d"] by auto
qed

text \<open>C21: A scheduled task waits in the queue, among the messages that waited before, until the clock
  plus the timeout; dispatching its message calls the timer's function, and that calls back exactly
  the task. But the function of the handler is set only after the message has been sent: if the
  loop thread dispatches the first message in between, nothing is called and the task is lost.\<close>
theorem schedule_calls_back:
  assumes "queue_ok w" and "\<not> mQuit w" and "\<not> mNotEnqueMsg w" and "handlers w h = Some H"
    and "h \<noteq> 0" and "mQueue H \<noteq> 0" and "mCallbackFn H = 0" and "taskfunc \<noteq> 0"
    and "unat ns div 1000000 + nat (max 0 timeout) < 2 ^ 64"
  shows "\<exists>w' p. schedule ns taskfunc timeout h w = Inr w' \<and> queue_ok w' \<and>
    p \<in> set (waiting w') \<and> remove1 p (waiting w') = waiting w \<and>
    unat (qwhen w' p) = unat ns div 1000000 + nat (max 0 timeout) \<and>
    dispatchMessage h p w' = Inr (CallFn onTimerTaskFuncHandler_fn p (mContext H)) \<and>
    onTimerTaskFuncHandler p w' = Inr (Some taskfunc) \<and>
    (mMessageHandlerFn H = 0 \<and> mMsgHandlerObj H = 0 \<and> mmsgCallbackObj H = 0 \<longrightarrow>
      (\<exists>w1. send_timer_message ns TIMER_MESSAGE 0 0 timeout taskfunc 0 0 False h w = Inr w1 \<and>
        p \<in> set (waiting w1) \<and> dispatchMessage h p w1 = Inr NoCall))"
proof -
  obtain w1 p m where w1: "send_timer_message ns TIMER_MESSAGE 0 0 timeout taskfunc 0 0 False h w = Inr w1"
    "queue_ok w1" "p \<noteq> 0" "p \<in> set (waiting w1)" "remove1 p (waiting w1) = waiting w"
    "qwhen w1 p = due_time ns timeout" "handlers w1 = handlers w" "cells w1 p = Some m"
    "mWhat m = TIMER_MESSAGE" "mParam m = taskfunc" "mCallback m = 0" "mHandleCallback m = 0"
    using send_timer_message_ok [OF assms(1-6)] by blast
  let ?w = "w1\<lparr>handlers := (handlers w1)(h := Some (H\<lparr>mMessageHandlerFn := onTimerTaskFuncHandler_fn\<rparr>))\<rparr>"
  have "schedule ns taskfunc timeout h w = Inr ?w"
    using w1(1,7) assms(4,5) by (simp add: schedule_def sendTimerTaskMsg_def setMsgHandlerFunc_def updh_def ldh_def)
  moreover have "dispatchMessage h p ?w = Inr (CallFn onTimerTaskFuncHandler_fn p (mContext H))"
    using w1 assms(5,7) by (simp add: dispatchMessage_def ldh_def ld_def onTimerTaskFuncHandler_fn_def)
  moreover have "onTimerTaskFuncHandler p ?w = Inr (Some taskfunc)"
    using w1 assms(8) by (simp add: onTimerTaskFuncHandler_def ld_def getParam_def Let_def)
  moreover have "mMessageHandlerFn H = 0 \<and> mMsgHandlerObj H = 0 \<and> mmsgCallbackObj H = 0 \<longrightarrow>
    dispatchMessage h p w1 = Inr NoCall"
    using w1 assms(4,5,7) by (simp add: dispatchMessage_def ldh_def ld_def)
  ultimately show ?thesis using w1 due_time_unat [OF assms(9)]
    by (intro exI [of _ ?w] exI [of _ p]) simp
qed

lemma queue_ok_hbrk [simp]:
  fixes w :: "'a world_scheme"
  shows "queue_ok (w\<lparr>hbrk := x\<rparr>) = queue_ok w"
proof -
  have m: "msg_at (w\<lparr>hbrk := x\<rparr>) = msg_at w" by (rule msg_at_cong) simp
  then have q: "qwhen (w\<lparr>hbrk := x\<rparr>) = qwhen w" by (simp add: qwhen_def fun_eq_iff)
  have l: "waiting (w\<lparr>hbrk := x\<rparr>) = waiting w" "pooled (w\<lparr>hbrk := x\<rparr>) = pooled w"
    by (simp_all add: waiting_def pooled_def)
  show ?thesis unfolding queue_ok_def queue_rel_def queue_shape_def l m q by (simp add: wf_mem_def)
qed

theorem schedule_calls_back_witness:
  "\<exists>w h p w'. TimerTask_handler (sample_world 9) = Inr (h, w) \<and> schedule 9000000 33 20 h w = Inr w' \<and>
    unat (qwhen w' p) = 29 \<and> onTimerTaskFuncHandler p w' = Inr (Some 33)"
proof -
  have nine: "1 \<le> (9::int)" by simp
  note s = sample_queue_ok [OF nine]
  have b: "hbrk (sample_world 9) = 78" by (simp add: sample_world_def mqueue.defs)
  let ?H = "MsgHandler_new\<lparr>mLooper := 50, mQueue := 51, mContext := 0\<rparr>"
  obtain w where w: "TimerTask_handler (sample_world 9) = Inr (78, w)" "handlers w 78 = Some ?H"
    "queue_ok w" "\<not> mQuit w" "\<not> mNotEnqueMsg w"
    using s b by (simp add: TimerTask_handler_def createHandler_def new_handler_def updh_def ldh_def Let_def)
  show ?thesis
    using schedule_calls_back [OF w(3,4,5,2), of 33 9000000 20] w(1) by (auto simp: MsgHandler_new_def)
qed

end
