(* ===== verification/Time_Util.thy ===== *)
theory Time_Util
  imports Base_Prelude
begin

text \<open>
  The clocks of \<open>src/base/TimeUtil.cpp\<close> on the POSIX branch: the time of day in four units and its
  conversion to text. What the system's clocks answer is an argument (\<open>timeval\<close> and \<open>timespec\<close> as a
  pair of numbers), as are \<open>ctime\<close>, \<open>localtime\<close> and \<open>asctime\<close> of the C library. The products are
  computed in the signed 64-bit type \<open>long long\<close>, whose overflow is undefined.
\<close>

definition PER_SEC_MSEC :: int where "PER_SEC_MSEC = 1000"
definition per_sec_usec :: int where "per_sec_usec = 1000000"
definition PER_SEC_NSEC :: int where "PER_SEC_NSEC = 1000000000"

definition int64 :: "int \<Rightarrow> int res" where
  "int64 v = (if - (2 ^ 63) \<le> v \<and> v < 2 ^ 63 then Inr v else Inl Undefined)"

text \<open>Seconds scaled to a finer unit, plus the part below a second.\<close>

definition scaled :: "int \<Rightarrow> int \<Rightarrow> int \<Rightarrow> 64 word res" where
  "scaled unit tv_sec part =
     bnd (int64 (tv_sec * unit)) (\<lambda>a. bnd (int64 (a + part)) (\<lambda>v. Inr (word_of_int v)))"

definition getNowTimeOfSec :: "int \<Rightarrow> 64 word" where
  "getNowTimeOfSec now = word_of_int now"

definition getNowTimeOfMs :: "int \<Rightarrow> int \<Rightarrow> 64 word res" where
  "getNowTimeOfMs tv_sec tv_usec = scaled PER_SEC_MSEC tv_sec (tv_usec div PER_SEC_MSEC)"

definition getNowTimeOfUs :: "int \<Rightarrow> int \<Rightarrow> 64 word res" where
  "getNowTimeOfUs tv_sec tv_usec = scaled per_sec_usec tv_sec tv_usec"

definition getNowTimeOfNs :: "int \<Rightarrow> int \<Rightarrow> 64 word res" where
  "getNowTimeOfNs tv_sec tv_nsec = scaled PER_SEC_NSEC tv_sec tv_nsec"

definition getNowSystemTimeOfSec :: "int \<Rightarrow> 64 word" where
  "getNowSystemTimeOfSec now = word_of_int now"

text \<open>The conversions to text; a \<open>time_t\<close> is a signed 64-bit number.\<close>

definition time2char :: "(int \<Rightarrow> string) \<Rightarrow> int \<Rightarrow> string" where
  "time2char ctime t = ctime t"

definition utcNowTime2String :: "(int \<Rightarrow> string) \<Rightarrow> int \<Rightarrow> string" where
  "utcNowTime2String ctime now = time2char ctime now"

definition localNowTime2String :: "(int \<Rightarrow> 'tm) \<Rightarrow> ('tm \<Rightarrow> string) \<Rightarrow> int \<Rightarrow> string" where
  "localNowTime2String localtime asctime now = asctime (localtime now)"

definition utcSecTime2String :: "(int \<Rightarrow> string) \<Rightarrow> 64 word \<Rightarrow> string" where
  "utcSecTime2String ctime t = time2char ctime (sint t)"

definition utcMSecTime2String :: "(int \<Rightarrow> string) \<Rightarrow> 64 word \<Rightarrow> string" where
  "utcMSecTime2String ctime t = time2char ctime (sint (t div word_of_int PER_SEC_MSEC))"

definition utcMicrosTime2String :: "(int \<Rightarrow> string) \<Rightarrow> 64 word \<Rightarrow> string" where
  "utcMicrosTime2String ctime t = time2char ctime (sint (t div word_of_int per_sec_usec))"

subsection \<open>The units agree\<close>

lemma uint_small: "0 \<le> v \<Longrightarrow> v < 2 ^ 63 \<Longrightarrow> uint (word_of_int v :: 64 word) = v"
  by (simp add: uint_word_of_int)

lemma sint_small: "0 \<le> v \<Longrightarrow> v < 2 ^ 63 \<Longrightarrow> sint (word_of_int v :: 64 word) = v"
  by (simp add: sint_sbintrunc' signed_take_bit_int_eq_self)

lemma word_div_small:
  assumes "0 \<le> v" and "v < 2 ^ 63" and "0 < k" and "k < 2 ^ 63"
  shows "(word_of_int v :: 64 word) div word_of_int k = word_of_int (v div k)"
  using assms by (simp add: word_div_def uint_small)

lemma scaled_eq:
  assumes "0 \<le> s" and "0 \<le> part" and "0 < unit" and "s * unit + part < 2 ^ 63"
  shows "scaled unit s part = Inr (word_of_int (s * unit + part))"
proof -
  have p: "0 \<le> s * unit" using assms by simp
  have "int64 (s * unit) = Inr (s * unit)" unfolding int64_def using p assms(2,4) by (subst if_P) auto
  moreover have "int64 (s * unit + part) = Inr (s * unit + part)"
    unfolding int64_def using p assms(2,4) by (subst if_P) auto
  ultimately show ?thesis by (simp add: scaled_def)
qed

text \<open>The clocks agree: while nanoseconds fit (until the year 2262) no product overflows, the
  milliseconds \<open>isIdle\<close> takes from the time of day are the milliseconds \<open>next\<close> and the handlers take
  from the nanoseconds, every coarser unit is the finer one divided, and the text of a number of
  seconds, milliseconds or microseconds is the text of its moment.\<close>
theorem clocks_agree:
  assumes "0 \<le> sec" and "sec < 9223372036" and "0 \<le> nsec" and "nsec < 1000000000"
  shows "\<exists>ns us ms. getNowTimeOfNs sec nsec = Inr ns \<and> getNowTimeOfUs sec (nsec div 1000) = Inr us \<and>
    getNowTimeOfMs sec (nsec div 1000) = Inr ms \<and> ns div 1000000 = ms \<and> us div 1000 = ms \<and>
    ns div 1000 = us \<and> ms div 1000 = getNowTimeOfSec sec \<and>
    utcSecTime2String ctime (getNowTimeOfSec sec) = utcNowTime2String ctime sec \<and>
    utcMSecTime2String ctime ms = utcNowTime2String ctime sec \<and>
    utcMicrosTime2String ctime us = utcNowTime2String ctime sec"
proof -
  define k j where "k = nsec div 1000" and "j = k div 1000"
  define ns us ms where "ns = sec * 1000000000 + nsec" and "us = sec * 1000000 + k"
    and "ms = sec * 1000 + j"
  have k: "nsec = 1000 * k + nsec mod 1000" "k = 1000 * j + k mod 1000" by (simp_all add: k_def j_def)
  have m: "0 \<le> nsec mod 1000" "nsec mod 1000 < 1000" "0 \<le> k mod 1000" "k mod 1000 < 1000" by simp_all
  have d: "0 \<le> k" "k < 1000000" "0 \<le> j" "j < 1000" using assms k m by linarith+
  have b: "0 \<le> ns" "ns < 2 ^ 63" "0 \<le> us" "us < 2 ^ 63" "0 \<le> ms" "ms < 2 ^ 63"
    using assms d by (simp_all add: ns_def us_def ms_def)
  have "ns div 1000 = us" by (rule int_div_pos_eq [of _ _ _ "nsec mod 1000"]) (use k m in \<open>simp_all add: ns_def us_def\<close>)
  moreover have "us div 1000 = ms" by (rule int_div_pos_eq [of _ _ _ "k mod 1000"]) (use k m in \<open>simp_all add: ms_def us_def\<close>)
  moreover have "ms div 1000 = sec" by (rule int_div_pos_eq [of _ _ _ j]) (use d in \<open>simp_all add: ms_def\<close>)
  moreover have "us div 1000000 = sec" by (rule int_div_pos_eq [of _ _ _ k]) (use d in \<open>simp_all add: us_def\<close>)
  moreover have "ns div 1000000 = ms"
    by (rule int_div_pos_eq [of _ _ _ "1000 * (k mod 1000) + nsec mod 1000"]) (use k m in \<open>simp_all add: ns_def ms_def\<close>)
  ultimately have q: "ns div 1000 = us" "us div 1000 = ms" "ms div 1000 = sec" "us div 1000000 = sec"
    "ns div 1000000 = ms" by blast+
  have r: "getNowTimeOfNs sec nsec = Inr (word_of_int ns)" "getNowTimeOfUs sec k = Inr (word_of_int us)"
    "getNowTimeOfMs sec k = Inr (word_of_int ms)"
    unfolding getNowTimeOfNs_def getNowTimeOfUs_def getNowTimeOfMs_def PER_SEC_NSEC_def
      per_sec_usec_def PER_SEC_MSEC_def ns_def us_def ms_def j_def [symmetric]
    by (rule scaled_eq; use assms d in simp)+
  have w: "(word_of_int ns :: 64 word) div word_of_int 1000000 = word_of_int ms"
    "(word_of_int ns :: 64 word) div word_of_int 1000 = word_of_int us"
    "(word_of_int us :: 64 word) div word_of_int 1000 = word_of_int ms"
    "(word_of_int us :: 64 word) div word_of_int 1000000 = word_of_int sec"
    "(word_of_int ms :: 64 word) div word_of_int 1000 = word_of_int sec"
    using q word_div_small [OF b(1,2), of 1000000] word_div_small [OF b(1,2), of 1000]
      word_div_small [OF b(3,4), of 1000] word_div_small [OF b(3,4), of 1000000]
      word_div_small [OF b(5,6), of 1000] by simp_all
  have "sint (word_of_int sec :: 64 word) = sec" using assms by (intro sint_small) simp_all
  then show ?thesis using r w unfolding k_def [symmetric]
    by (intro exI [of _ "word_of_int ns"] exI [of _ "word_of_int us"] exI [of _ "word_of_int ms"])
      (simp add: getNowTimeOfSec_def utcSecTime2String_def utcMSecTime2String_def
        utcMicrosTime2String_def utcNowTime2String_def time2char_def PER_SEC_MSEC_def per_sec_usec_def)
qed

theorem clocks_agree_witness:
  "\<exists>ns ms. getNowTimeOfNs 1700000000 123456789 = Inr ns \<and> getNowTimeOfMs 1700000000 123456 = Inr ms \<and>
    ns div 1000000 = ms"
  using clocks_agree [of 1700000000 123456789 "\<lambda>_. []"] by auto

text \<open>From that year on the nanoseconds overflow, so \<open>next\<close> has no defined time.\<close>

lemma getNowTimeOfNs_overflow: "9223372037 \<le> sec \<Longrightarrow> getNowTimeOfNs sec nsec = Inl Undefined"
  by (simp add: getNowTimeOfNs_def scaled_def int64_def PER_SEC_NSEC_def)

subsection \<open>Processor ticks\<close>

text \<open>
  The differences are of type \<open>float\<close>: how a 64-bit number is converted to it and how it is divided are
  arguments, as is \<open>CLOCKS_PER_SEC\<close> (a million on POSIX, a thousand on Windows).
\<close>

definition getCpuTickTimeOfMs :: "int \<Rightarrow> int" where
  "getCpuTickTimeOfMs clock = clock"

definition diffCpuTimeOfSec ::
  "(64 word \<Rightarrow> 'f) \<Rightarrow> ('f \<Rightarrow> int \<Rightarrow> 'f) \<Rightarrow> int \<Rightarrow> 64 word \<Rightarrow> 64 word \<Rightarrow> 'f" where
  "diffCpuTimeOfSec to_float quot CLOCKS_PER_SEC tick1 tick2 = quot (to_float (tick2 - tick1)) CLOCKS_PER_SEC"

definition diffCpuTimeOfMs ::
  "(64 word \<Rightarrow> 'f) \<Rightarrow> ('f \<Rightarrow> int \<Rightarrow> 'f) \<Rightarrow> int \<Rightarrow> 64 word \<Rightarrow> 64 word \<Rightarrow> 'f" where
  "diffCpuTimeOfMs to_float quot CLOCKS_PER_SEC tick1 tick2 =
     quot (to_float ((tick2 - tick1) * word_of_int PER_SEC_MSEC)) CLOCKS_PER_SEC"

definition diffCpuTimeOfUs :: "(64 word \<Rightarrow> 'f) \<Rightarrow> 64 word \<Rightarrow> 64 word \<Rightarrow> 'f" where
  "diffCpuTimeOfUs to_float tick1 tick2 = to_float (tick2 - tick1)"

text \<open>
  With exact arithmetic in place of \<open>float\<close>: the units agree while the product fits, and a difference
  taken in the wrong order (the header forbids it) is short of \<open>2 ^ 64\<close> instead of negative.
\<close>

definition exact :: "64 word \<Rightarrow> 'f::field_char_0" where
  "exact w = of_nat (unat w)"

definition exact_div :: "'f::field_char_0 \<Rightarrow> int \<Rightarrow> 'f" where
  "exact_div x n = x / of_int n"

lemma diffCpuTime_units:
  assumes "unat (tick2 - tick1) * 1000 < 2 ^ 64"
  shows "(diffCpuTimeOfMs exact exact_div cps tick1 tick2 :: 'f::field_char_0) =
      1000 * diffCpuTimeOfSec exact exact_div cps tick1 tick2"
    and "cps = 1000000 \<Longrightarrow> (diffCpuTimeOfUs exact tick1 tick2 :: 'f) = 1000 * diffCpuTimeOfMs exact exact_div cps tick1 tick2"
proof -
  have "unat ((tick2 - tick1) * word_of_int PER_SEC_MSEC) = unat (tick2 - tick1) * 1000"
    using assms unat_mult_lem [of "tick2 - tick1" "1000"] unfolding PER_SEC_MSEC_def
    by (simp del: left_diff_distrib)
  then show "(diffCpuTimeOfMs exact exact_div cps tick1 tick2 :: 'f) =
      1000 * diffCpuTimeOfSec exact exact_div cps tick1 tick2"
    and "cps = 1000000 \<Longrightarrow> (diffCpuTimeOfUs exact tick1 tick2 :: 'f) = 1000 * diffCpuTimeOfMs exact exact_div cps tick1 tick2"
    by (simp_all add: diffCpuTimeOfMs_def diffCpuTimeOfSec_def diffCpuTimeOfUs_def exact_def exact_div_def)
qed

lemma diffCpuTime_wraps:
  assumes "tick2 < tick1"
  shows "(diffCpuTimeOfUs exact tick1 tick2 :: 'f::field_char_0) = of_nat (2 ^ 64 - (unat tick1 - unat tick2))"
proof -
  have "unat (tick2 - tick1) = 2 ^ 64 + unat tick2 - unat tick1"
    using assms by (simp add: unat_sub_if' word_less_nat_alt)
  moreover have "unat tick1 < 2 ^ 64" using unsigned_less [of tick1] by simp
  ultimately have "unat (tick2 - tick1) = 2 ^ 64 - (unat tick1 - unat tick2)"
    using assms by (simp add: word_less_nat_alt)
  then show ?thesis by (simp add: diffCpuTimeOfUs_def exact_def)
qed

subsection \<open>The time of day on Windows\<close>

text \<open>
  Windows has no \<open>gettimeofday\<close>, so the file defines it from the local time and \<open>mktime\<close>. The cast to
  \<open>long\<close> keeps 32 bits there.
\<close>

record SYSTEMTIME =
  wYear :: int
  wMonth :: int
  wDay :: int
  wHour :: int
  wMinute :: int
  wSecond :: int
  wMilliseconds :: int

record tm =
  tm_year :: int
  tm_mon :: int
  tm_mday :: int
  tm_hour :: int
  tm_min :: int
  tm_sec :: int
  tm_isdst :: int

definition gettimeofday :: "(tm \<Rightarrow> int) \<Rightarrow> SYSTEMTIME \<Rightarrow> int \<times> int" where
  "gettimeofday mktime wtm =
     (let tm = \<lparr>tm_year = wYear wtm - 1900, tm_mon = wMonth wtm - 1, tm_mday = wDay wtm, tm_hour = wHour wtm,
        tm_min = wMinute wtm, tm_sec = wSecond wtm, tm_isdst = -1\<rparr>;
          clock = mktime tm
      in (sint (word_of_int clock :: 32 word), wMilliseconds wtm * 1000))"

definition win_getNowTimeOfMs :: "(tm \<Rightarrow> int) \<Rightarrow> SYSTEMTIME \<Rightarrow> 64 word res" where
  "win_getNowTimeOfMs mktime wtm = (case gettimeofday mktime wtm of (sec, usec) \<Rightarrow> getNowTimeOfMs sec usec)"

text \<open>Until January 2038 the milliseconds are exact; from then on the seconds are negative.\<close>

lemma gettimeofday_exact:
  assumes "\<And>t. 0 \<le> mktime t \<and> mktime t < 2 ^ 31" and "0 \<le> wMilliseconds wtm" and "wMilliseconds wtm < 1000"
  shows "\<exists>t. win_getNowTimeOfMs mktime wtm = Inr (word_of_int (mktime t * 1000 + wMilliseconds wtm)) \<and>
    tm_year t + 1900 = wYear wtm \<and> tm_mon t + 1 = wMonth wtm"
proof -
  define t where "t = \<lparr>tm_year = wYear wtm - 1900, tm_mon = wMonth wtm - 1, tm_mday = wDay wtm, tm_hour = wHour wtm,
    tm_min = wMinute wtm, tm_sec = wSecond wtm, tm_isdst = -1\<rparr>"
  have s: "sint (word_of_int (mktime t) :: 32 word) = mktime t"
    using assms(1) [of t] by (simp add: sint_sbintrunc' signed_take_bit_int_eq_self)
  have "scaled 1000 (mktime t) (wMilliseconds wtm) = Inr (word_of_int (mktime t * 1000 + wMilliseconds wtm))"
    using assms(1) [of t] assms(2,3) by (intro scaled_eq) simp_all
  then have "win_getNowTimeOfMs mktime wtm = Inr (word_of_int (mktime t * 1000 + wMilliseconds wtm))"
    unfolding win_getNowTimeOfMs_def gettimeofday_def t_def [symmetric] Let_def
    by (simp add: s getNowTimeOfMs_def PER_SEC_MSEC_def)
  then show ?thesis by (intro exI [of _ t]) (simp add: t_def)
qed

lemma gettimeofday_2038: "fst (gettimeofday (\<lambda>_. 2 ^ 31) wtm) = - (2 ^ 31)"
  by (simp add: gettimeofday_def)

end
