(* ===== verification/Log_Print.thy ===== *)
theory Log_Print
  imports Base_Prelude
begin

text \<open>
  The logger of \<open>src/os/Logger.cpp\<close> (not Android). The calls it makes on the vendored \<open>spdlog\<close> and
  on \<open>printf\<close> are recorded in order. The text that \<open>vsnprintf\<close> makes of the format and its arguments
  is an argument, without its terminator; a null pointer is \<open>None\<close>.
\<close>

datatype LogPriority =
    LOG_LEVEL_NONE
  | LOG_LEVEL_FATAL
  | LOG_LEVEL_ERR
  | LOG_LEVEL_WARNING
  | LOG_LEVEL_INFO
  | LOG_LEVEL_DEBUG

text \<open>The enumeration's numbers order the levels, as the assertion of \<open>logPrint\<close> uses them.\<close>

fun level_number :: "LogPriority \<Rightarrow> nat" where
  "level_number LOG_LEVEL_NONE = 0"
| "level_number LOG_LEVEL_FATAL = 1"
| "level_number LOG_LEVEL_ERR = 2"
| "level_number LOG_LEVEL_WARNING = 3"
| "level_number LOG_LEVEL_INFO = 4"
| "level_number LOG_LEVEL_DEBUG = 5"

lemma level_number_inj: "level_number a = level_number b \<Longrightarrow> a = b"
  by (cases a; cases b) simp_all

instantiation LogPriority :: linorder
begin

definition less_eq_LogPriority :: "LogPriority \<Rightarrow> LogPriority \<Rightarrow> bool" where
  "less_eq_LogPriority a b \<longleftrightarrow> level_number a \<le> level_number b"

definition less_LogPriority :: "LogPriority \<Rightarrow> LogPriority \<Rightarrow> bool" where
  "less_LogPriority a b \<longleftrightarrow> level_number a < level_number b"

instance
  by standard (auto simp: less_eq_LogPriority_def less_LogPriority_def intro: level_number_inj)

end

lemma levels_between: "LOG_LEVEL_NONE \<le> prio \<and> prio \<le> LOG_LEVEL_DEBUG"
  by (cases prio) (simp_all add: less_eq_LogPriority_def)

datatype log_call =
    SetLevelTrace
  | Debug string
  | Info string
  | Warn string
  | Error string
  | Trace string
  | Printf string

record logger =
  inited :: bool
  log_calls :: "log_call list"

definition initLogger :: "logger \<Rightarrow> logger" where
  "initLogger L =
     (if inited L then L else L\<lparr>inited := True, log_calls := log_calls L @ [SetLevelTrace]\<rparr>)"

text \<open>
  The buffer has 1024 bytes and starts as zeros: the tag is copied into it, then at most
  \<open>1024 - size\<close> bytes with the terminator follow. A tag that fills it leaves no terminator, so that
  reading the text runs past the end. \<open>LOG_LEVEL_NONE\<close> has no \<open>break\<close>.
\<close>

definition logPrint :: "LogPriority \<Rightarrow> string option \<Rightarrow> string option \<Rightarrow> logger \<Rightarrow> logger res" where
  "logPrint prio tag text L =
     (if \<not> (LOG_LEVEL_NONE \<le> prio \<and> prio \<le> LOG_LEVEL_DEBUG) then Inl AssertFail
      else case (tag, text) of
        (Some tag, Some text) \<Rightarrow>
          (let size = length tag in
           if 1024 < size then Inl OutOfBounds
           else
             (let buf = tag @ take (1024 - size - 1) text; L = initLogger L in
              if size = 1024 then Inl OutOfBounds
              else Inr (L\<lparr>log_calls := log_calls L @
                (case prio of
                   LOG_LEVEL_DEBUG \<Rightarrow> [Debug buf]
                 | LOG_LEVEL_INFO \<Rightarrow> [Info buf]
                 | LOG_LEVEL_WARNING \<Rightarrow> [Warn buf]
                 | LOG_LEVEL_ERR \<Rightarrow> [Error buf]
                 | LOG_LEVEL_FATAL \<Rightarrow> [Error buf]
                 | LOG_LEVEL_NONE \<Rightarrow> [Trace buf, Printf buf])\<rparr>)))
      | _ \<Rightarrow> Inl AssertFail)"

text \<open>
  A message is logged with at most 1023 characters, its beginning kept and its tag never cut, once
  - or twice without a level - and the level of the library is set exactly once.
\<close>

definition log_text :: "log_call \<Rightarrow> string option" where
  "log_text c =
     (case c of SetLevelTrace \<Rightarrow> None | Debug s \<Rightarrow> Some s | Info s \<Rightarrow> Some s | Warn s \<Rightarrow> Some s
      | Error s \<Rightarrow> Some s | Trace s \<Rightarrow> Some s | Printf s \<Rightarrow> Some s)"

definition level_once :: "logger \<Rightarrow> bool" where
  "level_once L \<longleftrightarrow> length (filter (\<lambda>c. c = SetLevelTrace) (log_calls L)) = (if inited L then 1 else 0)"

lemma logPrint_logs:
  assumes "length tag < 1024" and "level_once L"
  shows "\<exists>L'. logPrint prio (Some tag) (Some text) L = Inr L' \<and> level_once L' \<and> inited L' \<and>
    (\<exists>cs. log_calls L' = log_calls L @ cs \<and>
      List.map_filter log_text cs =
        replicate (if prio = LOG_LEVEL_NONE then 2 else 1) (take 1023 (tag @ text)))"
proof -
  have "take 1023 (tag @ text) = tag @ take (1024 - length tag - 1) text"
    using assms(1) by simp
  then show ?thesis using assms
    by (cases prio)
      (auto simp: logPrint_def levels_between Let_def initLogger_def level_once_def log_text_def List.map_filter_def
        numeral_2_eq_2)
qed

lemma logPrint_overflow:
  "1024 \<le> length tag \<Longrightarrow> logPrint prio (Some tag) (Some text) L = Inl OutOfBounds"
  by (simp add: logPrint_def levels_between Let_def)

end
