(* ===== verification/Looper_Lifetime.thy ===== *)
theory Looper_Lifetime
  imports Looper_Thread Lock_Guards
begin

text \<open>
  How long a looper lives, and the entry of its loop (\<open>src/looper/MessageLooper.cpp\<close>). A \<open>Looper\<close> is a
  \<open>std::shared_ptr\<close>: the slot of the thread that prepared it holds one reference, and every copy the
  clients have (handlers, the LooperThread, local variables) holds another. The last reference that
  goes runs the destructor, which quits the queue and releases it; nobody holds the queue longer
  than a looper (a handler keeps both). \<open>loop\<close> begins by taking the class-wide mutex twice, once
  itself and once in \<open>myLooper\<close>.
\<close>

subsection \<open>The destructor and the references\<close>

definition MsgLooper_delete :: "MsgLooper \<Rightarrow> mqueue res" where
  "MsgLooper_delete L =
     bnd (MsgLooper_quit False L) (\<lambda>L.
       let L = L\<lparr>mThreadId := 0, lpExit := True, lpPromote := False\<rparr> in MsgQueue_delete (lpQueue L))"

record lifetime =
  lfProc :: process
  use_count :: "ptr \<Rightarrow> nat"
  lfHeld :: "ptr \<Rightarrow> nat"

definition lf_prepare :: "int \<Rightarrow> 64 word \<Rightarrow> lifetime \<Rightarrow> lifetime" where
  "lf_prepare n tid s =
     (let fresh = (mThreadLocal (lfProc s) tid = 0);
          (p, P) = prepare n tid (lfProc s);
          c = (if fresh then 1 else use_count s p) in
      s\<lparr>lfProc := P, use_count := (use_count s)(p := c + 1), lfHeld := (lfHeld s)(p := lfHeld s p + 1)\<rparr>)"

definition lf_copy :: "ptr \<Rightarrow> lifetime \<Rightarrow> lifetime" where
  "lf_copy p s = s\<lparr>use_count := (use_count s)(p := use_count s p + 1), lfHeld := (lfHeld s)(p := lfHeld s p + 1)\<rparr>"

text \<open>The end of one reference: the last one runs \<open>deleter<MsgLooper>\<close>.\<close>

definition lf_release :: "ptr \<Rightarrow> lifetime \<Rightarrow> lifetime res" where
  "lf_release p s =
     (if use_count s p = 0 then Inl Dangling
      else if use_count s p = 1 then
        bnd (ldl p (lfProc s)) (\<lambda>L. bnd (MsgLooper_delete L) (\<lambda>_.
          Inr (s\<lparr>lfProc := (lfProc s)\<lparr>loopers := (loopers (lfProc s))(p := None)\<rparr>,
                 use_count := (use_count s)(p := 0)\<rparr>)))
      else Inr (s\<lparr>use_count := (use_count s)(p := use_count s p - 1)\<rparr>))"

definition lf_drop :: "ptr \<Rightarrow> lifetime \<Rightarrow> lifetime res" where
  "lf_drop p s = lf_release p (s\<lparr>lfHeld := (lfHeld s)(p := lfHeld s p - 1)\<rparr>)"

text \<open>The end of a thread destroys its \<open>mThreadLocal\<close>.\<close>

definition lf_thread_exit :: "64 word \<Rightarrow> lifetime \<Rightarrow> lifetime res" where
  "lf_thread_exit tid s =
     (let p = mThreadLocal (lfProc s) tid in
      if p = 0 then Inr s
      else lf_release p (s\<lparr>lfProc := (lfProc s)\<lparr>mThreadLocal := (mThreadLocal (lfProc s))(tid := 0)\<rparr>\<rparr>))"

definition lf_on :: "(process \<Rightarrow> process res) \<Rightarrow> lifetime \<Rightarrow> lifetime res" where
  "lf_on f s = bnd (f (lfProc s)) (\<lambda>P. Inr (s\<lparr>lfProc := P\<rparr>))"

inductive life_step :: "lifetime \<Rightarrow> lifetime res \<Rightarrow> bool" where
  prepare: "0 \<le> n \<Longrightarrow> life_step s (Inr (lf_prepare n tid s))"
| copy: "0 < lfHeld s p \<Longrightarrow> life_step s (Inr (lf_copy p s))"
| drop: "0 < lfHeld s p \<Longrightarrow> life_step s (lf_drop p s)"
| thread_exit: "life_step s (lf_thread_exit tid s)"
| quit: "0 < lfHeld s p \<Longrightarrow> life_step s (lf_on (looper_quit safely p) s)"
| test_wait: "0 < lfHeld s p \<Longrightarrow> life_step s (lf_on (setTestWaitTime k p) s)"

definition life_start :: "lifetime \<Rightarrow> bool" where
  "life_start s \<longleftrightarrow> s = \<lparr>lfProc = empty_process, use_count = \<lambda>_. 0, lfHeld = \<lambda>_. 0\<rparr>"

definition slot_refs :: "process \<Rightarrow> ptr \<Rightarrow> nat" where
  "slot_refs P p = (if \<exists>t. mThreadLocal P t = p then 1 else 0)"

definition life_inv :: "lifetime \<Rightarrow> bool" where
  "life_inv s \<longleftrightarrow>
     loopers_ok (lfProc s) \<and> lfHeld s 0 = 0 \<and>
     (\<forall>p. p \<noteq> 0 \<longrightarrow> use_count s p = lfHeld s p + slot_refs (lfProc s) p \<and>
        (loopers (lfProc s) p \<noteq> None \<longleftrightarrow> 0 < use_count s p))"

subsection \<open>The destructor frees the messages of the queue\<close>

lemma MsgLooper_delete_ok:
  assumes ok: "queue_ok (lpQueue L)"
  shows "\<exists>q. MsgLooper_delete L = Inr q \<and>
    msg_at q = (\<lambda>a. if a \<in> set (waiting (lpQueue L)) \<union> set (pooled (lpQueue L)) then None
      else msg_at (lpQueue L) a)"
proof (cases "lpExit L \<or> mQuit (lpQueue L)")
  case True
  obtain q where "MsgQueue_delete (lpQueue L) = Inr q"
    "msg_at q = (\<lambda>a. if a \<in> set (waiting (lpQueue L)) \<union> set (pooled (lpQueue L)) then None
      else msg_at (lpQueue L) a)"
    using MsgQueue_delete_ok [OF queue_ok_rel [OF ok]] by blast
  with True show ?thesis by (auto simp: MsgLooper_delete_def MsgLooper_quit_def quit_def Let_def)
next
  case False
  then obtain q1 where q1: "quit False (lpQueue L) = Inr q1" "queue_rel q1 [] (pooled (lpQueue L))"
    "msg_at q1 = (\<lambda>a. if a \<in> set (waiting (lpQueue L)) then None else msg_at (lpQueue L) a)"
    using quit_now_ok [OF queue_ok_rel [OF ok]] by blast
  obtain q where "MsgQueue_delete q1 = Inr q"
    "msg_at q = (\<lambda>a. if a \<in> set [] \<union> set (pooled (lpQueue L)) then None else msg_at q1 a)"
    using MsgQueue_delete_ok [OF q1(2)] by blast
  with q1 False show ?thesis
    by (intro exI [of _ q]) (simp add: MsgLooper_delete_def MsgLooper_quit_def Let_def fun_eq_iff)
qed

subsection \<open>References and loopers agree\<close>

lemma setTestOutTime_queue_ok: "queue_ok q \<Longrightarrow> queue_ok (setTestOutTimeMillisExit t q)"
proof -
  assume ok: "queue_ok q"
  let ?q = "setTestOutTimeMillisExit t q"
  have m: "msg_at ?q = msg_at q" by (rule msg_at_cong) (simp add: setTestOutTimeMillisExit_def)
  have "qwhen ?q = qwhen q" using m by (simp add: qwhen_def fun_eq_iff)
  then have "queue_rel ?q (waiting q) (pooled q)"
    using queue_ok_rel [OF ok] m unfolding queue_rel_def queue_shape_def
    by (auto simp: setTestOutTimeMillisExit_def wf_mem_def)
  then show ?thesis by (auto simp: queue_ok_iff)
qed

text \<open>An operation on one looper that keeps its queue well formed keeps the process well formed.\<close>

lemma loopers_ok_upd:
  assumes "loopers_ok P" and "loopers P p = Some L" and "queue_ok (lpQueue L')" and "mThreadId L' = mThreadId L"
  shows "loopers_ok (P\<lparr>loopers := (loopers P)(p := Some L')\<rparr>)"
  using assms unfolding loopers_ok_def process_ok_def by (auto simp: fun_upd_def) (metis option.inject)+

lemma setTestWaitTime_ok:
  assumes "loopers_ok P" and "loopers P p = Some L" and "p \<noteq> 0"
  shows "\<exists>P'. setTestWaitTime k p P = Inr P' \<and> loopers_ok P' \<and> mThreadLocal P' = mThreadLocal P \<and>
    (\<forall>r. loopers P' r \<noteq> None \<longleftrightarrow> loopers P r \<noteq> None)"
proof -
  have "queue_ok (lpQueue L)" using assms(1,2) by (simp add: loopers_ok_def)
  then have "loopers_ok (P\<lparr>loopers := (loopers P)(p := Some
      (L\<lparr>lpQueue := setTestOutTimeMillisExit k (lpQueue L)\<rparr>))\<rparr>)"
    by (intro loopers_ok_upd [OF assms(1,2)]) (simp_all add: setTestOutTime_queue_ok)
  then show ?thesis using assms(2,3) by (auto simp: setTestWaitTime_def ldl_def)
qed

lemma looper_quit_slots: "looper_quit b p P = Inr P' \<Longrightarrow> mThreadLocal P' = mThreadLocal P"
  by (auto simp: looper_quit_def bnd_eq_Inr_iff)

lemma slot_refs_eq: "mThreadLocal P' = mThreadLocal P \<Longrightarrow> slot_refs P' = slot_refs P"
  by (simp add: slot_refs_def fun_eq_iff)

lemma life_invI:
  assumes "loopers_ok (lfProc s)" and "lfHeld s 0 = 0"
    and "\<And>p. p \<noteq> 0 \<Longrightarrow> use_count s p = lfHeld s p + slot_refs (lfProc s) p"
    and "\<And>p. p \<noteq> 0 \<Longrightarrow> loopers (lfProc s) p \<noteq> None \<longleftrightarrow> 0 < use_count s p"
  shows "life_inv s"
  unfolding life_inv_def using assms by blast

lemma life_invD:
  assumes "life_inv s"
  shows "loopers_ok (lfProc s)" "lfHeld s 0 = 0"
    "p \<noteq> 0 \<Longrightarrow> use_count s p = lfHeld s p + slot_refs (lfProc s) p"
    "p \<noteq> 0 \<Longrightarrow> loopers (lfProc s) p \<noteq> None \<longleftrightarrow> 0 < use_count s p"
  using assms unfolding life_inv_def by blast+

lemma life_held: "life_inv s \<Longrightarrow> 0 < lfHeld s p \<Longrightarrow> p \<noteq> 0"
  using life_invD(2) [of s] by (cases "p = 0") simp_all

lemma life_inv_on:
  assumes inv: "life_inv s" and p: "0 < lfHeld s p"
    and f: "\<And>L. loopers (lfProc s) p = Some L \<Longrightarrow> p \<noteq> 0 \<Longrightarrow> \<exists>P'. f (lfProc s) = Inr P' \<and> loopers_ok P' \<and>
      mThreadLocal P' = mThreadLocal (lfProc s) \<and> (\<forall>r. loopers P' r \<noteq> None \<longleftrightarrow> loopers (lfProc s) r \<noteq> None)"
  shows "\<exists>s'. lf_on f s = Inr s' \<and> life_inv s'"
proof -
  have nz: "p \<noteq> 0" using life_held [OF inv p] .
  then have "loopers (lfProc s) p \<noteq> None" using life_invD(3,4) [OF inv nz] p by simp
  then obtain L where "loopers (lfProc s) p = Some L" by blast
  from f [OF this nz] obtain P' where P': "f (lfProc s) = Inr P'" "loopers_ok P'"
    "mThreadLocal P' = mThreadLocal (lfProc s)" "\<forall>r. loopers P' r \<noteq> None \<longleftrightarrow> loopers (lfProc s) r \<noteq> None"
    by blast
  note slots = slot_refs_eq [OF P'(3)]
  have "life_inv (s\<lparr>lfProc := P'\<rparr>)"
  proof (rule life_invI)
    show "use_count (s\<lparr>lfProc := P'\<rparr>) r = lfHeld (s\<lparr>lfProc := P'\<rparr>) r + slot_refs (lfProc (s\<lparr>lfProc := P'\<rparr>)) r"
      if "r \<noteq> 0" for r using life_invD(3) [OF inv that] by (simp add: slots)
    show "loopers (lfProc (s\<lparr>lfProc := P'\<rparr>)) r \<noteq> None \<longleftrightarrow> 0 < use_count (s\<lparr>lfProc := P'\<rparr>) r"
      if "r \<noteq> 0" for r using life_invD(4) [OF inv that] P'(4) by simp
  qed (simp_all add: P'(2) life_invD(2) [OF inv])
  then show ?thesis using P'(1) by (simp add: lf_on_def)
qed

text \<open>Releasing a reference; the state is one in which its holder has already given it up.\<close>

lemma lf_release_inv:
  assumes ok: "loopers_ok (lfProc s)" and z: "lfHeld s 0 = 0" and p: "p \<noteq> 0"
    and cnt: "\<And>r. r \<noteq> 0 \<Longrightarrow> use_count s r = lfHeld s r + slot_refs (lfProc s) r + (if r = p then 1 else 0)"
    and live: "\<And>r. r \<noteq> 0 \<Longrightarrow> loopers (lfProc s) r \<noteq> None \<longleftrightarrow> 0 < use_count s r"
  shows "\<exists>s'. lf_release p s = Inr s' \<and> life_inv s'"
proof (cases "use_count s p = 1")
  case False
  let ?s = "s\<lparr>use_count := (use_count s)(p := use_count s p - 1)\<rparr>"
  have "use_count s p \<noteq> 0" using cnt [OF p] by simp
  then have "lf_release p s = Inr ?s" using False by (simp add: lf_release_def)
  moreover have "life_inv ?s"
  proof (rule life_invI)
    show "use_count ?s r = lfHeld ?s r + slot_refs (lfProc ?s) r" if "r \<noteq> 0" for r
      using cnt [OF that] cnt [OF p] by (cases "r = p") simp_all
    show "loopers (lfProc ?s) r \<noteq> None \<longleftrightarrow> 0 < use_count ?s r" if "r \<noteq> 0" for r
      using live [OF that] \<open>use_count s p \<noteq> 0\<close> False by auto
  qed (simp_all add: ok z)
  ultimately show ?thesis by blast
next
  case True
  then have no: "lfHeld s p = 0" "slot_refs (lfProc s) p = 0" using cnt [OF p] by simp_all
  then have slot: "\<forall>t. mThreadLocal (lfProc s) t \<noteq> p" by (auto simp: slot_refs_def split: if_splits)
  have "loopers (lfProc s) p \<noteq> None" using live [OF p] True by simp
  then obtain L where L: "loopers (lfProc s) p = Some L" by blast
  then have "queue_ok (lpQueue L)" using ok by (simp add: loopers_ok_def)
  then obtain q where q: "MsgLooper_delete L = Inr q" using MsgLooper_delete_ok by blast
  let ?P = "(lfProc s)\<lparr>loopers := (loopers (lfProc s))(p := None)\<rparr>"
  let ?s = "s\<lparr>lfProc := ?P, use_count := (use_count s)(p := 0)\<rparr>"
  have lok: "loopers_ok ?P" using ok slot by (auto simp: loopers_ok_def process_ok_def)
  have slots: "slot_refs ?P = slot_refs (lfProc s)" by (rule slot_refs_eq) simp
  have "life_inv ?s"
  proof (rule life_invI)
    show "use_count ?s r = lfHeld ?s r + slot_refs (lfProc ?s) r" if "r \<noteq> 0" for r
      using cnt [OF that] no by (simp add: slots)
    show "loopers (lfProc ?s) r \<noteq> None \<longleftrightarrow> 0 < use_count ?s r" if "r \<noteq> 0" for r
      using live [OF that] by simp
  qed (simp_all add: lok z)
  then show ?thesis using True L q p by (simp add: lf_release_def ldl_def)
qed

lemma lf_drop_inv:
  assumes "life_inv s" and "0 < lfHeld s p"
  shows "\<exists>s'. lf_drop p s = Inr s' \<and> life_inv s'"
proof -
  let ?s = "s\<lparr>lfHeld := (lfHeld s)(p := lfHeld s p - 1)\<rparr>"
  have "\<exists>s'. lf_release p ?s = Inr s' \<and> life_inv s'"
  proof (rule lf_release_inv)
    show "p \<noteq> 0" by (rule life_held [OF assms])
    show "use_count ?s r = lfHeld ?s r + slot_refs (lfProc ?s) r + (if r = p then 1 else 0)" if "r \<noteq> 0" for r
      using life_invD(3) [OF assms(1) that] assms(2) by simp
    show "loopers (lfProc ?s) r \<noteq> None \<longleftrightarrow> 0 < use_count ?s r" if "r \<noteq> 0" for r
      using life_invD(4) [OF assms(1) that] by simp
  qed (use life_invD(1,2) [OF assms(1)] in simp_all)
  then show ?thesis by (simp add: lf_drop_def)
qed

lemma lf_copy_inv:
  assumes inv: "life_inv s" and h: "0 < lfHeld s p"
  shows "life_inv (lf_copy p s)"
proof (rule life_invI)
  show "use_count (lf_copy p s) r = lfHeld (lf_copy p s) r + slot_refs (lfProc (lf_copy p s)) r" if "r \<noteq> 0" for r
    using life_invD(3) [OF inv that] by (cases "r = p") (simp_all add: lf_copy_def)
  show "loopers (lfProc (lf_copy p s)) r \<noteq> None \<longleftrightarrow> 0 < use_count (lf_copy p s) r" if "r \<noteq> 0" for r
    using life_invD(3,4) [OF inv that] h by (cases "r = p") (simp_all add: lf_copy_def)
qed (use life_invD(1,2) [OF inv] life_held [OF assms] in \<open>simp_all add: lf_copy_def\<close>)

lemma lf_thread_exit_inv:
  assumes inv: "life_inv s"
  shows "\<exists>s'. lf_thread_exit tid s = Inr s' \<and> life_inv s'"
proof (cases "mThreadLocal (lfProc s) tid = 0")
  case True
  then show ?thesis using inv by (simp add: lf_thread_exit_def)
next
  case False
  let ?p = "mThreadLocal (lfProc s) tid"
  let ?P = "(lfProc s)\<lparr>mThreadLocal := (mThreadLocal (lfProc s))(tid := 0)\<rparr>"
  have pok: "process_ok (lfProc s)" using inv by (simp add: life_inv_def loopers_ok_def)
  have alone: "t = tid" if "mThreadLocal (lfProc s) t = ?p" for t
    using process_ok_tls [OF pok, of t] process_ok_tls [OF pok, of tid] that False by (metis option.inject)
  have here: "slot_refs ?P ?p = 0" "slot_refs (lfProc s) ?p = 1"
    using alone False by (auto simp: slot_refs_def)
  have other: "slot_refs ?P r = slot_refs (lfProc s) r" if "r \<noteq> ?p" "r \<noteq> 0" for r
  proof -
    have "(\<exists>t. mThreadLocal ?P t = r) \<longleftrightarrow> (\<exists>t. mThreadLocal (lfProc s) t = r)" using that by auto
    then show ?thesis by (simp add: slot_refs_def)
  qed
  have lok: "loopers_ok ?P" using life_invD(1) [OF inv] by (auto simp: loopers_ok_def process_ok_def)
  let ?s = "s\<lparr>lfProc := ?P\<rparr>"
  have "\<exists>s'. lf_release ?p ?s = Inr s' \<and> life_inv s'"
  proof (rule lf_release_inv)
    show "use_count ?s r = lfHeld ?s r + slot_refs (lfProc ?s) r + (if r = ?p then 1 else 0)" if "r \<noteq> 0" for r
      using life_invD(3) [OF inv that] here other [OF _ that] by (cases "r = ?p") simp_all
    show "loopers (lfProc ?s) r \<noteq> None \<longleftrightarrow> 0 < use_count ?s r" if "r \<noteq> 0" for r
      using life_invD(4) [OF inv that] by simp
  qed (use lok False life_invD(2) [OF inv] in simp_all)
  then show ?thesis using False by (simp add: lf_thread_exit_def)
qed

lemma lf_prepare_inv:
  assumes inv: "life_inv s" and n: "0 \<le> n"
  shows "life_inv (lf_prepare n tid s)"
proof -
  have ok: "loopers_ok (lfProc s)" using inv by (simp add: life_inv_def)
  from prepare_ok [OF ok n, of tid] obtain p P where p: "prepare n tid (lfProc s) = (p, P)" "p \<noteq> 0"
    "loopers_ok P" by blast
  show ?thesis
  proof (cases "mThreadLocal (lfProc s) tid = 0")
    case False
    then have "P = lfProc s" "p = mThreadLocal (lfProc s) tid" using p(1) by (auto simp: prepare_def)
    then have "p \<noteq> 0" "loopers P p \<noteq> None" "P = lfProc s"
      using p ok process_ok_tls [of P tid] False by (auto simp: loopers_ok_def)
    then show ?thesis using life_invD [OF inv] False p
      by (intro life_invI) (simp_all add: lf_prepare_def)
  next
    case True
    then have P: "p = lbrk (lfProc s)" "P = (lfProc s)\<lparr>loopers := (loopers (lfProc s))(p := Some
        (MsgLooper_new (queue_name tid) n tid)), mThreadLocal := (mThreadLocal (lfProc s))(tid := p),
        lbrk := Suc p\<rparr>"
      using p(1) by (auto simp: prepare_def)
    have none: "loopers (lfProc s) p = None" using ok P(1) by (auto simp: loopers_ok_def process_ok_def)
    then have "use_count s p = 0" using life_invD(4) [OF inv p(2)] by simp
    then have "use_count s p = 0" "lfHeld s p = 0" "slot_refs (lfProc s) p = 0"
      using life_invD(3) [OF inv p(2)] by simp_all
    moreover have "slot_refs P p = 1" by (auto simp: slot_refs_def P(2))
    moreover have "slot_refs P r = slot_refs (lfProc s) r" if "r \<noteq> p" "r \<noteq> 0" for r
    proof -
      have "(\<exists>t. mThreadLocal P t = r) \<longleftrightarrow> (\<exists>t. mThreadLocal (lfProc s) t = r)"
        using that True by (auto simp: P(2)) (metis gr_implies_not0)
      then show ?thesis by (simp add: slot_refs_def)
    qed
    moreover have "loopers P r \<noteq> None \<longleftrightarrow> r = p \<or> loopers (lfProc s) r \<noteq> None" for r
      by (simp add: P(2))
    ultimately show ?thesis using life_invD [OF inv] True p
      by (intro life_invI) (simp_all add: lf_prepare_def)
  qed
qed

lemma life_step_inv: "life_inv s \<Longrightarrow> life_step s r \<Longrightarrow> \<exists>s'. r = Inr s' \<and> life_inv s'"
proof (erule life_step.cases)
  assume inv: "life_inv s"
  have ok: "loopers_ok (lfProc s)" using inv by (simp add: life_inv_def)
  fix n tid p b k sa
  assume sa: "s = sa"
  show "\<exists>s'. r = Inr s' \<and> life_inv s'" if "r = Inr (lf_prepare n tid sa)" "0 \<le> n"
    using lf_prepare_inv [OF inv] that sa by simp
  show "\<exists>s'. r = Inr s' \<and> life_inv s'" if "r = Inr (lf_copy p sa)" "0 < lfHeld sa p"
    using lf_copy_inv [OF inv] that sa by simp
  show "\<exists>s'. r = Inr s' \<and> life_inv s'" if "r = lf_drop p sa" "0 < lfHeld sa p"
    using lf_drop_inv [OF inv] that sa by simp
  show "\<exists>s'. r = Inr s' \<and> life_inv s'" if "r = lf_thread_exit tid sa"
    using lf_thread_exit_inv [OF inv] that sa by simp
  show "\<exists>s'. r = Inr s' \<and> life_inv s'" if "r = lf_on (looper_quit b p) sa" "0 < lfHeld sa p"
    using life_inv_on [OF inv, of p "looper_quit b p"] looper_quit_ok [OF ok] looper_quit_slots that sa
    by metis
  show "\<exists>s'. r = Inr s' \<and> life_inv s'" if "r = lf_on (setTestWaitTime k p) sa" "0 < lfHeld sa p"
    using life_inv_on [OF inv, of p "setTestWaitTime k p"] setTestWaitTime_ok [OF ok] that sa
    by metis
qed

lemma life_inv_start: "life_start s \<Longrightarrow> life_inv s"
  by (auto simp: life_start_def life_inv_def empty_process_def loopers_ok_def process_ok_def slot_refs_def)

interpretation lfp: safe_system life_start life_step life_inv
  by unfold_locales (fact life_inv_start life_step_inv)+



subsection \<open>The entry of the loop\<close>

text \<open>A scope guarded by an \<open>AutoMutex\<close>; \<open>None\<close> is a thread that waits for ever.\<close>

definition guarded :: "nat \<Rightarrow> (Mutex \<Rightarrow> ('r \<times> Mutex) option res) \<Rightarrow> Mutex \<Rightarrow> ('r \<times> Mutex) option res" where
  "guarded t body m =
     bnd (AutoMutex_enter t (Some m)) (\<lambda>r.
       case r of
         Some (Some m) \<Rightarrow>
           bnd (body m) (\<lambda>r.
             case r of
               None \<Rightarrow> Inr None
             | Some (x, m) \<Rightarrow> bnd (AutoMutex_leave t (Some m)) (\<lambda>m. Inr (map_option (Pair x) m)))
       | _ \<Rightarrow> Inr None)"

definition looper_mutex :: Mutex where
  "looper_mutex = Mutex_new PTHREAD_MUTEX_RECURSIVE_NP"

definition myLooper_locked :: "nat \<Rightarrow> 64 word \<Rightarrow> process \<Rightarrow> Mutex \<Rightarrow> (ptr \<times> Mutex) option res" where
  "myLooper_locked t tid P = guarded t (\<lambda>m. Inr (Some (myLooper tid P, m)))"

definition loop_entry :: "nat \<Rightarrow> 64 word \<Rightarrow> process \<Rightarrow> Mutex \<Rightarrow> (bool \<times> Mutex) option res" where
  "loop_entry t tid P =
     guarded t (\<lambda>m. bnd (myLooper_locked t tid P m) (\<lambda>r. Inr (map_option (\<lambda>(p, m). (p \<noteq> 0, m)) r)))"

text \<open>\<open>myQueue\<close> does not test what \<open>myLooper\<close> returns.\<close>

definition myQueue :: "64 word \<Rightarrow> process \<Rightarrow> mqueue res" where
  "myQueue tid P = getMsgQueue (myLooper tid P) P"

lemma myQueue_unprepared: "mThreadLocal P tid = 0 \<Longrightarrow> myQueue tid P = Inl NullDeref"
  by (simp add: myQueue_def getMsgQueue_def myLooper_def ldl_def)

lemma guarded_ok:
  assumes m: "mutex_free_for t m"
    and b: "\<And>m. mutex_free_for t m \<Longrightarrow> body m = Inr (Some (x, m))"
  shows "guarded t body m = Inr (Some (x, m))"
proof -
  obtain m' where m': "Mutex_lock t m = Inr (Some m')" "mutex_free_for t m'" "Mutex_unlock t m' = Inr m"
    using recm.lock_law [OF m] by blast
  then show ?thesis using b [OF m'(2)] by (simp add: guarded_def AutoMutex_enter_def AutoMutex_leave_def)
qed

text \<open>
  The class-wide mutex is recursive, so the two nested guards of \<open>loop\<close> neither wait nor fault and give
  it back as it was; with any other mutex the same code would be undefined or wait for itself.
\<close>

lemma loop_entry_ok:
  assumes "mutex_free_for t m"
  shows "loop_entry t tid P m = Inr (Some (myLooper tid P \<noteq> 0, m))"
  unfolding loop_entry_def
  by (rule guarded_ok [OF assms]) (simp add: myLooper_locked_def guarded_ok)

lemma loop_entry_other_kinds:
  "loop_entry t tid P (Mutex_new PTHREAD_MUTEX_TIMED_NP) = Inl Undefined"
  "loop_entry t tid P (Mutex_new PTHREAD_MUTEX_ADAPTIVE_NP) = Inr None"
  by (simp_all add: loop_entry_def myLooper_locked_def guarded_def AutoMutex_enter_def Mutex_new_def
      Mutex_lock_def pthread_mutex_lock_def)

lemma looper_mutex_free: "mutex_free_for t looper_mutex"
  by (simp add: looper_mutex_def mutex_free_for_def Mutex_new_def)

end
