(* ===== verification/Sample_Program.thy ===== *)
theory Sample_Program
  imports Msg_Looper "HOL-Library.Multiset"
begin

text \<open>
  The sample program \<open>test_looper.cpp\<close> as a composition of the components: one thread sends \<open>exitWhat\<close>
  messages, each with a parameter of its own and the deleter \<open>freeMem\<close>, to a handler of a looper that
  another thread runs, and then quits the looper, safely or not. \<open>main\<close> does it twice, with the
  loop in a LooperThread and with the loop in the main thread; the two threads and what they do are
  the same. The sender's steps are the critical sections of the queue it goes through; what it
  reads from the user (\<open>a_n\<close>, \<open>a_safe\<close>) and what \<open>malloc\<close> and \<open>strlen\<close> return are arguments. The
  function of the handler prints \<open>mWhat\<close> and the parameter: \<open>shown\<close> is what it has printed.
\<close>

subsection \<open>The program\<close>

record app_args =
  a_n :: nat
  a_safe :: bool
  a_handler :: ptr
  a_free :: ptr
  a_param :: "nat \<Rightarrow> ptr"
  a_bytes :: "nat \<Rightarrow> 64 word"

datatype apos = ANext | AHave ptr | AQuit | AFlags | ADone

record app =
  sy :: sys
  sent :: nat
  apos :: apos
  shown :: "(int \<times> ptr) list"

definition app_obtain :: "app_args \<Rightarrow> app \<Rightarrow> app res" where
  "app_obtain A s =
     bnd (obtain_or_new (que (sy s))) (\<lambda>(p, q).
     bnd (upd p (\<lambda>m. setParam (a_param A (sent s)) (a_bytes A (sent s)) (a_free A)
            (m\<lparr>mWhat := int (sent s)\<rparr>)) q) (\<lambda>q.
       Inr (s\<lparr>sy := (sy s)\<lparr>que := q, held := insert p (held (sy s))\<rparr>, apos := AHave p\<rparr>)))"

text \<open>\<open>sendMessage\<close>: without a delay the message is due at the reading of the clock.\<close>

definition app_send :: "app_args \<Rightarrow> ptr \<Rightarrow> app \<Rightarrow> app res" where
  "app_send A p s =
     bnd (upd p (\<lambda>m. m\<lparr>mTarget := a_handler A\<rparr>) (que (sy s))) (\<lambda>q.
     bnd (enqueueMessage p (clock (sy s)) q) (\<lambda>(_, q).
       Inr (s\<lparr>sy := (sy s)\<lparr>que := q, held := held (sy s) - {p}\<rparr>, sent := Suc (sent s), apos := ANext\<rparr>)))"

definition app_client :: "app_args \<Rightarrow> app \<Rightarrow> app res" where
  "app_client A s =
     (case apos s of
        ANext \<Rightarrow> if sent s = a_n A then Inr (s\<lparr>apos := AQuit\<rparr>) else app_obtain A s
      | AHave p \<Rightarrow> app_send A p s
      | AQuit \<Rightarrow> bnd (client_op (OpQuitQueue (a_safe A)) (sy s)) (\<lambda>t. Inr (s\<lparr>sy := t, apos := AFlags\<rparr>))
      | AFlags \<Rightarrow> bnd (client_op (OpQuitFlags (a_safe A)) (sy s)) (\<lambda>t. Inr (s\<lparr>sy := t, apos := ADone\<rparr>))
      | ADone \<Rightarrow> Inr s)"

text \<open>The loop thread; the dispatch calls \<open>msgHandlerFun\<close> before the message is recycled.\<close>

definition msgHandlerFun :: "Msg \<Rightarrow> int \<times> ptr" where
  "msgHandlerFun msg = (mWhat msg, getParam msg)"

definition app_loop :: "app \<Rightarrow> app res" where
  "app_loop s =
     bnd (case pc (sy s) of
            CHave p \<Rightarrow> bnd (ld p (que (sy s))) (\<lambda>m. Inr (shown s @ [msgHandlerFun m]))
          | _ \<Rightarrow> Inr (shown s)) (\<lambda>out.
     bnd (consumer_step (sy s)) (\<lambda>t. Inr (s\<lparr>sy := t, shown := out\<rparr>)))"

inductive app_step :: "app_args \<Rightarrow> app \<Rightarrow> app res \<Rightarrow> bool" for A where
  sender: "app_step A s (app_client A s)"
| loop: "app_step A s (app_loop s)"
| tick: "clock (sy s) \<le> d \<Longrightarrow> app_step A s (Inr (s\<lparr>sy := (sy s)\<lparr>clock := d\<rparr>\<rparr>))"

text \<open>The clock is past its first millisecond: at time 0 a message would go to the front.\<close>

definition app_start :: "app \<Rightarrow> bool" where
  "app_start s \<longleftrightarrow> (\<exists>name n now. 0 \<le> n \<and> 0 < now \<and>
     s = \<lparr>sy = sys_init name n now, sent = 0, apos = ANext, shown = []\<rparr>)"

subsection \<open>What the messages carry\<close>

definition item :: "app_args \<Rightarrow> nat \<Rightarrow> int \<times> ptr \<times> 64 word \<times> ptr" where
  "item A i = (int i, a_param A i, a_bytes A i, a_free A)"

definition content :: "Msg \<Rightarrow> int \<times> ptr \<times> 64 word \<times> ptr" where
  "content m = (mWhat m, mParam m, mParamBytes m, mParamFreeFunc m)"

definition con :: "mqueue \<Rightarrow> ptr \<Rightarrow> (int \<times> ptr \<times> 64 word \<times> ptr) option" where
  "con q a = map_option content (msg_at q a)"

definition freed_item :: "app_args \<Rightarrow> nat \<Rightarrow> ptr \<times> ptr \<times> 64 word" where
  "freed_item A i = (a_free A, a_param A i, a_bytes A i)"

lemma content_strip [simp]: "content (strip m) = content m"
  by (simp add: content_def)

lemma con_cell: "cells q a = Some m \<Longrightarrow> con q a = Some (content m)"
  by (simp add: con_def msg_at_def)

lemma recycle_calls_item:
  "content m = item A i \<Longrightarrow> a_free A \<noteq> 0 \<Longrightarrow> recycle_calls m = [freed_item A i]"
  by (auto simp: content_def item_def recycle_calls_def freed_item_def)

lemma recycle_calls_items:
  assumes "map (con q) xs = map (\<lambda>i. Some (item A i)) is" and "a_free A \<noteq> 0"
  shows "concat (map (\<lambda>a. recycle_calls (the (msg_at q a))) xs) = map (freed_item A) is"
  using assms(1)
proof (induction xs arbitrary: "is")
  case (Cons x xs)
  then obtain i js where i: "is = i # js" "con q x = Some (item A i)" "map (con q) xs = map (\<lambda>i. Some (item A i)) js"
    by (cases "is") auto
  then obtain m where "msg_at q x = Some m" "content m = item A i" by (auto simp: con_def)
  then show ?case using Cons.IH [OF i(3)] i(1) recycle_calls_item [OF _ assms(2)] by simp
qed simp

text \<open>The messages on their way: the one in the hands of the loop, then those that wait.\<close>

definition in_hand :: "cpc \<Rightarrow> ptr list" where
  "in_hand c = (case c of CHave p \<Rightarrow> [p] | _ \<Rightarrow> [])"

definition line :: "sys \<Rightarrow> ptr list" where
  "line t = in_hand (pc t) @ waiting (que t)"

text \<open>
  The invariant. \<open>k\<close> messages were sent and not deleted by an immediate quit; the line holds those
  after the ones shown, in order; every parameter of a sent message is in the line or was freed.
\<close>

definition app_data :: "app_args \<Rightarrow> nat \<Rightarrow> sys \<Rightarrow> nat \<Rightarrow> (int \<times> ptr) list \<Rightarrow> bool" where
  "app_data A k t n out \<longleftrightarrow>
     length out \<le> k \<and> k \<le> n \<and> (\<not> mQuit (que t) \<longrightarrow> k = n) \<and>
     out = map (\<lambda>i. (int i, a_param A i)) [0..<length out] \<and>
     map (con (que t)) (line t) = map (\<lambda>i. Some (item A i)) [length out..<k] \<and>
     mset (calls (que t)) + mset (map (freed_item A) [length out..<k]) = mset (map (freed_item A) [0..<n])"

definition app_time :: "sys \<Rightarrow> bool" where
  "app_time t \<longleftrightarrow> 0 < clock t \<and> mOutTimeTest (que t) \<le> 0 \<and> (\<forall>a\<in>set (waiting (que t)). qwhen (que t) a \<le> clock t)"

definition app_open :: "sys \<Rightarrow> bool" where
  "app_open t \<longleftrightarrow> \<not> mQuit (que t) \<and> \<not> mNotEnqueMsg (que t) \<and> \<not> mExit t \<and> pc t \<noteq> CExit"

definition app_closed :: "app_args \<Rightarrow> sys \<Rightarrow> bool" where
  "app_closed A t \<longleftrightarrow> (if a_safe A then mNotEnqueMsg (que t) \<and> \<not> mQuit (que t) else mQuit (que t))"

definition app_flow :: "app_args \<Rightarrow> sys \<Rightarrow> nat \<Rightarrow> apos \<Rightarrow> bool" where
  "app_flow A t n c \<longleftrightarrow>
     (case c of
        ANext \<Rightarrow> n \<le> a_n A \<and> app_open t
      | AHave p \<Rightarrow> n < a_n A \<and> app_open t \<and> p \<in> held t \<and>
          (\<exists>m. msg_at (que t) p = Some m \<and> content m = item A n \<and> \<not> isInUse m)
      | AQuit \<Rightarrow> n = a_n A \<and> app_open t
      | AFlags \<Rightarrow> n = a_n A \<and> app_closed A t \<and> \<not> mExit t
      | ADone \<Rightarrow> n = a_n A \<and> app_closed A t)"

definition app_inv :: "app_args \<Rightarrow> app \<Rightarrow> bool" where
  "app_inv A s \<longleftrightarrow>
     reachable (sy s) \<and> app_time (sy s) \<and> app_flow A (sy s) (sent s) (apos s) \<and>
     (pc (sy s) = CExit \<longrightarrow> waiting (que (sy s)) = []) \<and>
     (\<exists>k. app_data A k (sy s) (sent s) (shown s))"

subsection \<open>The loop thread keeps the invariant\<close>

text \<open>What a step of the loop leaves alone.\<close>

definition quiet :: "sys \<Rightarrow> sys \<Rightarrow> bool" where
  "quiet t t' \<longleftrightarrow> mQuit (que t') = mQuit (que t) \<and> mNotEnqueMsg (que t') = mNotEnqueMsg (que t) \<and>
     mExit t' = mExit t \<and> held t' = held t \<and> (\<exists>cs. calls (que t') = calls (que t) @ cs) \<and> (\<forall>p\<in>held t. msg_at (que t') p = msg_at (que t) p)"

lemma quiet_flow:
  assumes "quiet t t'" and "app_flow A t n c" and "pc t' = CExit \<Longrightarrow> \<not> app_open t"
  shows "app_flow A t' n c"
  using assms by (cases c) (auto simp: app_flow_def quiet_def app_open_def app_closed_def)

lemma next_scan_calls: "next_scan now t q = Inr (out, q') \<Longrightarrow> calls q' = calls q"
  by (auto simp: next_scan_def take_next_def bnd_eq_Inr_iff Let_def put_def split: if_splits)

lemma in_hand_idle: "live_at c = {} \<Longrightarrow> in_hand c = []"
  by (cases c) (auto simp: live_at_def in_hand_def)

lemma queue_ok_quit_empty: "queue_ok q \<Longrightarrow> mQuit q \<Longrightarrow> waiting q = []"
  by (simp add: queue_ok_def queue_rel_def queue_shape_def)

lemma con_cong: "msg_at q' = msg_at q \<Longrightarrow> con q' = con q"
  by (simp add: con_def fun_eq_iff)

definition scan_ok :: "app_args \<Rightarrow> nat \<Rightarrow> sys \<Rightarrow> nat \<Rightarrow> (int \<times> ptr) list \<Rightarrow> sys res \<Rightarrow> bool" where
  "scan_ok A k t n out r \<longleftrightarrow>
     (\<exists>t'. r = Inr t' \<and> quiet t t' \<and> app_time t' \<and> app_data A k t' n out \<and>
        (pc t' = CExit \<longrightarrow> waiting (que t') = [] \<and> \<not> app_open t))"

lemma scan_keeps_empty:
  assumes ok: "queue_ok (que t)" and hand: "in_hand (pc t) = []" and tm: "app_time t"
    and data: "app_data A k t n out" and Nil: "waiting (que t) = []"
  shows "scan_ok A k t n out (after_scan (next_scan (clock t) j (que t)) t)"
proof -
  note cases = next_scan_cases [OF ok, of "clock t" j]
  have p: "pending (que t) = []" using Nil by (simp add: pending_def)
  consider "mQuit (que t) \<or> mNotEnqueMsg (que t)" | "\<not> mQuit (que t)" "\<not> mNotEnqueMsg (que t)" by blast
  then show ?thesis
  proof cases
    case 1
    then have "after_scan (next_scan (clock t) j (que t)) t = Inr (t\<lparr>pc := CExit\<rparr>)"
      using cases p by (simp add: after_scan_def)
    moreover have "\<not> app_open t" using 1 by (auto simp: app_open_def)
    ultimately show ?thesis using tm data Nil hand
      by (simp add: scan_ok_def quiet_def app_time_def app_data_def line_def in_hand_def)
  next
    case 2
    let ?t = "t\<lparr>que := (que t)\<lparr>mBlocked := True\<rparr>, pc := CTop (-1)\<rparr>"
    have "after_scan (next_scan (clock t) j (que t)) t = Inr ?t"
      using cases p 2 tm by (simp add: after_scan_def app_time_def)
    moreover have "con (que ?t) = con (que t)" by (rule con_cong) simp
    moreover have "waiting (que ?t) = waiting (que t)" by (simp add: waiting_def)
    ultimately show ?thesis using tm data Nil hand
      by (simp add: scan_ok_def quiet_def app_time_def app_data_def line_def in_hand_def)
  qed
qed

lemma scan_keeps_first:
  assumes ok: "queue_ok (que t)" and hand: "in_hand (pc t) = []" and tm: "app_time t"
    and data: "app_data A k t n out" and Cons: "waiting (que t) = x # rest"
  shows "scan_ok A k t n out (after_scan (next_scan (clock t) j (que t)) t)"
proof -
  have p: "pending (que t) = (qwhen (que t) x, x) # map (\<lambda>a. (qwhen (que t) a, a)) rest"
    using Cons by (simp add: pending_def)
  have due: "qwhen (que t) x \<le> clock t" using tm Cons by (simp add: app_time_def)
  then obtain q m where q: "next_scan (clock t) j (que t) = Inr (NReturn x, q)"
    "pending q = map (\<lambda>a. (qwhen (que t) a, a)) rest" "owned q x m" "msg_at q = msg_at (que t)"
    "ctl q = ctl (que t)"
    using next_scan_cases [OF ok, of "clock t" j] p by auto
  have "map snd (pending q) = waiting q" by (simp add: pending_def comp_def)
  then have w: "waiting q = rest" using q(2) by (simp add: comp_def)
  have m: "x \<noteq> 0" "cells q x = Some m" using q(3) by (simp_all add: owned_iff)
  let ?t = "t\<lparr>que := q, pc := CHave x, delivered := delivered t @ [(x, mWhen m, clock t)]\<rparr>"
  have "after_scan (next_scan (clock t) j (que t)) t = Inr ?t"
    using q(1) m by (simp add: after_scan_def)
  moreover have "qwhen q a = qwhen (que t) a" for a using q(4) by (simp add: qwhen_def)
  moreover have "line ?t = line t" using Cons w hand by (simp add: line_def in_hand_def)
  ultimately show ?thesis
    using tm data q(4,5) next_scan_calls [OF q(1)] con_cong [OF q(4)] Cons w
    by (simp add: scan_ok_def quiet_def app_time_def app_data_def)
qed

lemma scan_keeps:
  assumes inv: "sys_inv t" and idle: "live_at (pc t) = {}" and tm: "app_time t"
    and data: "app_data A k t n out"
  shows "scan_ok A k t n out (after_scan (next_scan (clock t) j (que t)) t)"
proof -
  have ok: "queue_ok (que t)" using inv by (simp add: sys_inv_def inv_core_def)
  note hand = in_hand_idle [OF idle]
  show ?thesis
    using scan_keeps_empty [OF ok hand tm data] scan_keeps_first [OF ok hand tm data]
    by (cases "waiting (que t)") simp_all
qed

text \<open>One step of the loop thread; \<open>out'\<close> is what has been printed after it.\<close>

definition printed :: "sys \<Rightarrow> (int \<times> ptr) list \<Rightarrow> (int \<times> ptr) list res" where
  "printed t out =
     (case pc t of CHave p \<Rightarrow> bnd (ld p (que t)) (\<lambda>m. Inr (out @ [msgHandlerFun m])) | _ \<Rightarrow> Inr out)"

definition loop_kept :: "app_args \<Rightarrow> nat \<Rightarrow> sys \<Rightarrow> nat \<Rightarrow> (int \<times> ptr) list \<Rightarrow> bool" where
  "loop_kept A k t n out \<longleftrightarrow>
     (\<exists>t' out'. printed t out = Inr out' \<and> consumer_step t = Inr t' \<and> quiet t t' \<and> app_time t' \<and>
        app_data A k t' n out' \<and> (pc t' = CExit \<longrightarrow> waiting (que t') = [] \<and> \<not> app_open t))"

lemma loop_keptI:
  assumes "printed t out = Inr out'" and "consumer_step t = Inr t'" and "quiet t t'" and "app_time t'"
    and "app_data A k t' n out'" and "pc t' = CExit \<Longrightarrow> waiting (que t') = [] \<and> \<not> app_open t"
  shows "loop_kept A k t n out"
  unfolding loop_kept_def using assms by blast

lemma scan_kept:
  assumes "sys_inv t" and "live_at (pc t) = {}" and "app_time t" and "app_data A k t n out"
    and "consumer_step t = after_scan (next_scan (clock t) j (que t)) t"
  shows "loop_kept A k t n out"
proof -
  have "printed t out = Inr out" using assms(2) by (cases "pc t") (auto simp: printed_def live_at_def)
  then show ?thesis using scan_keeps [OF assms(1-4), of j] assms(5) unfolding loop_kept_def scan_ok_def by auto
qed

text \<open>A step that only moves the loop thread.\<close>

lemma move_kept:
  assumes "live_at (pc t) = {}" and "live_at c = {}" and "app_time t" and "app_data A k t n out"
    and "consumer_step t = Inr (t\<lparr>mPromoteThrLevel := b, pc := c\<rparr>)"
    and "c = CExit \<Longrightarrow> waiting (que t) = [] \<and> \<not> app_open t"
  shows "loop_kept A k t n out"
proof (rule loop_keptI [OF _ assms(5)])
  show "printed t out = Inr out" using assms(1) by (cases "pc t") (auto simp: printed_def live_at_def)
  show "app_data A k (t\<lparr>mPromoteThrLevel := b, pc := c\<rparr>) n out"
    using assms(4) in_hand_idle [OF assms(1)] in_hand_idle [OF assms(2)]
    by (simp add: app_data_def line_def)
qed (use assms(3,6) in \<open>simp_all add: quiet_def app_time_def\<close>)

lemma move_kept_pc:
  assumes "live_at (pc t) = {}" and "live_at c = {}" and "app_time t" and "app_data A k t n out"
    and "consumer_step t = Inr (t\<lparr>pc := c\<rparr>)"
    and "c = CExit \<Longrightarrow> waiting (que t) = [] \<and> \<not> app_open t"
  shows "loop_kept A k t n out"
  using move_kept [OF assms(1-4), of "mPromoteThrLevel t"] assms(5,6) by simp

text \<open>The message in the hands of the loop is recycled after its dispatch.\<close>

lemma recycle_dispatched:
  assumes inv: "sys_inv t" and c: "pc t = CHave p"
  shows "\<exists>m q. p \<noteq> 0 \<and> cells (que t) p = Some m \<and> mTarget m \<noteq> 0 \<and> p \<notin> held t \<and> p \<notin> set (waiting (que t)) \<and>
    recycleMsg p (que t) = Inr q \<and> waiting q = waiting (que t) \<and> (\<forall>a. a \<noteq> p \<longrightarrow> msg_at q a = msg_at (que t) a) \<and>
    calls q = calls (que t) @ recycle_calls m \<and> ctl q = ctl (que t)"
proof -
  obtain m where m: "owned (que t) p m" "mTarget m \<noteq> 0" "p \<notin> held t"
    using inv c by (auto simp: sys_inv_def pc_inv_def)
  have ok: "queue_ok (que t)" using inv by (simp add: sys_inv_def inv_core_def)
  obtain q where q: "recycleMsg p (que t) = Inr q"
    "queue_shape q (waiting (que t)) (if pools (que t) then p # pooled (que t) else pooled (que t))"
    "msg_at q = (msg_at (que t))(p := if pools (que t) then Some (recycled (strip m)) else None)"
    "calls q = calls (que t) @ recycle_calls m" "ctl q = ctl (que t)" "mMsgQueueSize q = mMsgQueueSize (que t)"
    using recycleMsg_ok [OF queue_rel_shape [OF queue_ok_rel [OF ok]] m(1) [unfolded owned_def]] by blast
  have "queue_rel q (waiting (que t)) (if pools (que t) then p # pooled (que t) else pooled (que t))"
    using q queue_ok_rel [OF ok] by (auto simp: queue_rel_def)
  then have "waiting q = waiting (que t)" by (rule queue_rel_lists)
  with q m show ?thesis by (intro exI [of _ m] exI [of _ q]) (auto simp: owned_iff in_lists_def)
qed

lemma have_kept:
  assumes inv: "sys_inv t" and c: "pc t = CHave p" and tm: "app_time t" and data: "app_data A k t n out"
    and free: "a_free A \<noteq> 0"
  shows "loop_kept A k t n out"
proof -
  let ?l = "length out"
  obtain m q where m: "p \<noteq> 0" "cells (que t) p = Some m" "mTarget m \<noteq> 0" "p \<notin> held t" "p \<notin> set (waiting (que t))"
    and q: "recycleMsg p (que t) = Inr q" "calls q = calls (que t) @ recycle_calls m" "ctl q = ctl (que t)"
    and w: "waiting q = waiting (que t)" and same: "\<forall>a. a \<noteq> p \<longrightarrow> msg_at q a = msg_at (que t) a"
    using recycle_dispatched [OF inv c] by blast
  have line: "map (con (que t)) (p # waiting (que t)) = map (\<lambda>i. Some (item A i)) [?l..<k]"
    using data c by (simp add: app_data_def line_def in_hand_def)
  then have lt: "?l < k" by (cases "?l < k") simp_all
  then have up: "[?l..<k] = ?l # [Suc ?l..<k]" by (rule upt_conv_Cons)
  have hd: "content m = item A ?l" and rest: "map (con (que t)) (waiting (que t)) = map (\<lambda>i. Some (item A i)) [Suc ?l..<k]"
    using line con_cell [OF m(2)] by (simp_all add: up)
  let ?t = "t\<lparr>que := q, pc := CLoop\<rparr>"
  have con: "map (con q) (waiting q) = map (con (que t)) (waiting (que t))"
    unfolding w by (intro map_cong refl) (metis same m(5) con_def)
  have fr: "calls q = calls (que t) @ [freed_item A ?l]" using q(2) recycle_calls_item [OF hd free] by simp
  have "app_data A k ?t n (out @ [(int ?l, a_param A ?l)])"
    using data lt con rest fr q(3) up
    by (simp add: app_data_def line_def in_hand_def del: upt_Suc mset_map) (simp add: add_ac)
  moreover have "msgHandlerFun m = (int ?l, a_param A ?l)"
    using hd by (simp add: content_def item_def msgHandlerFun_def getParam_def)
  moreover have "\<forall>r\<in>held t. msg_at q r = msg_at (que t) r" using m(4) same by metis
  then have "quiet t ?t" using q(2,3) by (simp add: quiet_def)
  moreover have "\<forall>a\<in>set (waiting (que t)). qwhen q a = qwhen (que t) a" by (metis same m(5) qwhen_cong)
  then have "app_time ?t" using tm q(3) by (simp add: app_time_def w)
  ultimately show ?thesis using c m(1-3) q(1)
    by (intro loop_keptI [of t out "out @ [(int ?l, a_param A ?l)]" ?t])
      (simp_all add: printed_def ld_def consumer_step_def)
qed

lemma loop_top_kept:
  assumes ok: "queue_ok (que t)" and tm: "app_time t" and data: "app_data A k t n out" and CLoop: "pc t = CLoop"
    and exit: "mExit t \<Longrightarrow> mQuit (que t) \<or> mNotEnqueMsg (que t)"
  shows "loop_kept A k t n out"
proof -
  note moves = move_kept_pc [OF _ _ tm data]
  have lv: "live_at (pc t) = {}" by (simp add: CLoop live_at_def)
  have lv': "live_at CExit = {}" "live_at (CTop (-1)) = {}" by (simp_all add: live_at_def)
  show ?thesis
  proof (cases "mExit t \<and> getQueueSize (que t) = 0")
    case True
    then have "waiting (que t) = []"
      using ok queue_ok_quit_empty [OF ok]
      by (cases "mQuit (que t)") (simp_all add: getQueueSize_def queue_ok_def queue_rel_def)
    moreover have "consumer_step t = Inr (t\<lparr>pc := CExit\<rparr>)" using True CLoop by (simp add: consumer_step_def)
    moreover have "\<not> app_open t" using True by (simp add: app_open_def)
    ultimately show ?thesis using moves [OF lv lv'(1)] by blast
  next
    case False
    then have "consumer_step t = Inr (t\<lparr>mPromoteThrLevel := mPromoteThrLevel t \<and> \<not> mExit t, pc := CTop (-1)\<rparr>)"
      using CLoop by (simp only: consumer_step_def cpc.case if_False)
    then show ?thesis using move_kept [OF lv lv'(2) tm data] by blast
  qed
qed

lemma next_top_kept:
  assumes inv: "sys_inv t" and tm: "app_time t" and data: "app_data A k t n out" and CTop: "pc t = CTop j"
  shows "loop_kept A k t n out"
proof -
  have ok: "queue_ok (que t)" using inv by (simp add: sys_inv_def inv_core_def)
  have timed: "next_timed now j (que t) = next_scan now j (que t)" for now j
    using tm by (simp add: next_timed_def app_time_def)
  note moves = move_kept_pc [OF _ _ tm data]
  have lv: "live_at (pc t) = {}" by (simp add: CTop live_at_def)
  show ?thesis
  proof (cases "next_begin j (que t)")
    case NQuit
    then have "mQuit (que t)" by (simp add: next_begin_def Let_def split: if_splits)
    then show ?thesis using NQuit CTop moves [OF lv, of CExit] queue_ok_quit_empty [OF ok]
      by (simp add: consumer_step_def live_at_def app_open_def)
  next
    case NWait
    then show ?thesis using CTop moves [OF lv, of "CWait (mWait (que t))"]
      by (simp add: consumer_step_def live_at_def)
  next
    case (NPass i)
    then show ?thesis using CTop scan_kept [OF inv lv tm data] by (simp add: consumer_step_def)
  next
    case (NTimed i)
    then show ?thesis
      using CTop scan_kept [OF inv lv tm data] moves [OF lv, of "CTimed i (mWait (que t))"] timed
      by (cases "i = 0") (simp_all add: consumer_step_def live_at_def)
  qed
qed

lemma loop_keeps:
  assumes inv: "sys_inv t" and tm: "app_time t" and data: "app_data A k t n out" and free: "a_free A \<noteq> 0"
    and exit: "mExit t \<Longrightarrow> mQuit (que t) \<or> mNotEnqueMsg (que t)" "pc t = CExit \<Longrightarrow> waiting (que t) = []"
  shows "loop_kept A k t n out"
proof -
  have ok: "queue_ok (que t)" using inv by (simp add: sys_inv_def inv_core_def)
  have timed: "next_timed now j (que t) = next_scan now j (que t)" for now j
    using tm by (simp add: next_timed_def app_time_def)
  note moves = move_kept_pc [OF _ _ tm data]
  show ?thesis
  proof (cases "pc t")
    case CLoop
    then show ?thesis using loop_top_kept [OF ok tm data] exit(1) by blast
  next
    case (CTop j)
    then show ?thesis by (rule next_top_kept [OF inv tm data])
  next
    case (CWait e)
    have lv: "live_at (pc t) = {}" by (simp add: CWait live_at_def)
    then show ?thesis
      using CWait moves [OF lv, of "CWait (mWait (que t))"] scan_kept [OF inv lv tm data]
      by (cases "mBlocked (que t)") (simp_all add: consumer_step_def live_at_def)
  next
    case (CTimed i e)
    have lv: "live_at (pc t) = {}" by (simp add: CTimed live_at_def)
    then show ?thesis using CTimed scan_kept [OF inv lv tm data] timed by (simp add: consumer_step_def)
  next
    case (CHave p)
    then show ?thesis using have_kept [OF inv _ tm data free] by blast
  next
    case CExit
    then show ?thesis using tm data exit(2)
      by (intro loop_keptI [of t out out t]) (simp_all add: printed_def consumer_step_def quiet_def app_open_def)
  qed
qed

lemma app_loop_inv:
  assumes inv: "app_inv A s" and free: "a_free A \<noteq> 0"
  shows "\<exists>s'. app_loop s = Inr s' \<and> app_inv A s'"
proof -
  let ?t = "sy s"
  obtain k where k: "app_data A k ?t (sent s) (shown s)" using inv by (auto simp: app_inv_def)
  have r: "reachable ?t" and tm: "app_time ?t" and fl: "app_flow A ?t (sent s) (apos s)"
    and ex: "pc ?t = CExit \<Longrightarrow> waiting (que ?t) = []"
    using inv by (auto simp: app_inv_def)
  have "mQuit (que ?t) \<or> mNotEnqueMsg (que ?t)" if "mExit ?t"
    using fl that by (cases "apos s") (auto simp: app_flow_def app_open_def app_closed_def split: if_splits)
  from loop_keeps [OF reachable_inv [OF r] tm k free this ex] obtain t out where t: "printed ?t (shown s) = Inr out"
    "consumer_step ?t = Inr t" "quiet ?t t" "app_time t" "app_data A k t (sent s) out"
    "pc t = CExit \<longrightarrow> waiting (que t) = [] \<and> \<not> app_open ?t"
    unfolding loop_kept_def by blast
  have "app_flow A t (sent s) (apos s)" using quiet_flow [OF t(3) fl] t(6) by blast
  then have "app_inv A (s\<lparr>sy := t, shown := out\<rparr>)"
    using reachable_consumer [OF r t(2)] t by (auto simp: app_inv_def)
  moreover have "app_loop s = Inr (s\<lparr>sy := t, shown := out\<rparr>)"
    using t(1,2) by (simp add: app_loop_def printed_def)
  ultimately show ?thesis by blast
qed

subsection \<open>The sender keeps the invariant\<close>


lemma obtain_or_new_rest:
  assumes ok: "queue_ok (q :: mqueue)" and o: "obtain_or_new q = Inr (p, q')"
  shows "calls q' = calls q \<and> mOutTimeTest q' = mOutTimeTest q \<and> (\<forall>a. a \<noteq> p \<longrightarrow> msg_at q' a = msg_at q a)"
proof (cases "pool_ready q")
  case True
  obtain r ps' w m where w: "obtain_pool q = Inr (r, w)" "loose w (waiting q) ps' r m" "msg_at w = msg_at q"
    "calls w = calls q" "ctl w = ctl q"
    using obtain_pool_some [OF queue_ok_rel [OF ok] True] by blast
  then have "p = r" "q' = w" using o by (auto simp: obtain_or_new_def loose_def)
  then show ?thesis using w by simp
next
  case False
  then have e: "new_Msg q = (p, q')" using o obtain_pool_none [of q] by (simp add: obtain_or_new_def)
  then have "msg_at q' = (msg_at q)(brk q := Some (strip Msg_new))" "p = brk q"
    using new_Msg_ok(3) [OF queue_ok_rel [OF ok]] by (auto simp: new_Msg_def)
  then show ?thesis using e by (auto simp: new_Msg_def)
qed

lemma obtain_or_new_reachable:
  assumes r: "reachable t" and o: "obtain_or_new (que t) = Inr (p, q)" and p: "p \<noteq> 0"
  shows "reachable (t\<lparr>que := q, held := insert p (held t)\<rparr>)"
proof -
  have ok: "queue_ok (que t)" using reachable_inv [OF r] by (simp add: sys_inv_def inv_core_def)
  consider "obtain_pool (que t) = Inr (0, que t)" | "obtain_pool (que t) = Inr (p, q)"
    using obtain_pool_produces [OF ok] o by (auto simp: obtain_or_new_def)
  then show ?thesis
  proof cases
    case 1
    then have "client_op OpNew t = Inr (t\<lparr>que := q, held := insert p (held t)\<rparr>)"
      using o by (simp add: client_op_def obtain_or_new_def)
    then show ?thesis using reachable_client [OF r, of OpNew] by (simp add: allowed_def)
  next
    case 2
    then have "client_op OpObtain t = Inr (t\<lparr>que := q, held := insert p (held t)\<rparr>)"
      using p by (simp add: client_op_def)
    then show ?thesis using reachable_client [OF r, of OpObtain] by (simp add: allowed_def)
  qed
qed

lemma reachable_write:
  assumes "reachable t" and "p \<in> held t" and "mNext m = 0"
  shows "reachable (t\<lparr>que := put p m (que t)\<rparr>)"
  using reachable_client [OF assms(1), of "OpWrite p m"] assms(2,3) by (simp add: allowed_def client_op_def)

text \<open>What the sender does to a message of its own is not seen by the rest.\<close>

lemma data_elsewhere:
  assumes "app_data A k t n out" and "line t' = line t" and "\<forall>a. a \<noteq> p \<longrightarrow> msg_at (que t') a = msg_at (que t) a"
    and "p \<notin> set (line t)" and "calls (que t') = calls (que t)" and "mQuit (que t') = mQuit (que t)"
  shows "app_data A k t' n out"
proof -
  have con: "map (con (que t')) (line t) = map (con (que t)) (line t)"
    using assms(3,4) by (intro map_cong refl) (metis con_def)
  show ?thesis using assms(1) unfolding app_data_def assms(2,5,6) con .
qed

lemma time_elsewhere:
  assumes "app_time t" and "waiting (que t') = waiting (que t)"
    and "\<forall>a. a \<noteq> p \<longrightarrow> msg_at (que t') a = msg_at (que t) a" and "p \<notin> set (waiting (que t))"
    and "mOutTimeTest (que t') = mOutTimeTest (que t)" and "clock t' = clock t"
  shows "app_time t'"
proof -
  have "\<forall>a\<in>set (waiting (que t)). qwhen (que t') a = qwhen (que t) a"
    using assms(3,4) by (metis qwhen_cong)
  then show ?thesis using assms by (simp add: app_time_def)
qed

lemma held_not_in_line:
  assumes "reachable t" and "p \<in> held t"
  shows "p \<notin> set (line t)" "\<exists>m. owned (que t) p m"
proof -
  have inv: "inv_core (que t) (held t \<union> live_at (pc t))" "pc_inv t"
    using reachable_inv [OF assms(1)] by (simp_all add: sys_inv_def)
  then show "\<exists>m. owned (que t) p m" using assms(2) by (simp add: inv_core_def)
  then have "p \<notin> set (waiting (que t))" by (auto simp: owned_iff in_lists_def)
  moreover have "p \<notin> set (in_hand (pc t))"
    using inv(2) assms(2) by (cases "pc t") (auto simp: pc_inv_def in_hand_def)
  ultimately show "p \<notin> set (line t)" by (simp add: line_def)
qed

lemma app_obtain_inv:
  assumes inv: "app_inv A s" and c: "apos s = ANext" and n: "sent s \<noteq> a_n A"
  shows "\<exists>s'. app_obtain A s = Inr s' \<and> app_inv A s'"
proof -
  let ?t = "sy s"
  let ?f = "\<lambda>m. setParam (a_param A (sent s)) (a_bytes A (sent s)) (a_free A) (m\<lparr>mWhat := int (sent s)\<rparr>)"
  obtain k where k: "app_data A k ?t (sent s) (shown s)" using inv by (auto simp: app_inv_def)
  have r: "reachable ?t" and tm: "app_time ?t" and fl: "sent s < a_n A" "app_open ?t"
    using inv c n by (auto simp: app_inv_def app_flow_def)
  have ok: "queue_ok (que ?t)" using reachable_inv [OF r] by (simp add: sys_inv_def inv_core_def)
  obtain p q m where q: "obtain_or_new (que ?t) = Inr (p, q)" "queue_ok q" "waiting q = waiting (que ?t)"
    "owned q p m" "m = Msg_new\<lparr>mParam := mParam m\<rparr>" "mQuit q = mQuit (que ?t)"
    "mNotEnqueMsg q = mNotEnqueMsg (que ?t)"
    using obtain_or_new_owned [OF ok] by blast
  note rest = obtain_or_new_rest [OF ok q(1)]
  have p: "p \<noteq> 0" "cells q p = Some m" "mNext (?f m) = 0" using q(4) by (simp_all add: owned_iff setParam_def)
  let ?u = "?t\<lparr>que := q, held := insert p (held ?t)\<rparr>"
  let ?t' = "?t\<lparr>que := put p (?f m) q, held := insert p (held ?t)\<rparr>"
  have ru: "reachable ?u" using obtain_or_new_reachable [OF r q(1) p(1)] .
  have u: "?u\<lparr>que := put p (?f m) (que ?u)\<rparr> = ?t'" by (cases ?t) simp
  have "p \<in> held ?u" by simp
  from reachable_write [OF ru this p(3)] have r': "reachable ?t'" unfolding u .
  have out: "p \<notin> set (line ?t)"
    using held_not_in_line(1) [OF ru, of p] q(3) by (simp add: line_def)
  note put = queue_rel_put [OF queue_ok_rel [OF q(2)] q(4) [unfolded owned_def] p(3)]
  have w: "waiting (put p (?f m) q) = waiting (que ?t)" using queue_rel_lists(1) [OF put(1)] q(3) by simp
  have other: "\<forall>a. a \<noteq> p \<longrightarrow> msg_at (que ?t') a = msg_at (que ?t) a"
    using rest by (simp add: msg_at_def put_def)
  have "line ?t' = line ?t" using w by (simp add: line_def)
  from data_elsewhere [OF k this other out] have "app_data A k ?t' (sent s) (shown s)"
    using rest q(6) by (simp add: put_def)
  moreover have "app_time ?t'"
    using time_elsewhere [OF tm _ other] w out rest by (simp add: line_def put_def)
  moreover have "\<not> isInUse (?f m)" by (subst q(5)) (simp add: isInUse_def setParam_def Msg_new_def FLAGINUSE_def)
  then have "\<exists>x. msg_at (que ?t') p = Some x \<and> content x = item A (sent s) \<and> \<not> isInUse x"
    by (intro exI [of _ "strip (?f m)"])
      (simp add: msg_at_def put_def item_def content_def setParam_def isInUse_def)
  then have "app_flow A ?t' (sent s) (AHave p)" using fl q(6,7) by (simp add: app_flow_def app_open_def)
  moreover have "app_obtain A s = Inr (s\<lparr>sy := ?t', apos := AHave p\<rparr>)"
    using q(1) p by (simp add: app_obtain_def upd_def ld_def)
  ultimately show ?thesis using r' fl(2) by (auto simp: app_inv_def app_open_def)
qed

text \<open>What \<open>sendMessage\<close> does to the queue: all the waiting messages are due, so the message goes last.\<close>

lemma send_appends:
  assumes r: "reachable t" and p: "p \<in> held t" and x: "msg_at (que t) p = Some x" "\<not> isInUse x"
    and h: "h \<noteq> 0" and op: "app_open t" and tm: "app_time t"
  shows "\<exists>q. bnd (upd p (\<lambda>m. m\<lparr>mTarget := h\<rparr>) (que t)) (enqueueMessage p (clock t)) = Inr (True, q) \<and>
    waiting q = waiting (que t) @ [p] \<and> (\<forall>a. a \<noteq> p \<longrightarrow> msg_at q a = msg_at (que t) a) \<and>
    msg_at q p = Some (strip ((makeInUse (x\<lparr>mTarget := h\<rparr>))\<lparr>mWhen := clock t\<rparr>)) \<and> calls q = calls (que t) \<and>
    \<not> mQuit q \<and> \<not> mNotEnqueMsg q \<and> mOutTimeTest q = mOutTimeTest (que t) \<and>
    reachable (t\<lparr>que := q, held := held t - {p}\<rparr>)"
proof -
  obtain m where m: "owned (que t) p m" using held_not_in_line(2) [OF r p] by blast
  have out: "p \<notin> set (line t)" using held_not_in_line(1) [OF r p] .
  let ?m = "m\<lparr>mTarget := h\<rparr>"
  have c: "p \<noteq> 0" "cells (que t) p = Some m" "mNext ?m = 0" using m by (simp_all add: owned_iff)
  have xm: "x = strip m" using x(1) c(2) by (simp add: msg_at_def)
  have ok: "queue_ok (que t)" using reachable_inv [OF r] by (simp add: sys_inv_def inv_core_def)
  let ?q = "put p ?m (que t)"
  note put = queue_rel_put [OF queue_ok_rel [OF ok] m [unfolded owned_def] c(3)]
  note w = queue_rel_lists [OF put(1)]
  have "queue_ok ?q" "owned ?q p ?m" using put w by (simp_all add: queue_ok_def owned_def)
  moreover have "mTarget ?m \<noteq> 0" "\<not> isInUse ?m" using h x(2) by (simp_all add: xm isInUse_def)
  moreover have "\<not> mQuit ?q" "\<not> mNotEnqueMsg ?q" using op by (simp_all add: app_open_def put_def)
  ultimately obtain q where q: "enqueueMessage p (clock t) ?q = Inr (True, q)"
    "waiting q = ins_msg (qwhen ?q) (clock t) p (waiting ?q)"
    "msg_at q = (msg_at ?q)(p := Some (strip ((makeInUse ?m)\<lparr>mWhen := clock t\<rparr>)))" "calls q = calls ?q"
    "\<not> mQuit q" "\<not> mNotEnqueMsg q" "mOutTimeTest q = mOutTimeTest ?q"
    using enqueueMessage_accepted [of ?q p ?m "clock t"] by blast
  have "\<forall>a\<in>set (waiting (que t)). qwhen ?q a \<le> clock t"
    using tm out by (auto simp: app_time_def qwhen_def msg_at_def put_def line_def)
  moreover have "waiting ?q = waiting (que t)" using w(1) by simp
  moreover have "clock t \<noteq> 0" using tm by (simp add: app_time_def word_gt_0)
  ultimately have "waiting q = waiting (que t) @ [p]"
    using q(2) by (simp add: ins_msg_def takeWhile_eq_all_conv dropWhile_eq_Nil_conv [THEN iffD2])
  moreover have "\<forall>a. a \<noteq> p \<longrightarrow> msg_at q a = msg_at (que t) a" by (simp add: q(3) msg_at_def put_def)
  moreover have "reachable (t\<lparr>que := ?q\<rparr>)" using reachable_write [OF r p c(3)] .
  then have "reachable (t\<lparr>que := q, held := held t - {p}\<rparr>)"
    using reachable_client [of "t\<lparr>que := ?q\<rparr>" "OpEnqueue p (clock t)"] p q(1)
    by (simp add: client_op_def allowed_def)
  moreover have "strip ((makeInUse ?m)\<lparr>mWhen := clock t\<rparr>) =
      strip ((makeInUse (x\<lparr>mTarget := h\<rparr>))\<lparr>mWhen := clock t\<rparr>)"
    by (simp add: xm strip_def makeInUse_def)
  moreover have "bnd (upd p (\<lambda>m. m\<lparr>mTarget := h\<rparr>) (que t)) (enqueueMessage p (clock t)) = Inr (True, q)"
    using q(1) c by (simp add: upd_def ld_def)
  ultimately show ?thesis using q by (intro exI [of _ q]) (simp add: put_def)
qed

lemma app_send_inv:
  assumes inv: "app_inv A s" and c: "apos s = AHave p" and h: "a_handler A \<noteq> 0"
  shows "\<exists>s'. app_send A p s = Inr s' \<and> app_inv A s'"
proof -
  let ?t = "sy s"
  obtain k where k: "app_data A k ?t (sent s) (shown s)" using inv by (auto simp: app_inv_def)
  have r: "reachable ?t" and tm: "app_time ?t" and fl: "sent s < a_n A" "app_open ?t" "p \<in> held ?t"
    using inv c by (auto simp: app_inv_def app_flow_def)
  obtain x where x: "msg_at (que ?t) p = Some x" "content x = item A (sent s)" "\<not> isInUse x"
    using inv c by (auto simp: app_inv_def app_flow_def)
  obtain q where q: "bnd (upd p (\<lambda>m. m\<lparr>mTarget := a_handler A\<rparr>) (que ?t)) (enqueueMessage p (clock ?t)) = Inr (True, q)"
    and wait: "waiting q = waiting (que ?t) @ [p]" and other: "\<forall>a. a \<noteq> p \<longrightarrow> msg_at q a = msg_at (que ?t) a"
    and at: "msg_at q p = Some (strip ((makeInUse (x\<lparr>mTarget := a_handler A\<rparr>))\<lparr>mWhen := clock ?t\<rparr>))"
    and ctl: "calls q = calls (que ?t)" "\<not> mQuit q" "\<not> mNotEnqueMsg q" "mOutTimeTest q = mOutTimeTest (que ?t)"
    and re: "reachable (?t\<lparr>que := q, held := held ?t - {p}\<rparr>)"
    using send_appends [OF r fl(3) x(1,3) h fl(2) tm] by blast
  let ?t' = "?t\<lparr>que := q, held := held ?t - {p}\<rparr>"
  have out: "p \<notin> set (line ?t)" using held_not_in_line(1) [OF r fl(3)] .
  have line: "line ?t' = line ?t @ [p]" using wait by (simp add: line_def)
  have ks: "k = sent s" using k fl(2) by (simp add: app_data_def app_open_def)
  have conp: "con q p = Some (item A (sent s))" using at x(2) by (simp add: con_def content_def makeInUse_def)
  have conl: "map (con q) (line ?t) = map (con (que ?t)) (line ?t)"
    using other out by (intro map_cong refl) (metis con_def)
  have "app_data A (Suc k) ?t' (Suc (sent s)) (shown s)"
    using k ks ctl(1,2) conp conl by (simp add: app_data_def line del: map_eq_conv)
  moreover have "\<forall>a\<in>set (waiting (que ?t)). qwhen q a = qwhen (que ?t) a"
    using other out by (simp add: line_def) (metis qwhen_cong)
  then have "app_time ?t'" using tm ctl(4) at by (simp add: app_time_def wait qwhen_def)
  moreover have "app_flow A ?t' (Suc (sent s)) ANext"
    using fl ctl(2,3) by (simp add: app_flow_def app_open_def)
  moreover have "app_send A p s = Inr (s\<lparr>sy := ?t', sent := Suc (sent s), apos := ANext\<rparr>)"
    using q by (auto simp: app_send_def bnd_eq_Inr_iff)
  ultimately show ?thesis using fl(2) re by (auto simp: app_inv_def app_open_def)
qed

lemma quit_outtime:
  assumes ok: "queue_ok q" and q: "quit b q = Inr q'"
  shows "mOutTimeTest q' = mOutTimeTest q"
proof -
  have shape: "queue_shape q (waiting q) (pooled q)" using queue_rel_shape [OF queue_ok_rel [OF ok]] .
  have ch: "chain (cells q) (mMsgQueueHead q) (waiting q)" "distinct (waiting q)" "length (waiting q) \<le> brk q"
    using shape queue_shape_length [OF shape] by (auto simp: queue_shape_def)
  then have "free_each (brk q) (mMsgQueueHead q) (q\<lparr>mMsgQueueHead := 0\<rparr>) =
      Inr (freed (waiting q) (q\<lparr>mMsgQueueHead := 0\<rparr>))"
    using free_each_chain [of "q\<lparr>mMsgQueueHead := 0\<rparr>" "mMsgQueueHead q" "waiting q" "brk q"] by simp
  then show ?thesis using q by (auto simp: quit_def notifyAll_mWait_def freed_def split: if_splits)
qed

text \<open>The two ways to quit: the waiting messages stay, or their parameters are freed.\<close>

definition quits_to :: "app_args \<Rightarrow> app \<Rightarrow> mqueue \<Rightarrow> bool" where
  "quits_to A s q \<longleftrightarrow> (\<exists>k. app_data A k ((sy s)\<lparr>que := q\<rparr>) (sent s) (shown s)) \<and>
     app_time ((sy s)\<lparr>que := q\<rparr>) \<and> app_closed A ((sy s)\<lparr>que := q\<rparr>)"

lemma quit_safely_data:
  assumes ok: "queue_ok (que (sy s))" and nq: "\<not> mQuit (que (sy s))" and tm: "app_time (sy s)"
    and k: "app_data A (sent s) (sy s) (sent s) (shown s)" and safe: "a_safe A"
  shows "\<exists>q. quit True (que (sy s)) = Inr q \<and> quits_to A s q"
proof -
  let ?t = "sy s"
  obtain q where q: "quit True (que ?t) = Inr q" "queue_rel q (waiting (que ?t)) (pooled (que ?t))"
    "msg_at q = msg_at (que ?t)" "calls q = calls (que ?t)" "mNotEnqueMsg q" "\<not> mQuit q"
    using quit_safely_ok [OF queue_ok_rel [OF ok] nq] by blast
  have w: "waiting q = waiting (que ?t)" using queue_rel_lists(1) [OF q(2)] .
  have ot: "mOutTimeTest q = mOutTimeTest (que ?t)" using q(1) nq by (auto simp: quit_def notifyAll_mWait_def)
  have "qwhen q = qwhen (que ?t)" using q(3) by (simp add: qwhen_def fun_eq_iff)
  then have "app_time (?t\<lparr>que := q\<rparr>)" using tm w ot by (simp add: app_time_def)
  moreover have "app_data A (sent s) (?t\<lparr>que := q\<rparr>) (sent s) (shown s)"
    using k con_cong [OF q(3)] q(4,6) nq w by (simp add: app_data_def line_def)
  ultimately show ?thesis using q(1,5,6) safe by (auto simp: quits_to_def app_closed_def)
qed

lemma quit_now_data:
  assumes r: "reachable (sy s)" and nq: "\<not> mQuit (que (sy s))" and tm: "app_time (sy s)"
    and k: "app_data A (sent s) (sy s) (sent s) (shown s)" and safe: "\<not> a_safe A" and free: "a_free A \<noteq> 0"
  shows "\<exists>q. quit False (que (sy s)) = Inr q \<and> quits_to A s q"
proof -
  let ?t = "sy s" let ?l = "length (shown s)" let ?hand = "in_hand (pc ?t)"
  let ?j = "?l + length ?hand" let ?n = "sent s"
  have ok: "queue_ok (que ?t)" using reachable_inv [OF r] by (simp add: sys_inv_def inv_core_def)
  obtain q where q: "quit False (que ?t) = Inr q" "queue_rel q [] (pooled (que ?t))"
    "msg_at q = (\<lambda>a. if a \<in> set (waiting (que ?t)) then None else msg_at (que ?t) a)"
    "calls q = calls (que ?t) @ concat (map (\<lambda>a. recycle_calls (the (msg_at (que ?t) a))) (waiting (que ?t)))"
    "mQuit q"
    using quit_now_ok [OF queue_ok_rel [OF ok] nq] by blast
  have w: "waiting q = []" using queue_rel_lists(1) [OF q(2)] .
  have items: "map (con (que ?t)) (?hand @ waiting (que ?t)) = map (\<lambda>i. Some (item A i)) [?l..<?n]"
    and out: "shown s = map (\<lambda>i. (int i, a_param A i)) [0..<?l]"
    and freed: "mset (calls (que ?t)) + mset (map (freed_item A) [?l..<?n]) = mset (map (freed_item A) [0..<?n])"
    using k nq unfolding app_data_def line_def by blast+
  have len: "?j \<le> ?n" "?l \<le> ?n" using arg_cong [OF items, of length] k by (auto simp: app_data_def)
  have split: "[?l..<?n] = [?l..<?j] @ [?j..<?n]" using len(1) upt_add_eq_append [of ?l ?j "?n - ?j"] by simp
  have parts: "map (con (que ?t)) ?hand = map (\<lambda>i. Some (item A i)) [?l..<?j]"
    "map (con (que ?t)) (waiting (que ?t)) = map (\<lambda>i. Some (item A i)) [?j..<?n]"
    using items unfolding split map_append by (simp_all add: append_eq_append_conv)
  have calls: "calls q = calls (que ?t) @ map (freed_item A) [?j..<?n]"
    using q(4) recycle_calls_items [OF parts(2) free] by simp
  have hand: "a \<notin> set (waiting (que ?t))" if "a \<in> set ?hand" for a
    using that reachable_inv [OF r]
    by (cases "pc ?t") (auto simp: in_hand_def sys_inv_def pc_inv_def owned_iff in_lists_def)
  have "map (con q) ?hand = map (con (que ?t)) ?hand"
    using hand by (intro map_cong refl) (simp add: con_def q(3))
  moreover have "mset (calls q) + mset (map (freed_item A) [?l..<?j]) = mset (map (freed_item A) [0..<?n])"
    using freed unfolding calls split by (simp add: add_ac)
  ultimately have "app_data A ?j (?t\<lparr>que := q\<rparr>) ?n (shown s)"
    using out parts(1) len q(5) w unfolding app_data_def line_def by simp
  moreover have "mOutTimeTest q = mOutTimeTest (que ?t)" using quit_outtime [OF ok q(1)] .
  then have "app_time (?t\<lparr>que := q\<rparr>)" using tm w by (simp add: app_time_def)
  ultimately show ?thesis using q safe unfolding quits_to_def app_closed_def by auto
qed

lemma app_quit_inv:
  assumes inv: "app_inv A s" and c: "apos s = AQuit" and free: "a_free A \<noteq> 0"
  shows "\<exists>s'. app_client A s = Inr s' \<and> app_inv A s'"
proof -
  let ?t = "sy s"
  obtain k where k: "app_data A k ?t (sent s) (shown s)" using inv by (auto simp: app_inv_def)
  have r: "reachable ?t" and tm: "app_time ?t" and fl: "sent s = a_n A" "app_open ?t"
    using inv c by (auto simp: app_inv_def app_flow_def)
  have ok: "queue_ok (que ?t)" using reachable_inv [OF r] by (simp add: sys_inv_def inv_core_def)
  have nq: "\<not> mQuit (que ?t)" "\<not> mExit ?t" using fl(2) by (simp_all add: app_open_def)
  have "k = sent s" using k nq by (simp add: app_data_def)
  then have k: "app_data A (sent s) ?t (sent s) (shown s)" using k by simp
  obtain q where q: "quit (a_safe A) (que ?t) = Inr q" "quits_to A s q"
    using quit_safely_data [OF ok nq(1) tm k] quit_now_data [OF r nq(1) tm k _ free] by (cases "a_safe A") auto
  have "client_op (OpQuitQueue (a_safe A)) ?t = Inr (?t\<lparr>que := q\<rparr>)" using q nq by (simp add: client_op_def)
  moreover from this have "reachable (?t\<lparr>que := q\<rparr>)" using reachable_client [OF r, of "OpQuitQueue (a_safe A)"]
    by (simp add: allowed_def)
  moreover have "app_flow A (?t\<lparr>que := q\<rparr>) (sent s) AFlags"
    using fl(1) q(2) nq(2) by (auto simp: app_flow_def app_closed_def quits_to_def split: if_splits)
  ultimately show ?thesis using c q(2) fl(2)
    by (auto simp: app_client_def app_inv_def app_open_def quits_to_def)
qed

lemma app_flags_inv:
  assumes inv: "app_inv A s" and c: "apos s = AFlags"
  shows "\<exists>s'. app_client A s = Inr s' \<and> app_inv A s'"
proof -
  let ?t = "sy s"
  let ?u = "?t\<lparr>mPromoteThrLevel := a_safe A \<or> mPromoteThrLevel ?t, mExit := True\<rparr>"
  have r: "reachable ?t" and fl: "sent s = a_n A" "app_closed A ?t"
    using inv c by (auto simp: app_inv_def app_flow_def)
  have op: "client_op (OpQuitFlags (a_safe A)) ?t = Inr ?u" by (simp add: client_op_def)
  moreover have "allowed (OpQuitFlags (a_safe A)) ?t"
    using fl(2) by (auto simp: allowed_def app_closed_def split: if_splits)
  ultimately have "reachable ?u" using reachable_client [OF r] by blast
  moreover have "app_closed A ?u" using fl(2) by (simp add: app_closed_def)
  moreover have "app_time ?u = app_time ?t" "app_data A k ?u n out = app_data A k ?t n out" for k n out
    by (simp_all add: app_time_def app_data_def line_def)
  ultimately show ?thesis using inv c op fl(1)
    by (auto simp: app_client_def app_inv_def app_flow_def)
qed

lemma app_tick_inv:
  assumes inv: "app_inv A s" and d: "clock (sy s) \<le> d"
  shows "app_inv A (s\<lparr>sy := (sy s)\<lparr>clock := d\<rparr>\<rparr>)"
proof -
  let ?t = "sy s" let ?u = "(sy s)\<lparr>clock := d\<rparr>"
  have r: "reachable ?t" using inv by (simp add: app_inv_def)
  have "reachable ?u" using reachable_client [OF r, of "OpTick d"] d by (simp add: allowed_def client_op_def)
  moreover have "app_time ?u"
  proof -
    have "app_time ?t" using inv by (simp add: app_inv_def)
    moreover from this have "0 < d" using less_le_trans [OF _ d] by (simp add: app_time_def)
    ultimately show ?thesis using order_trans [OF _ d] by (simp add: app_time_def)
  qed
  moreover have "app_flow A ?u (sent s) (apos s)"
  proof (rule quiet_flow)
    show "quiet ?t ?u" by (simp add: quiet_def)
    show "app_flow A ?t (sent s) (apos s)" using inv by (simp add: app_inv_def)
    show "\<not> app_open ?t" if "pc ?u = CExit" using that by (simp add: app_open_def)
  qed
  moreover have "app_data A k ?u n out = app_data A k ?t n out" for k n out
    by (simp add: app_data_def line_def)
  ultimately show ?thesis using inv by (simp add: app_inv_def)
qed

lemma app_step_inv:
  assumes "a_free A \<noteq> 0" and "a_handler A \<noteq> 0" and inv: "app_inv A s" and "app_step A s r"
  shows "\<exists>s'. r = Inr s' \<and> app_inv A s'"
  using assms(4)
proof cases
  case sender
  have "sent s \<noteq> a_n A \<or> app_inv A (s\<lparr>apos := AQuit\<rparr>)" if "apos s = ANext"
    using inv that by (auto simp: app_inv_def app_flow_def)
  then show ?thesis
    using sender inv app_obtain_inv [OF inv] app_send_inv [OF inv _ assms(2)] app_quit_inv [OF inv _ assms(1)]
      app_flags_inv [OF inv]
    by (cases "apos s") (auto simp: app_client_def)
next
  case loop
  then show ?thesis using app_loop_inv [OF inv assms(1)] by simp
next
  case (tick d)
  then show ?thesis using app_tick_inv [OF inv] by simp
qed

lemma app_start_inv: "app_start s \<Longrightarrow> app_inv A s"
proof -
  assume "app_start s"
  then obtain name n now where s: "0 \<le> n" "0 < now"
    "s = \<lparr>sy = sys_init name n now, sent = 0, apos = ANext, shown = []\<rparr>"
    by (auto simp: app_start_def)
  have "queue_rel (MsgQueue_new name n) [] []" by (rule queue_rel_MsgQueue_new [OF s(1)])
  then have "waiting (MsgQueue_new name n) = []" by (rule queue_rel_lists)
  then show ?thesis using s reachable_init [OF s(1), of name now]
    by (simp add: app_inv_def app_time_def app_flow_def app_open_def app_data_def line_def in_hand_def sys_init_def)
      (simp add: MsgQueue_new_def)
qed

lemma reach_app_inv:
  assumes "a_free A \<noteq> 0" and "a_handler A \<noteq> 0" and "reach app_start (app_step A) s"
  shows "app_inv A s"
  using assms(3)
proof (induction rule: reach.induct)
  case (reach_init s)
  then show ?case by (rule app_start_inv)
next
  case (reach_step s s')
  then show ?case using app_step_inv [OF assms(1,2)] by blast
qed


text \<open>One message, a safe quit, and the loop after it.\<close>

primrec run_app :: "app_args \<Rightarrow> bool list \<Rightarrow> app \<Rightarrow> app res" where
  "run_app A [] s = Inr s"
| "run_app A (x # xs) s = bnd (if x then app_client A s else app_loop s) (run_app A xs)"

lemma run_app_reach:
  "run_app A xs s = Inr s' \<Longrightarrow> reach app_start (app_step A) s \<Longrightarrow> reach app_start (app_step A) s'"
proof (induction xs arbitrary: s)
  case (Cons x xs)
  then obtain t where t: "(if x then app_client A s else app_loop s) = Inr t" "run_app A xs t = Inr s'"
    by (auto simp: bnd_eq_Inr_iff)
  have "app_step A s (Inr t)" using t(1) app_step.sender [of A s] app_step.loop [of A s] by (cases x) simp_all
  with Cons t(2) show ?case using reach.reach_step by metis
qed simp

definition sample_args :: app_args where
  "sample_args = \<lparr>a_n = 1, a_safe = True, a_handler = 77, a_free = 60, a_param = \<lambda>i. 900 + i, a_bytes = \<lambda>_. 15\<rparr>"

definition sample_app :: app where
  "sample_app = \<lparr>sy = sys_init ''q'' 9 5, sent = 0, apos = ANext, shown = []\<rparr>"

lemma sample_app_run:
  "\<exists>s. run_app sample_args [True, True, True, True, True, False, False, False, False] sample_app = Inr s \<and>
    shown s = [(0, 900)] \<and> calls (que (sy s)) = [(60, 900, 15)] \<and> pc (sy s) = CExit"
  by (simp add: sample_app_def sample_args_def app_client_def app_obtain_def app_send_def app_loop_def
      run_simps obtain_or_new_def obtain_pool_def setParam_def quit_def recycleMsg_def Msg_recycleUnchecked_def
      recycle_calls_def recycled_def msgHandlerFun_def getParam_def Msg_reset_def makeInUse_def isInUse_def
      Msg_new_def FLAGINUSE_def One_nat_def [symmetric] del: One_nat_def)


end
