(* ===== verification/Sample_Memory.thy ===== *)
theory Sample_Memory
  imports Sample_Program Decimal_Text
begin

text \<open>
  The memory of the sample program \<open>test_looper.cpp\<close>: the texts that the sender allocates with \<open>malloc\<close>
  and fills with \<open>snprintf\<close>, that the function of the handler prints, and that the deleter \<open>freeMem\<close>
  frees when a message is recycled or destroyed. The steps are those of \<open>Sample_Program\<close>; each call of
  the deleter that a step adds to \<open>calls\<close> is carried out on the memory. Reading or freeing a block that
  is not allocated is the fault \<open>Dangling\<close>. Of \<open>malloc\<close> the model uses that it returns a block that is not
  in use; \<open>a_param A i\<close> is what its i-th call returned.
\<close>

subsection \<open>The texts\<close>

type_synonym memory = "ptr \<Rightarrow> string option"

text \<open>\<open>snprintf(strparam, 100, "%s%d", ptr, i)\<close>: at most 99 characters.\<close>

definition strparam :: "string \<Rightarrow> int \<Rightarrow> string" where
  "strparam prefix i = take 99 (prefix @ decimal_int i)"

definition main_text :: string where "main_text = ''test message ''"
definition sub_text :: string where "sub_text = ''test subthread send message ''"

text \<open>What the function of the handler (and the function object) sends to the log.\<close>

definition handler_line :: "int \<Rightarrow> string option \<Rightarrow> string" where
  "handler_line what p =
     ''what = '' @ decimal_int what @ '' param = '' @ (case p of None \<Rightarrow> ''nullptr'' | Some t \<Rightarrow> t) @ [CHR 0x0A]"

definition handler_text :: "Msg \<Rightarrow> memory \<Rightarrow> string res" where
  "handler_text msg M =
     (let p = getParam msg in
      if p = 0 then Inr (handler_line (mWhat msg) None)
      else case M p of None \<Rightarrow> Inl Dangling | Some t \<Rightarrow> Inr (handler_line (mWhat msg) (Some t)))"

definition freeMem :: "ptr \<Rightarrow> 64 word \<Rightarrow> memory \<Rightarrow> memory res" where
  "freeMem p bytes M =
     (if p \<noteq> 0 then case M p of None \<Rightarrow> Inl Dangling | Some _ \<Rightarrow> Inr (M(p := None)) else Inr M)"

text \<open>The calls of deleters in a list; \<open>f\<close> is the address of \<open>freeMem\<close>.\<close>

primrec run_calls :: "ptr \<Rightarrow> (ptr \<times> ptr \<times> 64 word) list \<Rightarrow> memory \<Rightarrow> memory res" where
  "run_calls f [] M = Inr M"
| "run_calls f (c # cs) M =
     bnd (if fst c = f then freeMem (fst (snd c)) (snd (snd c)) M else Inr M) (run_calls f cs)"

text \<open>The texts of the first \<open>2^31\<close> messages are complete, and so are the bytes that \<open>main\<close> passes on.\<close>

lemma strparam_fits:
  assumes "prefix = main_text \<or> prefix = sub_text" and "0 \<le> i" and "i < 2 ^ 31"
  shows "strparam prefix i = prefix @ decimal (nat i)" "length (strparam prefix i) + 1 \<le> 100"
proof -
  have "nat i < 2 ^ 31" using assms(3) by simp
  then have "nat i < 10 ^ 10" by (rule less_le_trans) simp
  then have "length (decimal (nat i)) \<le> 10" by (rule length_decimal) simp
  then show "strparam prefix i = prefix @ decimal (nat i)" "length (strparam prefix i) + 1 \<le> 100"
    using assms(1,2) by (auto simp: strparam_def decimal_int_def main_text_def sub_text_def)
qed

subsection \<open>The program with its memory\<close>

record msys =
  prog :: app
  mem :: memory
  logged :: "string list"

definition new_calls :: "app \<Rightarrow> app \<Rightarrow> (ptr \<times> ptr \<times> 64 word) list" where
  "new_calls s s' = drop (length (calls (que (sy s)))) (calls (que (sy s')))"

definition allocates :: "app_args \<Rightarrow> app \<Rightarrow> bool" where
  "allocates A s \<longleftrightarrow> apos s = ANext \<and> sent s \<noteq> a_n A"

definition mem_client :: "app_args \<Rightarrow> string \<Rightarrow> msys \<Rightarrow> msys res" where
  "mem_client A prefix s =
     (let a = prog s; i = sent a;
          M = (if allocates A a then (mem s)(a_param A i := Some (strparam prefix (int i))) else mem s) in
      bnd (app_client A a) (\<lambda>a'.
      bnd (run_calls (a_free A) (new_calls a a') M) (\<lambda>M.
        Inr (s\<lparr>prog := a', mem := M\<rparr>))))"

definition mem_loop :: "app_args \<Rightarrow> msys \<Rightarrow> msys res" where
  "mem_loop A s =
     (let a = prog s in
      bnd (case pc (sy a) of
             CHave p \<Rightarrow>
               bnd (ld p (que (sy a))) (\<lambda>m. bnd (handler_text m (mem s)) (\<lambda>l. Inr (logged s @ [l])))
           | _ \<Rightarrow> Inr (logged s)) (\<lambda>out.
      bnd (app_loop a) (\<lambda>a'.
      bnd (run_calls (a_free A) (new_calls a a') (mem s)) (\<lambda>M.
        Inr (s\<lparr>prog := a', mem := M, logged := out\<rparr>)))))"

inductive mem_step :: "app_args \<Rightarrow> string \<Rightarrow> msys \<Rightarrow> msys res \<Rightarrow> bool" for A prefix where
  mem_sender:
    "(allocates A (prog s) \<Longrightarrow> a_param A (sent (prog s)) \<noteq> 0 \<and> mem s (a_param A (sent (prog s))) = None) \<Longrightarrow>
      mem_step A prefix s (mem_client A prefix s)"
| mem_looper: "mem_step A prefix s (mem_loop A s)"
| mem_tick: "clock (sy (prog s)) \<le> d \<Longrightarrow>
    mem_step A prefix s (Inr (s\<lparr>prog := (prog s)\<lparr>sy := (sy (prog s))\<lparr>clock := d\<rparr>\<rparr>\<rparr>))"

definition mem_start :: "msys \<Rightarrow> bool" where
  "mem_start s \<longleftrightarrow> app_start (prog s) \<and> mem s = Map.empty \<and> logged s = []"

subsection \<open>The blocks in use\<close>

text \<open>The messages whose parameters are allocated: those on the way, and the one the sender holds.\<close>

definition onway :: "app \<Rightarrow> nat set" where
  "onway s = {length (shown s)..<length (shown s) + length (line (sy s))} \<union>
     (case apos s of AHave p \<Rightarrow> {sent s} | _ \<Rightarrow> {})"

definition texts :: "app_args \<Rightarrow> string \<Rightarrow> nat set \<Rightarrow> memory \<Rightarrow> bool" where
  "texts A prefix S M \<longleftrightarrow> inj_on (a_param A) S \<and>
     (\<forall>i\<in>S. a_param A i \<noteq> 0 \<and> M (a_param A i) = Some (strparam prefix (int i))) \<and>
     (\<forall>p. p \<notin> a_param A ` S \<longrightarrow> M p = None)"

definition mem_inv :: "app_args \<Rightarrow> string \<Rightarrow> msys \<Rightarrow> bool" where
  "mem_inv A prefix s \<longleftrightarrow> app_inv A (prog s) \<and> texts A prefix (onway (prog s)) (mem s) \<and>
     logged s = map (\<lambda>i. handler_line (int i) (Some (strparam prefix (int i)))) [0..<length (shown (prog s))]"

lemma texts_free:
  assumes "texts A prefix S M" and "j \<in> S"
  shows "\<exists>M'. freeMem (a_param A j) n M = Inr M' \<and> texts A prefix (S - {j}) M'"
proof -
  have inj: "inj_on (a_param A) S" and j: "a_param A j \<noteq> 0" "M (a_param A j) = Some (strparam prefix (int j))"
    using assms by (auto simp: texts_def)
  have ne: "a_param A i \<noteq> a_param A j" if "i \<in> S" "i \<noteq> j" for i using inj_onD [OF inj] that assms(2) by blast
  have "texts A prefix (S - {j}) (M(a_param A j := None))"
    using assms(1) ne inj_on_subset [OF inj] unfolding texts_def by (auto simp: image_def)
  then show ?thesis using j by (simp add: freeMem_def)
qed

lemma texts_run:
  assumes "texts A prefix S M" and "distinct js" and "set js \<subseteq> S"
  shows "\<exists>M'. run_calls (a_free A) (map (freed_item A) js) M = Inr M' \<and> texts A prefix (S - set js) M'"
  using assms
proof (induction js arbitrary: S M)
  case (Cons j js)
  then obtain M' where M': "freeMem (a_param A j) (a_bytes A j) M = Inr M'" "texts A prefix (S - {j}) M'"
    using texts_free [of A prefix S M j "a_bytes A j"] by auto
  moreover have "set js \<subseteq> S - {j}" using Cons.prems by auto
  ultimately obtain M'' where "run_calls (a_free A) (map (freed_item A) js) M' = Inr M''"
    "texts A prefix (S - {j} - set js) M''"
    using Cons.IH [of "S - {j}" M'] Cons.prems(2) by auto
  moreover have "S - {j} - set js = S - set (j # js)" by auto
  moreover have "freed_item A j = (a_free A, a_param A j, a_bytes A j)" by (simp add: freed_item_def)
  ultimately show ?case using M'(1) by auto
qed simp

lemma texts_alloc:
  assumes "texts A prefix S M" and "a_param A i \<noteq> 0" and "M (a_param A i) = None" and "i \<notin> S"
  shows "texts A prefix (S \<union> {i}) (M(a_param A i := Some (strparam prefix (int i))))"
proof -
  have "a_param A i \<notin> a_param A ` S" using assms(1,3) by (force simp: texts_def)
  then show ?thesis using assms unfolding texts_def by (auto simp: image_def)
qed

text \<open>A list of calls with the right elements is a list of the messages in some order.\<close>

lemma mset_map_perm: "mset cs = mset (map f js) \<Longrightarrow> \<exists>is. cs = map f is \<and> mset is = mset js"
proof (induction cs arbitrary: js)
  case (Cons c cs)
  then obtain j where j: "j \<in> set js" "f j = c" by (metis image_iff list.set_intros(1) list.set_map set_mset_mset)
  then have "mset js = add_mset j (mset (remove1 j js))" by simp
  then obtain ks where ks: "mset js = add_mset j (mset ks)" by blast
  then have "mset cs = mset (map f ks)" using Cons.prems j(2) by simp
  then obtain "is" where "cs = map f is" "mset is = mset ks" using Cons.IH by blast
  then show ?case using j(2) ks by (intro exI [of _ "j # is"]) simp
qed simp

lemma app_inv_way:
  assumes "app_inv A s"
  shows "app_data A (length (shown s) + length (line (sy s))) (sy s) (sent s) (shown s)"
proof -
  obtain k where k: "app_data A k (sy s) (sent s) (shown s)" using assms by (auto simp: app_inv_def)
  then have "map (con (que (sy s))) (line (sy s)) = map (\<lambda>i. Some (item A i)) [length (shown s)..<k]" "length (shown s) \<le> k"
    unfolding app_data_def by blast+
  from arg_cong [OF this(1), of length] this(2) have "length (shown s) + length (line (sy s)) = k" by simp
  then show ?thesis using k by simp
qed

text \<open>The calls that a step adds are those for the messages that have left the way.\<close>

lemma freed_between:
  assumes inv: "app_inv A s" "app_inv A s'" and n: "sent s' = sent s"
    and cs: "calls (que (sy s')) = calls (que (sy s)) @ cs"
    and l: "length (shown s) \<le> length (shown s')"
    and k: "length (shown s') + length (line (sy s')) \<le> length (shown s) + length (line (sy s))"
  shows "\<exists>js. cs = map (freed_item A) js \<and> distinct js \<and>
    set js = {length (shown s)..<length (shown s) + length (line (sy s))} -
      {length (shown s')..<length (shown s') + length (line (sy s'))}"
proof -
  let ?l = "length (shown s)" and ?l' = "length (shown s')"
  let ?k = "?l + length (line (sy s))" and ?k' = "?l' + length (line (sy s'))"
  let ?js = "[?l..<?l'] @ [?k'..<?k]"
  have le: "?l \<le> ?l'" "?l' \<le> ?k'" "?k' \<le> ?k" using l k by simp_all
  have "[?l..<?k] = [?l..<?l'] @ [?l'..<?k'] @ [?k'..<?k]"
    using upt_add_eq_append [of ?l ?l' "?k - ?l'"] upt_add_eq_append [of ?l' ?k' "?k - ?k'"] le by simp
  moreover have "mset (calls (que (sy s))) + mset (map (freed_item A) [?l..<?k]) =
      mset (calls (que (sy s'))) + mset (map (freed_item A) [?l'..<?k'])"
    using app_inv_way [OF inv(1)] app_inv_way [OF inv(2)] n unfolding app_data_def by simp
  ultimately have "mset cs = mset (map (freed_item A) ?js)" unfolding cs by (simp add: ac_simps)
  then obtain js where js: "cs = map (freed_item A) js" "mset js = mset ?js" using mset_map_perm by blast
  have "distinct ?js" using le by auto
  then have "distinct js" using js(2) mset_eq_imp_distinct_iff by blast
  moreover have "set js = set ?js" using js(2) by (metis set_mset_mset)
  ultimately show ?thesis using js(1) le by (intro exI [of _ js]) auto
qed

subsection \<open>The steps of the loop\<close>

text \<open>A step that lets messages leave the way at its two ends and adds calls.\<close>

definition leaves :: "app \<Rightarrow> app \<Rightarrow> bool" where
  "leaves s s' \<longleftrightarrow> sent s' = sent s \<and> (\<exists>cs. calls (que (sy s')) = calls (que (sy s)) @ cs) \<and>
     length (shown s) \<le> length (shown s') \<and>
     length (shown s') + length (line (sy s')) \<le> length (shown s) + length (line (sy s))"

lemma leaves_texts:
  assumes inv: "app_inv A s" "app_inv A s'" and lv: "leaves s s'" and t: "texts A prefix (onway s) M"
    and held: "\<And>p. apos s = AHave p \<Longrightarrow> apos s' = AHave p" "\<And>p. apos s' = AHave p \<Longrightarrow> apos s = AHave p"
  shows "\<exists>M'. run_calls (a_free A) (new_calls s s') M = Inr M' \<and> texts A prefix (onway s') M'"
proof -
  let ?w = "\<lambda>s. {length (shown s)..<length (shown s) + length (line (sy s))}"
  obtain cs where cs: "calls (que (sy s')) = calls (que (sy s)) @ cs" and le: "sent s' = sent s"
    "length (shown s) \<le> length (shown s')"
    "length (shown s') + length (line (sy s')) \<le> length (shown s) + length (line (sy s))"
    using lv by (auto simp: leaves_def)
  obtain js where js: "cs = map (freed_item A) js" "distinct js" "set js = ?w s - ?w s'"
    using freed_between [OF inv le(1) cs le(2,3)] by blast
  let ?e = "\<lambda>s. case apos s of AHave p \<Rightarrow> {sent s} | _ \<Rightarrow> {}"
  have "length (shown s) + length (line (sy s)) \<le> sent s" using app_inv_way [OF inv(1)] by (simp add: app_data_def)
  then have "?e s \<inter> ?w s = {}" by (cases "apos s") auto
  moreover have "?w s' \<subseteq> ?w s" using le(2,3) by auto
  moreover have "?e s' = ?e s" using held le(1) by (cases "apos s"; cases "apos s'") auto
  ultimately have "onway s - set js = onway s'" "set js \<subseteq> onway s"
    unfolding onway_def js(3) by blast+
  moreover have "new_calls s s' = map (freed_item A) js" using cs js(1) by (simp add: new_calls_def)
  ultimately show ?thesis using texts_run [OF t js(2)] by auto
qed

lemma loop_leaves:
  assumes inv: "app_inv A s" and free: "a_free A \<noteq> 0"
  shows "\<exists>s'. app_loop s = Inr s' \<and> app_inv A s' \<and> leaves s s' \<and> apos s' = apos s \<and>
    length (shown s') = (case pc (sy s) of CHave p \<Rightarrow> Suc (length (shown s)) | _ \<Rightarrow> length (shown s))"
proof -
  let ?t = "sy s" and ?k = "length (shown s) + length (line (sy s))"
  have k: "app_data A ?k ?t (sent s) (shown s)" by (rule app_inv_way [OF inv])
  have r: "reachable ?t" and tm: "app_time ?t" and fl: "app_flow A ?t (sent s) (apos s)"
    and ex: "pc ?t = CExit \<Longrightarrow> waiting (que ?t) = []"
    using inv by (auto simp: app_inv_def)
  have "mQuit (que ?t) \<or> mNotEnqueMsg (que ?t)" if "mExit ?t"
    using fl that by (cases "apos s") (auto simp: app_flow_def app_open_def app_closed_def split: if_splits)
  from loop_keeps [OF reachable_inv [OF r] tm k free this ex] obtain t out where t: "printed ?t (shown s) = Inr out"
    "consumer_step ?t = Inr t" "quiet ?t t" "app_data A ?k t (sent s) out"
    unfolding loop_kept_def by blast
  then have step: "app_loop s = Inr (s\<lparr>sy := t, shown := out\<rparr>)" (is "_ = Inr ?s") by (simp add: app_loop_def printed_def)
  obtain s' where "app_loop s = Inr s'" and inv': "app_inv A s'" using app_loop_inv [OF inv free] by blast
  with step have inv': "app_inv A ?s" by simp
  have len: "length out = (case pc ?t of CHave p \<Rightarrow> Suc (length (shown s)) | _ \<Rightarrow> length (shown s))"
    using t(1) by (cases "pc ?t") (auto simp: printed_def bnd_eq_Inr_iff)
  have "map (con (que t)) (line t) = map (\<lambda>i. Some (item A i)) [length out..<?k]" "length out \<le> ?k"
    using t(4) unfolding app_data_def by blast+
  from arg_cong [OF this(1), of length] this(2) have "length out + length (line t) = ?k" by simp
  moreover have "length (shown s) \<le> length out" using len by (simp split: cpc.splits)
  ultimately have "leaves s ?s" using t(3) by (simp add: leaves_def quiet_def)
  then show ?thesis using step inv' len by (intro exI [of _ ?s]) simp
qed

text \<open>What the handler prints is the text of the first message on the way.\<close>

lemma dispatch_prints:
  assumes inv: "app_inv A s" and t: "texts A prefix (onway s) M" and c: "pc (sy s) = CHave p"
  shows "\<exists>m. ld p (que (sy s)) = Inr m \<and>
    handler_text m M = Inr (handler_line (int (length (shown s))) (Some (strparam prefix (int (length (shown s))))))"
proof -
  let ?t = "sy s" and ?l = "length (shown s)"
  have "sys_inv ?t" using inv reachable_inv by (simp add: app_inv_def)
  from recycle_dispatched [OF this c] obtain m where m: "p \<noteq> 0" "cells (que ?t) p = Some m" by blast
  have way: "line ?t = p # waiting (que ?t)" using c by (simp add: line_def in_hand_def)
  then have "?l < ?l + length (line ?t)" by simp
  have "map (con (que ?t)) (line ?t) = map (\<lambda>i. Some (item A i)) [?l..<?l + length (line ?t)]"
    using app_inv_way [OF inv] unfolding app_data_def by blast
  from arg_cong [OF this, of "\<lambda>xs. xs ! 0"] have "con (que ?t) (line ?t ! 0) = Some (item A ?l)"
    using \<open>?l < ?l + length (line ?t)\<close> by (simp add: nth_map)
  then have "con (que ?t) p = Some (item A ?l)" using way by simp
  then have "content m = item A ?l" using con_cell [OF m(2)] by simp
  then have "mWhat m = int ?l" "mParam m = a_param A ?l" by (simp_all add: content_def item_def)
  moreover have "?l \<in> onway s" using way by (simp add: onway_def)
  then have "a_param A ?l \<noteq> 0" "M (a_param A ?l) = Some (strparam prefix (int ?l))" using t by (auto simp: texts_def)
  ultimately show ?thesis using m by (intro exI [of _ m]) (simp add: ld_def handler_text_def getParam_def)
qed

lemma mem_loop_inv:
  assumes inv: "mem_inv A prefix s" and free: "a_free A \<noteq> 0"
  shows "\<exists>s'. mem_loop A s = Inr s' \<and> mem_inv A prefix s'"
proof -
  let ?a = "prog s"
  have i: "app_inv A ?a" and t: "texts A prefix (onway ?a) (mem s)"
    and lg: "logged s = map (\<lambda>i. handler_line (int i) (Some (strparam prefix (int i)))) [0..<length (shown ?a)]"
    using inv by (auto simp: mem_inv_def)
  obtain a where a: "app_loop ?a = Inr a" "app_inv A a" "leaves ?a a" "apos a = apos ?a"
    "length (shown a) = (case pc (sy ?a) of CHave p \<Rightarrow> Suc (length (shown ?a)) | _ \<Rightarrow> length (shown ?a))"
    using loop_leaves [OF i free] by blast
  obtain M where M: "run_calls (a_free A) (new_calls ?a a) (mem s) = Inr M" "texts A prefix (onway a) M"
    using leaves_texts [OF i a(2,3) t, unfolded a(4)] by blast
  show ?thesis
  proof (cases "pc (sy ?a)")
    case (CHave p)
    with dispatch_prints [OF i t] obtain m where "ld p (que (sy ?a)) = Inr m"
      "handler_text m (mem s) = Inr (handler_line (int (length (shown ?a))) (Some (strparam prefix (int (length (shown ?a))))))"
      by blast
    then show ?thesis using CHave a M lg by (simp add: mem_loop_def mem_inv_def Let_def)
  qed (use a M lg in \<open>simp_all add: mem_loop_def mem_inv_def Let_def\<close>)
qed

subsection \<open>The steps of the sender\<close>

text \<open>While the queue is open, everything that was sent and not shown is on the way.\<close>

lemma way_full:
  assumes "app_inv A s" and "app_open (sy s)"
  shows "length (shown s) + length (line (sy s)) = sent s"
  using app_inv_way [OF assms(1)] assms(2) by (simp add: app_data_def app_open_def)

lemma obtain_calls:
  assumes inv: "app_inv A s" and s': "app_obtain A s = Inr s'"
  shows "calls (que (sy s')) = calls (que (sy s)) \<and> sent s' = sent s \<and> shown s' = shown s \<and> (\<exists>p. apos s' = AHave p)"
proof -
  have "reachable (sy s)" using inv by (simp add: app_inv_def)
  then have "queue_ok (que (sy s))" using reachable_inv by (simp add: sys_inv_def inv_core_def)
  then have "obtain_or_new (que (sy s)) = Inr (p, q) \<Longrightarrow> calls q = calls (que (sy s))" for p q
    using obtain_or_new_rest by blast
  then show ?thesis using s' by (auto simp: app_obtain_def bnd_eq_Inr_iff upd_def put_def)
qed

lemma send_calls:
  assumes inv: "app_inv A s" and c: "apos s = AHave p" and h: "a_handler A \<noteq> 0" and s': "app_send A p s = Inr s'"
  shows "calls (que (sy s')) = calls (que (sy s)) \<and> sent s' = Suc (sent s) \<and> shown s' = shown s \<and> apos s' = ANext"
proof -
  let ?t = "sy s"
  have r: "reachable ?t" and tm: "app_time ?t" and fl: "app_open ?t" "p \<in> held ?t"
    using inv c by (auto simp: app_inv_def app_flow_def)
  obtain x where x: "msg_at (que ?t) p = Some x" "\<not> isInUse x"
    using inv c by (auto simp: app_inv_def app_flow_def)
  obtain q where q: "bnd (upd p (\<lambda>m. m\<lparr>mTarget := a_handler A\<rparr>) (que ?t)) (enqueueMessage p (clock ?t)) = Inr (True, q)"
    "calls q = calls (que ?t)" using send_appends [OF r fl(2) x h fl(1) tm] by blast
  then show ?thesis using s' by (auto simp: app_send_def bnd_eq_Inr_iff)
qed

lemma quit_calls:
  assumes inv: "app_inv A s" and c: "apos s = AQuit" and s': "app_client A s = Inr s'"
  shows "(\<exists>cs. calls (que (sy s')) = calls (que (sy s)) @ cs) \<and> sent s' = sent s \<and> shown s' = shown s \<and> apos s' = AFlags"
proof -
  let ?q = "que (sy s)"
  have r: "reachable (sy s)" and op: "app_open (sy s)" using inv c by (auto simp: app_inv_def app_flow_def)
  have ok: "queue_ok ?q" using reachable_inv [OF r] by (simp add: sys_inv_def inv_core_def)
  have nq: "\<not> mQuit ?q" "\<not> mExit (sy s)" using op by (simp_all add: app_open_def)
  have "\<exists>cs. calls q = calls ?q @ cs" if "quit b ?q = Inr q" for b q
    using that quit_safely_ok [OF queue_ok_rel [OF ok] nq(1)] quit_now_ok [OF queue_ok_rel [OF ok] nq(1)]
    by (cases b) auto
  then show ?thesis using s' c nq by (auto simp: app_client_def client_op_def bnd_eq_Inr_iff)
qed

lemma client_leaves:
  assumes inv: "app_inv A s" and s': "app_client A s = Inr s'" "app_inv A s'"
    and c: "\<not> allocates A s" "\<And>p. apos s \<noteq> AHave p"
  shows "leaves s s' \<and> (\<forall>p. apos s' \<noteq> AHave p)"
proof (cases "apos s")
  case AQuit
  note q = quit_calls [OF inv AQuit s'(1)]
  have "app_open (sy s)" using inv AQuit by (auto simp: app_inv_def app_flow_def)
  then have "length (shown s) + length (line (sy s)) = sent s" by (rule way_full [OF inv])
  moreover have "length (shown s') + length (line (sy s')) \<le> sent s'"
    using app_inv_way [OF s'(2)] by (simp add: app_data_def)
  ultimately show ?thesis using q by (simp add: leaves_def)
qed (use s' c in \<open>auto simp: app_client_def allocates_def leaves_def client_op_def line_def\<close>)

lemma client_shown: "app_client A s = Inr s' \<Longrightarrow> shown s' = shown s"
  by (cases "apos s") (auto simp: app_client_def app_obtain_def app_send_def bnd_eq_Inr_iff split: if_splits)

lemma mem_client_inv:
  assumes inv: "mem_inv A prefix s" and free: "a_free A \<noteq> 0" and h: "a_handler A \<noteq> 0"
    and new: "allocates A (prog s) \<Longrightarrow> a_param A (sent (prog s)) \<noteq> 0 \<and> mem s (a_param A (sent (prog s))) = None"
  shows "\<exists>s'. mem_client A prefix s = Inr s' \<and> mem_inv A prefix s'"
proof -
  let ?a = "prog s"
  have i: "app_inv A ?a" and t: "texts A prefix (onway ?a) (mem s)" using inv by (auto simp: mem_inv_def)
  obtain a where a: "app_client A ?a = Inr a" "app_inv A a"
    using app_step_inv [OF free h i app_step.sender] by blast
  note sh = client_shown [OF a(1)]
  show ?thesis
  proof (cases "allocates A ?a")
    case True
    then have o: "app_obtain A ?a = Inr a" "apos ?a = ANext" using a(1) by (auto simp: allocates_def app_client_def)
    then obtain p where p: "calls (que (sy a)) = calls (que (sy ?a))" "sent a = sent ?a" "apos a = AHave p"
      using obtain_calls [OF i] by blast
    have "app_open (sy ?a)" "app_open (sy a)" using i a(2) o(2) p(3) by (auto simp: app_inv_def app_flow_def)
    then have w: "onway ?a = {length (shown ?a)..<sent ?a}" "onway a = onway ?a \<union> {sent ?a}"
      using way_full [OF i] way_full [OF a(2)] sh p(2,3) o(2) by (simp_all add: onway_def)
    then have "texts A prefix (onway a) ((mem s)(a_param A (sent ?a) := Some (strparam prefix (int (sent ?a)))))"
      using texts_alloc [OF t] new [OF True] by simp
    then show ?thesis using True a inv sh p(1) by (simp add: mem_client_def mem_inv_def new_calls_def Let_def)
  next
    case False
    have "\<exists>M. run_calls (a_free A) (new_calls ?a a) (mem s) = Inr M \<and> texts A prefix (onway a) M"
    proof (cases "\<exists>p. apos ?a = AHave p")
      case True
      then obtain p where c: "apos ?a = AHave p" by blast
      then have "app_send A p ?a = Inr a" using a(1) by (simp add: app_client_def)
      note p = send_calls [OF i c h this]
      have "app_open (sy ?a)" "app_open (sy a)" using i a(2) c p by (auto simp: app_inv_def app_flow_def)
      then have "onway a = onway ?a"
        using way_full [OF i] way_full [OF a(2)] sh p c by (auto simp: onway_def)
      then show ?thesis using t p by (simp add: new_calls_def)
    next
      case none: False
      then show ?thesis using leaves_texts [OF i a(2) _ t] client_leaves [OF i a False] by blast
    qed
    then show ?thesis using False a inv sh by (auto simp: mem_client_def mem_inv_def Let_def)
  qed
qed

subsection \<open>The whole program\<close>

lemma mem_start_inv:
  assumes "mem_start s"
  shows "mem_inv A prefix s"
proof -
  have i: "app_inv A (prog s)" using assms app_start_inv by (simp add: mem_start_def)
  have "sent (prog s) = 0" "shown (prog s) = []" "apos (prog s) = ANext"
    using assms by (auto simp: mem_start_def app_start_def)
  moreover from this have "length (line (sy (prog s))) = 0" using app_inv_way [OF i] by (simp add: app_data_def)
  ultimately show ?thesis using assms i by (simp add: mem_inv_def mem_start_def onway_def texts_def)
qed

lemma mem_step_inv:
  assumes "a_free A \<noteq> 0" and "a_handler A \<noteq> 0" and inv: "mem_inv A prefix s" and "mem_step A prefix s r"
  shows "\<exists>s'. r = Inr s' \<and> mem_inv A prefix s'"
  using assms(4)
proof cases
  case mem_sender
  then show ?thesis using mem_client_inv [OF inv assms(1,2)] by blast
next
  case mem_looper
  then show ?thesis using mem_loop_inv [OF inv assms(1)] by simp
next
  case (mem_tick d)
  moreover have "onway ((prog s)\<lparr>sy := (sy (prog s))\<lparr>clock := d\<rparr>\<rparr>) = onway (prog s)"
    by (simp add: onway_def line_def cong: apos.case_cong)
  ultimately show ?thesis using inv app_tick_inv [of A "prog s" d] by (simp add: mem_inv_def)
qed

lemma reach_mem_inv:
  assumes "a_free A \<noteq> 0" and "a_handler A \<noteq> 0" and "reach mem_start (mem_step A prefix) s"
  shows "mem_inv A prefix s"
  using assms(3)
proof (induction rule: reach.induct)
  case (reach_init s)
  then show ?case by (rule mem_start_inv)
next
  case (reach_step s s')
  then show ?case using mem_step_inv [OF assms(1,2)] by blast
qed

lemma reach_mem:
  assumes "a_free A \<noteq> 0" and "a_handler A \<noteq> 0" and "reach mem_start (mem_step A prefix) s"
  shows "(\<forall>r. mem_step A prefix s r \<longrightarrow> ok r) \<and>
    logged s = map (\<lambda>i. handler_line (int i) (Some (strparam prefix (int i)))) [0..<length (logged s)] \<and>
    length (logged s) \<le> a_n A \<and>
    (pc (sy (prog s)) = CExit \<longrightarrow> mem s = Map.empty \<and> (a_safe A \<longrightarrow> length (logged s) = a_n A))"
proof -
  let ?a = "prog s"
  have inv: "mem_inv A prefix s" by (rule reach_mem_inv [OF assms])
  then have i: "app_inv A ?a" and t: "texts A prefix (onway ?a) (mem s)" and len: "length (logged s) = length (shown ?a)"
    by (simp_all add: mem_inv_def)
  have fl: "app_flow A (sy ?a) (sent ?a) (apos ?a)" and ex: "pc (sy ?a) = CExit \<Longrightarrow> waiting (que (sy ?a)) = []"
    using i by (auto simp: app_inv_def)
  have "ok r" if "mem_step A prefix s r" for r using mem_step_inv [OF assms(1,2) inv that] by auto
  moreover have "length (shown ?a) \<le> sent ?a" using app_inv_way [OF i] by (simp add: app_data_def)
  moreover have "sent ?a \<le> a_n A" using fl by (cases "apos ?a") (auto simp: app_flow_def)
  moreover have "mem s = Map.empty \<and> (a_safe A \<longrightarrow> length (shown ?a) = a_n A)" if e: "pc (sy ?a) = CExit"
  proof -
    have "line (sy ?a) = []" using ex [OF e] e by (simp add: line_def in_hand_def)
    moreover have c: "sent ?a = a_n A" "app_closed A (sy ?a)" "\<forall>p. apos ?a \<noteq> AHave p"
      using fl e by (cases "apos ?a"; auto simp: app_flow_def app_open_def app_closed_def)+
    ultimately have "onway ?a = {}" by (cases "apos ?a") (auto simp: onway_def)
    then show ?thesis using t app_inv_way [OF i] \<open>line (sy ?a) = []\<close> c
      by (auto simp: texts_def app_data_def app_closed_def)
  qed
  ultimately show ?thesis using inv len by (auto simp: mem_inv_def)
qed


text \<open>One message, with its text, from \<open>malloc\<close> to \<open>freeMem\<close>: \<open>True\<close> is a step of the sender.\<close>

definition fresh_param :: "app_args \<Rightarrow> msys \<Rightarrow> bool" where
  "fresh_param A s \<longleftrightarrow>
     (allocates A (prog s) \<longrightarrow> a_param A (sent (prog s)) \<noteq> 0 \<and> mem s (a_param A (sent (prog s))) = None)"

primrec run_mem :: "app_args \<Rightarrow> string \<Rightarrow> bool list \<Rightarrow> msys \<Rightarrow> msys res" where
  "run_mem A prefix [] s = Inr s"
| "run_mem A prefix (x # xs) s =
     bnd (if \<not> x then mem_loop A s else if fresh_param A s then mem_client A prefix s else Inl Undefined)
       (run_mem A prefix xs)"

lemma run_mem_reach:
  "run_mem A prefix xs s = Inr s' \<Longrightarrow> reach mem_start (mem_step A prefix) s \<Longrightarrow> reach mem_start (mem_step A prefix) s'"
proof (induction xs arbitrary: s)
  case (Cons x xs)
  then obtain t where t: "(if \<not> x then mem_loop A s else if fresh_param A s then mem_client A prefix s else Inl Undefined) = Inr t"
    "run_mem A prefix xs t = Inr s'"
    by (auto simp: bnd_eq_Inr_iff)
  have "mem_step A prefix s (Inr t)"
    using t(1) mem_step.mem_sender [of A s prefix] mem_step.mem_looper [of A prefix s]
    by (auto simp: fresh_param_def split: if_splits)
  with Cons t(2) show ?case using reach.reach_step by metis
qed simp

definition sample_mem :: msys where
  "sample_mem = \<lparr>prog = sample_app, mem = Map.empty, logged = []\<rparr>"

lemma decimal_0: "decimal 0 = ''0''"
  by code_simp

lemma sample_texts:
  "strparam main_text 0 = ''test message 0''"
  "handler_line 0 (Some t) = ''what = 0 param = '' @ t @ [CHR 0x0A]"
  by (simp_all add: strparam_def main_text_def handler_line_def decimal_int_def decimal_0)

lemma sample_mem_run:
  "\<exists>s. run_mem sample_args main_text [True, True, True, True, True, False, False, False, False] sample_mem = Inr s \<and>
    logged s = [handler_line 0 (Some (strparam main_text 0))] \<and> pc (sy (prog s)) = CExit"
  by (simp add: sample_mem_def sample_app_def sample_args_def app_client_def app_obtain_def app_send_def app_loop_def
      run_simps obtain_or_new_def obtain_pool_def setParam_def quit_def recycleMsg_def Msg_recycleUnchecked_def
      recycle_calls_def recycled_def msgHandlerFun_def getParam_def Msg_reset_def makeInUse_def isInUse_def
      Msg_new_def FLAGINUSE_def One_nat_def [symmetric] mem_client_def mem_loop_def fresh_param_def allocates_def
      new_calls_def freeMem_def handler_text_def del: One_nat_def)


end
