(* ===== verification/Sample_Input.thy ===== *)
theory Sample_Input
  imports Sample_Memory
begin

text \<open>
  The dialogue at the start of both halves of \<open>main\<close> in \<open>test_looper.cpp\<close>: four numbers read with
  \<open>cin >>\<close>, the third one again and again until it is not negative. The input stream is its characters
  and its two state bits, with the extraction the C++ standard documents: nothing is written when the
  stream is not good or only blanks are left, 0 when no number follows, the nearest value when the number
  does not fit an \<open>int\<close>; in all these cases \<open>failbit\<close> is set and stays set. The loop may run forever:
  then its value is \<open>None\<close>. A variable that was never written is \<open>None\<close> as well.
\<close>

subsection \<open>The stream\<close>

record istream =
  chars :: string
  eofbit :: bool
  failbit :: bool

definition good :: "istream \<Rightarrow> bool" where
  "good s \<longleftrightarrow> \<not> eofbit s \<and> \<not> failbit s"

definition read_int :: "istream \<Rightarrow> int option \<times> istream" where
  "read_int s =
     (if \<not> good s then (None, s\<lparr>failbit := True\<rparr>)
      else
        let cs = dropWhile is_space (chars s) in
        if cs = [] then (None, s\<lparr>chars := [], eofbit := True, failbit := True\<rparr>)
        else
          let ds = (if hd cs \<in> {CHR ''-'', CHR ''+''} then tl cs else cs);
              n = int (digits_value (takeWhile is_digit ds));
              v = (if hd cs = CHR ''-'' then - n else n);
              r = dropWhile is_digit ds;
              s = s\<lparr>chars := r, eofbit := (r = [])\<rparr> in
          if takeWhile is_digit ds = [] then (Some 0, s\<lparr>failbit := True\<rparr>)
          else if v < - (2 ^ 31) then (Some (- (2 ^ 31)), s\<lparr>failbit := True\<rparr>)
          else if 2 ^ 31 \<le> v then (Some (2 ^ 31 - 1), s\<lparr>failbit := True\<rparr>)
          else (Some v, s))"

subsection \<open>The dialogue\<close>

partial_function (option) read_interval :: "int \<Rightarrow> istream \<Rightarrow> (int \<times> istream) option" where
  "read_interval v s =
     (if v < 0 then
        (case read_int s of
           (None, s') \<Rightarrow> read_interval v s'
         | (Some v', s') \<Rightarrow> read_interval v' s')
      else Some (v, s))"

record answers =
  exitWhat :: "int option"
  exitModel :: "int option"
  sleepMicroseconds :: int
  msgPoolSize :: int

text \<open>A variable after an extraction into it.\<close>

definition stored_or :: "int option \<Rightarrow> int option \<Rightarrow> int option" where
  "stored_or w old = (case w of None \<Rightarrow> old | Some x \<Rightarrow> Some x)"

definition main_start :: answers where
  "main_start = \<lparr>exitWhat = None, exitModel = None, sleepMicroseconds = -1, msgPoolSize = 50\<rparr>"

definition dialogue :: "answers \<Rightarrow> istream \<Rightarrow> (answers \<times> istream) option" where
  "dialogue a s =
     (let (n, s) = read_int s;
          (m, s) = read_int s in
      case read_interval (-1) s of
        None \<Rightarrow> None
      | Some (v, s) \<Rightarrow>
          (let (p, s) = read_int s in
           Some (a\<lparr>exitWhat := stored_or n (exitWhat a), exitModel := stored_or m (exitModel a),
               sleepMicroseconds := v, msgPoolSize := the (stored_or p (Some (msgPoolSize a)))\<rparr>, s)))"

text \<open>
  What the two halves of the program make of the answers: how many messages, and how to quit. A negative
  number of messages is never reached by the counter \<open>i\<close>, and reading a variable that was never written is
  undefined.
\<close>

definition to_send :: "answers \<Rightarrow> (nat \<times> bool) res" where
  "to_send a =
     (case (exitWhat a, exitModel a) of
        (Some n, Some m) \<Rightarrow> if n < 0 then Inl Diverge else Inr (nat n, m \<noteq> 0)
      | _ \<Rightarrow> Inl Undefined)"

subsection \<open>Reading numbers\<close>

definition int_range :: "int \<Rightarrow> bool" where
  "int_range v \<longleftrightarrow> - (2 ^ 31) \<le> v \<and> v < 2 ^ 31"

text \<open>Numbers, one per line, behind some blanks.\<close>

definition lines_of :: "int list \<Rightarrow> string" where
  "lines_of vs = concat (map (\<lambda>v. decimal_int v @ [CHR 0x0A]) vs)"

definition typed :: "string \<Rightarrow> int list \<Rightarrow> istream" where
  "typed ws vs = \<lparr>chars = ws @ lines_of vs, eofbit = False, failbit = False\<rparr>"

lemma newline [simp]: "is_space (CHR 0x0A)" "\<not> is_digit (CHR 0x0A)"
  by (simp_all add: is_space_def is_digit_def)

lemma minus [simp]: "\<not> is_space (CHR ''-'')"
  by (simp add: is_space_def)

lemma read_int_typed:
  assumes "\<forall>c\<in>set ws. is_space c" and "int_range v"
  shows "read_int (typed ws (v # vs)) = (Some v, typed [CHR 0x0A] vs)"
proof -
  let ?r = "CHR 0x0A # lines_of vs"
  obtain c cs where c: "decimal (nat \<bar>v\<bar>) = c # cs" "is_digit c" using decimal_Cons by blast
  have take: "takeWhile is_digit (c # cs @ ?r) = c # cs" "dropWhile is_digit (c # cs @ ?r) = ?r"
    using takeWhile_decimal [of ?r "nat \<bar>v\<bar>"] c(1) by simp_all
  have d: "digits_value (c # cs) = nat \<bar>v\<bar>" using decimal_digits [of "nat \<bar>v\<bar>"] c(1) by simp
  have tx: "chars (typed ws (v # vs)) = ws @ decimal_int v @ ?r" by (simp add: typed_def lines_of_def)
  have r: "- (2 ^ 31) \<le> v" "v < 2 ^ 31" using assms(2) by (simp_all add: int_range_def)
  show ?thesis
  proof (cases "v < 0")
    case True
    then have n: "decimal_int v = CHR ''-'' # c # cs" using c(1) by (simp add: decimal_int_def)
    then have "dropWhile is_space (chars (typed ws (v # vs))) = CHR ''-'' # c # cs @ ?r"
      using assms(1) unfolding tx n by (simp add: dropWhile_append2)
    then show ?thesis using take d r True
      by (simp add: read_int_def Let_def good_def) (simp add: typed_def)
  next
    case False
    then have n: "decimal_int v = c # cs" using c(1) by (simp add: decimal_int_def)
    have o: "\<not> is_space c" "c \<noteq> CHR ''-''" "c \<noteq> CHR ''+''" using is_digit_other [OF c(2)] by simp_all
    then have "dropWhile is_space (chars (typed ws (v # vs))) = c # cs @ ?r"
      using assms(1) unfolding tx n by (simp add: dropWhile_append2)
    then show ?thesis using take d r False o
      by (simp add: read_int_def Let_def good_def) (simp add: typed_def)
  qed
qed

lemma read_int_end:
  assumes "\<forall>c\<in>set ws. is_space c"
  shows "fst (read_int (typed ws [])) = None \<and> \<not> good (snd (read_int (typed ws [])))"
proof -
  have "dropWhile is_space (chars (typed ws [])) = []" using assms by (simp add: typed_def lines_of_def)
  then show ?thesis by (simp add: read_int_def good_def typed_def)
qed

lemma read_int_bad: "\<not> good s \<Longrightarrow> read_int s = (None, s\<lparr>failbit := True\<rparr>)"
  by (simp add: read_int_def)

text \<open>Once the stream is not good, a negative value stays and the loop never ends.\<close>

lemma read_interval_stuck:
  assumes "v < 0" and "\<not> good s"
  shows "read_interval v s = None"
proof (rule ccontr)
  assume "read_interval v s \<noteq> None"
  then obtain r where "read_interval v s = Some r" by blast
  then have "v < 0 \<longrightarrow> good s"
  proof (rule read_interval.raw_induct [where P = "\<lambda>v s r. v < 0 \<longrightarrow> good s", rotated])
    fix f :: "int \<Rightarrow> istream \<Rightarrow> (int \<times> istream) option" and v s r
    assume ih: "\<And>v s r. f v s = Some r \<Longrightarrow> v < 0 \<longrightarrow> good s"
      and step: "(if v < 0 then (case read_int s of (None, s') \<Rightarrow> f v s' | (Some v', s') \<Rightarrow> f v' s') else Some (v, s)) = Some r"
    have "read_int s = (None, s\<lparr>failbit := True\<rparr>)" "\<not> good (s\<lparr>failbit := True\<rparr>)" if "\<not> good s"
      using read_int_bad [OF that] by (simp_all add: good_def)
    then show "v < 0 \<longrightarrow> good s" using step ih [of v "s\<lparr>failbit := True\<rparr>" r] by (cases "good s") auto
  qed
  then show False using assms by simp
qed

lemma read_interval_typed:
  assumes "v < 0" and "\<forall>c\<in>set ws. is_space c" and "\<forall>x\<in>set vs. int_range x"
  shows "read_interval v (typed ws vs) =
    (case dropWhile (\<lambda>x. x < 0) vs of [] \<Rightarrow> None | x # rest \<Rightarrow> Some (x, typed [CHR 0x0A] rest))"
  using assms
proof (induction vs arbitrary: v ws)
  case Nil
  obtain w s where "read_int (typed ws []) = (None, s)" "\<not> good s" using read_int_end [OF Nil(2)] by (metis prod.collapse)
  then show ?case using Nil(1) read_interval_stuck by (subst read_interval.simps) simp
next
  case (Cons x vs)
  have "read_int (typed ws (x # vs)) = (Some x, typed [CHR 0x0A] vs)" using Cons.prems by (intro read_int_typed) simp_all
  then have step: "read_interval v (typed ws (x # vs)) = read_interval x (typed [CHR 0x0A] vs)"
    using Cons.prems(1) by (subst read_interval.simps) simp
  show ?case
  proof (cases "x < 0")
    case True
    then show ?thesis using step Cons.IH [of x "[CHR 0x0A]"] Cons.prems(3) by simp
  next
    case False
    then show ?thesis using step by (subst (asm) (2) read_interval.simps) simp
  qed
qed

text \<open>The answer to the last question: the next number, or nothing at the end of the input.\<close>

lemma read_int_next:
  assumes "\<forall>x\<in>set vs. int_range x" and "dropWhile (\<lambda>x. x < 0) vs = v # rest"
  shows "\<exists>s. read_int (typed [CHR 0x0A] rest) = ((case rest of [] \<Rightarrow> None | p # _ \<Rightarrow> Some p), s)"
proof (cases rest)
  case Nil
  then show ?thesis using read_int_end [of "[CHR 0x0A]"] by (metis list.case(1) list.set(1,2) newline(1) prod.collapse empty_iff insert_iff)
next
  case (Cons p more)
  then have "p \<in> set vs" using assms(2) by (metis list.set_intros set_dropWhileD)
  then show ?thesis using Cons assms(1) read_int_typed [of "[CHR 0x0A]" p more] by simp
qed

lemma dialogue_typed:
  assumes r: "\<forall>x\<in>set (n # m # vs). int_range x"
  shows "map_option fst (dialogue a (typed [] (n # m # vs))) =
    (case dropWhile (\<lambda>x. x < 0) vs of
       [] \<Rightarrow> None
     | v # rest \<Rightarrow> Some (a\<lparr>exitWhat := Some n, exitModel := Some m, sleepMicroseconds := v,
         msgPoolSize := (case rest of [] \<Rightarrow> msgPoolSize a | p # _ \<Rightarrow> p)\<rparr>))"
proof -
  let ?nl = "[CHR 0x0A]"
  have 1: "read_int (typed [] (n # m # vs)) = (Some n, typed ?nl (m # vs))" using r by (intro read_int_typed) simp_all
  have 2: "read_int (typed ?nl (m # vs)) = (Some m, typed ?nl vs)" using r by (intro read_int_typed) simp_all
  have 3: "read_interval (-1) (typed ?nl vs) =
    (case dropWhile (\<lambda>x. x < 0) vs of [] \<Rightarrow> None | x # rest \<Rightarrow> Some (x, typed ?nl rest))"
    using r by (intro read_interval_typed) simp_all
  show ?thesis
  proof (cases "dropWhile (\<lambda>x. x < 0) vs")
    case Nil
    then have "read_interval (-1) (typed ?nl vs) = None" using 3 by (simp only: list.case)
    then show ?thesis unfolding Nil by (simp add: dialogue_def 1 2)
  next
    case (Cons v rest)
    from read_int_next [OF _ this] r obtain s where
      "read_int (typed ?nl rest) = ((case rest of [] \<Rightarrow> None | p # _ \<Rightarrow> Some p), s)" by auto
    then show ?thesis using 1 2 3 Cons by (cases rest) (simp_all add: dialogue_def stored_or_def)
  qed
qed

lemma dialogue_bad:
  assumes "\<not> good s"
  shows "dialogue a s = None"
proof -
  have "\<not> good (s\<lparr>failbit := True\<rparr>)" by (simp add: good_def)
  then show ?thesis
    using read_int_bad [OF assms] read_int_bad [of "s\<lparr>failbit := True\<rparr>"] read_interval_stuck [of "-1" "s\<lparr>failbit := True\<rparr>"]
    by (simp add: dialogue_def)
qed

subsection \<open>Both halves of the program\<close>

text \<open>The second dialogue starts with the answers to the first one, and an interval of -1.\<close>

definition main_dialogues :: "istream \<Rightarrow> (answers \<times> answers \<times> istream) option" where
  "main_dialogues s =
     (case dialogue main_start s of
        None \<Rightarrow> None
      | Some (a, s) \<Rightarrow>
          (case dialogue (a\<lparr>sleepMicroseconds := -1\<rparr>) s of
             None \<Rightarrow> None
           | Some (b, s) \<Rightarrow> Some (a, b, s)))"

lemma dialogue_four:
  assumes "\<forall>c\<in>set ws. is_space c" and "\<forall>x\<in>set [n, m, v, p]. int_range x" and "0 \<le> v"
  shows "dialogue a (typed ws (n # m # v # p # vs)) =
    Some (a\<lparr>exitWhat := Some n, exitModel := Some m, sleepMicroseconds := v, msgPoolSize := p\<rparr>, typed [CHR 0x0A] vs)"
proof -
  let ?nl = "[CHR 0x0A]"
  have 1: "read_int (typed ws (n # m # v # p # vs)) = (Some n, typed ?nl (m # v # p # vs))"
    using assms by (intro read_int_typed) simp_all
  have 2: "read_int (typed ?nl (x # xs)) = (Some x, typed ?nl xs)" if "int_range x" for x xs
    using that by (intro read_int_typed) simp_all
  have "read_interval v (typed ?nl (p # vs)) = Some (v, typed ?nl (p # vs))"
    using assms(3) by (subst read_interval.simps) simp
  then have "read_interval (-1) (typed ?nl (v # p # vs)) = Some (v, typed ?nl (p # vs))"
    using 2 [of v] assms(2) by (subst read_interval.simps) simp
  then show ?thesis using 1 2 assms(2) by (simp add: dialogue_def stored_or_def)
qed

text \<open>Eight numbers, one per line: each half gets its own four.\<close>

lemma main_dialogues_typed:
  assumes "\<forall>x\<in>set [n, m, v, p, n', m', v', p']. int_range x" and "0 \<le> v" and "0 \<le> v'"
  shows "main_dialogues (typed [] [n, m, v, p, n', m', v', p']) =
    Some (\<lparr>exitWhat = Some n, exitModel = Some m, sleepMicroseconds = v, msgPoolSize = p\<rparr>,
      \<lparr>exitWhat = Some n', exitModel = Some m', sleepMicroseconds = v', msgPoolSize = p'\<rparr>, typed [CHR 0x0A] [])"
  using assms by (simp add: main_dialogues_def dialogue_four main_start_def)

text \<open>
  From the answers to the log: with a safe quit, a half that has come to its end has printed one line for
  each of the messages that were asked for, in order; with a general quit, the lines of the first ones.
\<close>

lemma half_prints:
  assumes "to_send a = Inr (a_n A, a_safe A)" and "exitWhat a = Some n" and "exitModel a = Some m"
    and "a_free A \<noteq> 0" and "a_handler A \<noteq> 0" and "reach mem_start (mem_step A prefix) s" and "pc (sy (prog s)) = CExit"
  shows "\<exists>k\<le>nat n. logged s = map (\<lambda>i. handler_line (int i) (Some (strparam prefix (int i)))) [0..<k] \<and>
    mem s = Map.empty \<and> (m \<noteq> 0 \<longrightarrow> k = nat n)"
proof -
  have "a_n A = nat n" "a_safe A \<longleftrightarrow> m \<noteq> 0" using assms(1-3) by (auto simp: to_send_def split: if_splits)
  then show ?thesis using reach_mem [OF assms(4-6)] assms(7) by (intro exI [of _ "length (logged s)"]) auto
qed



text \<open>
  A word that is no number is read as 0 once; after it nothing is stored. Typed in answer to the first
  question, it makes the dialogue run forever; typed in answer to the third, the second dialogue does.
\<close>

definition word_first :: istream where
  "word_first = \<lparr>chars = ''x'' @ [CHR 0x0A], eofbit = False, failbit = False\<rparr>"

definition word_third :: istream where
  "word_third = \<lparr>chars = ''3 1 x'' @ [CHR 0x0A], eofbit = False, failbit = False\<rparr>"

lemma dialogue_word_first: "dialogue main_start word_first = None"
proof -
  have "(case read_int word_first of (w, s) \<Rightarrow> w = Some 0 \<and> failbit s)" by code_simp
  then obtain s where s: "read_int word_first = (Some 0, s)" "failbit s" by (auto split: prod.splits)
  then have "\<not> good s" "\<not> good (s\<lparr>failbit := True\<rparr>)" by (simp_all add: good_def)
  then show ?thesis using s read_int_bad [of s] read_interval_stuck [of "-1" "s\<lparr>failbit := True\<rparr>"]
    by (simp add: dialogue_def)
qed

lemma dialogue_word_third:
  "\<exists>a s. dialogue main_start word_third = Some (a, s) \<and> to_send a = Inr (3, True) \<and> dialogue a s = None"
proof -
  have "(case read_int word_third of (w, s) \<Rightarrow> w = Some 3 \<and>
      (case read_int s of (w, s) \<Rightarrow> w = Some 1 \<and> (case read_int s of (w, s) \<Rightarrow> w = Some 0 \<and> failbit s)))"
    by code_simp
  then obtain s1 s2 s3 where s: "read_int word_third = (Some 3, s1)" "read_int s1 = (Some 1, s2)"
    "read_int s2 = (Some 0, s3)" "failbit s3" by (auto split: prod.splits)
  have bad: "\<not> good s3" "\<not> good (s3\<lparr>failbit := True\<rparr>)" using s(4) by (simp_all add: good_def)
  have 0: "read_interval 0 s3 = Some (0, s3)" by (subst read_interval.simps) simp
  have "read_interval (-1) s2 = Some (0, s3)" using s(3) 0 by (subst read_interval.simps) simp
  then have "dialogue main_start word_third = Some (\<lparr>exitWhat = Some 3, exitModel = Some 1,
      sleepMicroseconds = 0, msgPoolSize = 50\<rparr>, s3\<lparr>failbit := True\<rparr>)"
    using s(1,2) read_int_bad [OF bad(1)] by (simp add: dialogue_def main_start_def stored_or_def)
  moreover have "dialogue a (s3\<lparr>failbit := True\<rparr>) = None" for a by (rule dialogue_bad [OF bad(2)])
  ultimately show ?thesis by (simp add: to_send_def)
qed

end
