(* ===== verification/Lock_Platforms.thy ===== *)
theory Lock_Platforms
  imports Conditions
begin

text \<open>
  What the lock wrappers do besides the POSIX locking of \<open>Lock_Guards\<close>: \<open>Mutex\<close> of \<open>inc/os/Mutex.hpp\<close>
  on Windows, where the four types are mutexes of the C++ library, compared with the POSIX branch;
  \<open>TryLockGuard\<close>, a template over any mutex with \<open>tryLock\<close> and \<open>unlock\<close>; and the destructors of
  \<open>Mutex\<close>, \<open>Condition\<close> and \<open>syncondLock\<close>. A mutex of the C++ library is its kind, its holder and the
  depth; what the standard leaves undefined is the fault \<open>Undefined\<close>.
\<close>

subsection \<open>The mutexes of the C++ library\<close>

datatype std_kind = StdMutex | StdRecursive | StdRecursiveTimed

record std_mutex =
  s_kind :: std_kind
  s_holder :: "nat option"
  s_depth :: nat

definition std_lock :: "nat \<Rightarrow> std_mutex \<Rightarrow> std_mutex option res" where
  "std_lock t m =
     (case s_holder m of
        None \<Rightarrow> Inr (Some (m\<lparr>s_holder := Some t, s_depth := 1\<rparr>))
      | Some u \<Rightarrow>
          if u \<noteq> t then Inr None
          else if s_kind m = StdMutex then Inl Undefined
          else Inr (Some (m\<lparr>s_depth := Suc (s_depth m)\<rparr>)))"

definition std_try_lock :: "nat \<Rightarrow> std_mutex \<Rightarrow> (bool \<times> std_mutex) res" where
  "std_try_lock t m =
     (case s_holder m of
        None \<Rightarrow> Inr (True, m\<lparr>s_holder := Some t, s_depth := 1\<rparr>)
      | Some u \<Rightarrow>
          if u \<noteq> t then Inr (False, m)
          else if s_kind m = StdMutex then Inl Undefined
          else Inr (True, m\<lparr>s_depth := Suc (s_depth m)\<rparr>))"

definition std_unlock :: "nat \<Rightarrow> std_mutex \<Rightarrow> std_mutex res" where
  "std_unlock t m =
     (if s_holder m = Some t
      then Inr (if s_depth m \<le> 1 then m\<lparr>s_holder := None, s_depth := 0\<rparr> else m\<lparr>s_depth := s_depth m - 1\<rparr>)
      else Inl Undefined)"

subsection \<open>Mutex on Windows\<close>

record WinMutex =
  wmMutex :: "std_mutex option"
  wmMutexType :: MutexType

definition WinMutex_new :: "MutexType \<Rightarrow> WinMutex" where
  "WinMutex_new type =
     (let k = (if type = PTHREAD_MUTEX_TIMED_NP then StdMutex
               else if type = PTHREAD_MUTEX_ADAPTIVE_NP then StdMutex
               else if type = PTHREAD_MUTEX_RECURSIVE_NP then StdRecursive
               else StdRecursiveTimed)
      in \<lparr>wmMutex = Some \<lparr>s_kind = k, s_holder = None, s_depth = 0\<rparr>, wmMutexType = type\<rparr>)"

text \<open>With a null \<open>mMutex\<close> the operations return at once.\<close>

definition WinMutex_lock :: "nat \<Rightarrow> WinMutex \<Rightarrow> WinMutex option res" where
  "WinMutex_lock t w =
     (case wmMutex w of
        None \<Rightarrow> Inr (Some w)
      | Some m \<Rightarrow> bnd (std_lock t m) (\<lambda>r. Inr (map_option (\<lambda>m. w\<lparr>wmMutex := Some m\<rparr>) r)))"

definition WinMutex_trylock :: "nat \<Rightarrow> WinMutex \<Rightarrow> (int \<times> WinMutex) res" where
  "WinMutex_trylock t w =
     (case wmMutex w of
        None \<Rightarrow> Inr (-1, w)
      | Some m \<Rightarrow> bnd (std_try_lock t m) (\<lambda>(ret, m). Inr (if ret then 0 else -1, w\<lparr>wmMutex := Some m\<rparr>)))"

definition WinMutex_unlock :: "nat \<Rightarrow> WinMutex \<Rightarrow> WinMutex res" where
  "WinMutex_unlock t w =
     (case wmMutex w of
        None \<Rightarrow> Inr w
      | Some m \<Rightarrow> bnd (std_unlock t m) (\<lambda>m. Inr (w\<lparr>wmMutex := Some m\<rparr>)))"

text \<open>The POSIX mutex a Windows mutex stands for.\<close>

definition as_posix :: "WinMutex \<Rightarrow> Mutex" where
  "as_posix w =
     (case wmMutex w of
        None \<Rightarrow> Mutex_new (wmMutexType w)
      | Some m \<Rightarrow> \<lparr>mMutex = \<lparr>kind = kind (mMutex (Mutex_new (wmMutexType w))), holder = s_holder m, depth = s_depth m\<rparr>,
          mMutexType = wmMutexType w\<rparr>)"

definition wm_inv :: "WinMutex \<Rightarrow> bool" where
  "wm_inv w \<longleftrightarrow> (\<exists>m. wmMutex w = Some m \<and> s_kind m = s_kind (the (wmMutex (WinMutex_new (wmMutexType w)))))"

lemmas win_defs = WinMutex_new_def WinMutex_lock_def WinMutex_trylock_def WinMutex_unlock_def as_posix_def
  std_lock_def std_try_lock_def std_unlock_def wm_inv_def
lemmas posix_defs = Mutex_new_def Mutex_lock_def Mutex_trylock_def Mutex_unlock_def pthread_mutex_lock_def
  pthread_mutex_trylock_def pthread_mutex_unlock_def

lemma WinMutex_new_inv: "wm_inv (WinMutex_new ty)" "as_posix (WinMutex_new ty) = Mutex_new ty"
  by (cases ty; simp add: win_defs posix_defs)+

lemma WinMutex_inv:
  assumes "wm_inv w"
  shows "WinMutex_lock t w = Inr (Some w') \<Longrightarrow> wm_inv w'" "WinMutex_unlock t w = Inr w' \<Longrightarrow> wm_inv w'"
    "WinMutex_trylock t w = Inr (i, w') \<Longrightarrow> wm_inv w'"
  using assms by (auto simp: win_defs bnd_eq_Inr_iff split: option.splits if_splits)

text \<open>
  For ERRORCHECK the branches differ: a second lock by its holder nests on Windows; on POSIX it fails
  without a sign, so the next unlock gives the mutex away.
\<close>

lemma errorcheck_differs:
  assumes "wm_inv w" and "wmMutexType w = PTHREAD_MUTEX_ERRORCHECK_NP"
    and "holder (mMutex (as_posix w)) = Some t" and "depth (mMutex (as_posix w)) = 1"
  shows "\<exists>w'. WinMutex_lock t w = Inr (Some w') \<and> depth (mMutex (as_posix w')) = 2"
    and "Mutex_lock t (as_posix w) = Inr (Some (as_posix w))"
    and "\<exists>p. Mutex_unlock t (as_posix w) = Inr p \<and> holder (mMutex p) = None"
proof -
  obtain k where k: "wmMutex w = Some k" "s_kind k = StdRecursiveTimed"
    using assms(1,2) by (auto simp: win_defs)
  show "\<exists>w'. WinMutex_lock t w = Inr (Some w') \<and> depth (mMutex (as_posix w')) = 2"
    and "Mutex_lock t (as_posix w) = Inr (Some (as_posix w))"
    and "\<exists>p. Mutex_unlock t (as_posix w) = Inr p \<and> holder (mMutex p) = None"
    using k assms(2-4) by (simp_all add: win_defs posix_defs)
qed

text \<open>The two branches of Mutex are one mutex where the code uses it properly: with the types TIMED
  and RECURSIVE, locking does the same on Windows as on POSIX whoever holds the mutex, unlocking by
  the holder does, and trying does unless the holder tries a TIMED one.\<close>
theorem mutex_platforms_agree:
  assumes "wm_inv w" and "wmMutexType w \<in> {PTHREAD_MUTEX_TIMED_NP, PTHREAD_MUTEX_RECURSIVE_NP}"
  shows "Mutex_lock t (as_posix w) =
      (case WinMutex_lock t w of Inl f \<Rightarrow> Inl f | Inr r \<Rightarrow> Inr (map_option as_posix r)) \<and>
    (holder (mMutex (as_posix w)) = Some t \<longrightarrow>
      Mutex_unlock t (as_posix w) = (case WinMutex_unlock t w of Inl f \<Rightarrow> Inl f | Inr r \<Rightarrow> Inr (as_posix r))) \<and>
    (wmMutexType w = PTHREAD_MUTEX_RECURSIVE_NP \<or> holder (mMutex (as_posix w)) \<noteq> Some t \<longrightarrow>
      (\<exists>i r. WinMutex_trylock t w = Inr (i, r) \<and> Mutex_trylock t (as_posix w) = (i, as_posix r)))"
proof -
  obtain m where m: "wmMutex w = Some m" "s_kind m = s_kind (the (wmMutex (WinMutex_new (wmMutexType w))))"
    using assms(1) by (auto simp: wm_inv_def)
  have "Mutex_lock t (as_posix w) =
      (case WinMutex_lock t w of Inl f \<Rightarrow> Inl f | Inr r \<Rightarrow> Inr (map_option as_posix r))"
    using m assms(2) by (cases "s_holder m") (auto simp: win_defs posix_defs)
  moreover have "holder (mMutex (as_posix w)) = Some t \<longrightarrow>
      Mutex_unlock t (as_posix w) = (case WinMutex_unlock t w of Inl f \<Rightarrow> Inl f | Inr r \<Rightarrow> Inr (as_posix r))"
    using m assms(2) by (auto simp: win_defs posix_defs)
  moreover have "wmMutexType w = PTHREAD_MUTEX_RECURSIVE_NP \<or> holder (mMutex (as_posix w)) \<noteq> Some t \<longrightarrow>
      (\<exists>i r. WinMutex_trylock t w = Inr (i, r) \<and> Mutex_trylock t (as_posix w) = (i, as_posix r))"
    using m assms(2) by (cases "s_holder m") (auto simp: win_defs posix_defs EBUSY_def)
  ultimately show ?thesis by blast
qed

theorem mutex_platforms_agree_witness:
  "Mutex_lock 3 (Mutex_new PTHREAD_MUTEX_RECURSIVE_NP) =
    (case WinMutex_lock 3 (WinMutex_new PTHREAD_MUTEX_RECURSIVE_NP) of
       Inl f \<Rightarrow> Inl f | Inr r \<Rightarrow> Inr (map_option as_posix r))"
proof -
  have "wmMutexType (WinMutex_new PTHREAD_MUTEX_RECURSIVE_NP) \<in> {PTHREAD_MUTEX_TIMED_NP, PTHREAD_MUTEX_RECURSIVE_NP}"
    by (simp add: WinMutex_new_def)
  from mutex_platforms_agree [OF WinMutex_new_inv(1) this, of 3] show ?thesis by (simp add: WinMutex_new_inv(2))
qed

subsection \<open>TryLockGuard\<close>

text \<open>
  The template asks its mutex for \<open>tryLock\<close>, with a result that is tested as a truth value, and for
  \<open>unlock\<close>. \<open>Mutex\<close> has no \<open>tryLock\<close>; its \<open>trylock\<close> answers 0 for success.
\<close>

record 'm trylock_guard =
  mIsLocked :: bool
  tgMutex :: 'm

definition TryLockGuard_new :: "('m \<Rightarrow> bool \<times> 'm) \<Rightarrow> 'm \<Rightarrow> 'm trylock_guard" where
  "TryLockGuard_new tryLock m = (let (b, m) = tryLock m in \<lparr>mIsLocked = b, tgMutex = m\<rparr>)"

definition TryLockGuard_delete :: "('m \<Rightarrow> 'm res) \<Rightarrow> 'm trylock_guard \<Rightarrow> 'm res" where
  "TryLockGuard_delete unlck g = (if mIsLocked g then unlck (tgMutex g) else Inr (tgMutex g))"

definition isLocked :: "'m trylock_guard \<Rightarrow> bool" where
  "isLocked g = mIsLocked g"

locale try_lockable =
  fixes tryLock :: "'m \<Rightarrow> bool \<times> 'm"
    and unlck :: "'m \<Rightarrow> 'm res"
  assumes try_fails: "tryLock m = (False, m') \<Longrightarrow> m' = m"
    and try_locks: "tryLock m = (True, m') \<Longrightarrow> \<exists>m''. unlck m' = Inr m'' \<and> m'' = m"
begin

lemma try_guard_restores: "TryLockGuard_delete unlck (TryLockGuard_new tryLock m) = Inr m"
proof (cases "tryLock m")
  case (Pair b m')
  then show ?thesis using try_fails [of m m'] try_locks [of m m']
    by (cases b) (auto simp: TryLockGuard_new_def TryLockGuard_delete_def)
qed

end

text \<open>A mutex of this repository that is free, or held by the thread and recursive, under a \<open>tryLock\<close>
  that reads the answer of \<open>trylock\<close> rightly.\<close>

definition sound_try :: "nat \<Rightarrow> Mutex \<Rightarrow> bool \<times> Mutex" where
  "sound_try t m =
     (let (i, m') = Mutex_trylock t m in
      if i = 0 \<and> (holder (mMutex m) = None \<longrightarrow> depth (mMutex m) = 0) \<and>
        (holder (mMutex m) \<noteq> None \<longrightarrow> 0 < depth (mMutex m)) then (True, m') else (False, m))"

interpretation tryg: try_lockable "sound_try t" "Mutex_unlock t" for t
proof (unfold_locales, goal_cases)
  case (1 m m')
  then show ?case by (auto simp: sound_try_def split: prod.splits if_splits)
next
  case (2 m m')
  then show ?case
    by (cases "holder (mMutex m)")
      (auto simp: sound_try_def posix_defs EBUSY_def Let_def split: prod.splits if_splits)
qed

lemma TryLockGuard_restores: "TryLockGuard_delete (Mutex_unlock t) (TryLockGuard_new (sound_try t) m) = Inr m"
  by (rule tryg.try_guard_restores)

text \<open>
  Were \<open>tryLock\<close> just another name of \<open>trylock\<close>, its 0 would read as false: the guard would take a free
  mutex, believe that it has not, and never give it back.
\<close>

lemma renamed_trylock_leaks:
  assumes "holder (mMutex m) = None"
  shows "\<exists>m'. TryLockGuard_delete (Mutex_unlock t)
      (TryLockGuard_new (\<lambda>m. let (i, m) = Mutex_trylock t m in (i \<noteq> 0, m)) m) = Inr m' \<and>
    holder (mMutex m') = Some t"
  using assms by (auto simp: TryLockGuard_new_def TryLockGuard_delete_def posix_defs Let_def)

subsection \<open>Destructors\<close>

definition Condition_notify :: "Condition \<Rightarrow> int res" where
  "Condition_notify c = (if mCondInit c then Inr 0 else Inl Undefined)"

definition Condition_getMutex :: "Condition \<Rightarrow> mutex_ptr" where
  "Condition_getMutex c = cMutex c"

definition Condition_delete :: "nat \<Rightarrow> Condition \<Rightarrow> unit res" where
  "Condition_delete waiters c =
     (if \<not> mCondInit c \<or> 0 < waiters then Inl Undefined
      else if mIsSelfMutex c then
        (case cMutex c of MPtr m \<Rightarrow> Mutex_delete m | MNull \<Rightarrow> Inr () | MUninit \<Rightarrow> Inl Undefined)
      else Inr ())"

text \<open>A condition with its own mutex cleans up after itself, one on a recursive mutex does not.\<close>

lemma Condition_new_delete: "Condition_delete 0 Condition_new = Inr ()"
  by (simp add: Condition_delete_def Condition_new_def Mutex_delete_def Mutex_new_def)

lemma Condition_of_delete:
  "Condition_delete 0 (Condition_of (Some m)) = (if waitable (getMutexType m) then Inr () else Inl Undefined)"
  "Condition_delete 0 (Condition_of None) = Inr ()"
  by (simp_all add: Condition_delete_def Condition_of_def)

text \<open>
  The gate is reset and, when it made its condition itself, the condition is deleted. The callers that
  wait at the gate are woken by the reset but have not left \<open>wait\<close> yet: each of them still uses the
  condition when it is deleted.
\<close>

definition syncondLock_delete :: "bool \<Rightarrow> Condition \<Rightarrow> syncondLock \<Rightarrow> syncondLock res" where
  "syncondLock_delete mSelfCondVal c g =
     (let g = gate_reset g in
      if mSelfCondVal then bnd (Condition_delete (gNotified g) c) (\<lambda>_. Inr g) else Inr g)"

lemma gate_delete_idle:
  "gWaiting g = 0 \<Longrightarrow> gNotified g = 0 \<Longrightarrow> ok (syncondLock_delete True Condition_new g)"
  by (simp add: syncondLock_delete_def gate_reset_def Condition_new_delete)

lemma gate_delete_waiters:
  "0 < gWaiting g \<Longrightarrow> syncondLock_delete True c g = Inl Undefined"
  by (simp add: syncondLock_delete_def gate_reset_def Condition_delete_def)

end
