(* ===== verification/Wait_Platforms.thy ===== *)
theory Wait_Platforms
  imports Lock_Platforms
begin

text \<open>
  Waiting on the other systems: \<open>Condition::wait\<close> on Windows, which locks the mutex it is given with a
  \<open>std::unique_lock\<close> of its own and unlocks it before it returns, and the Windows and Apple branches of
  \<open>Semaphore\<close>. As on Linux, what a system call answers is an argument.
\<close>

subsection \<open>Condition::wait on Windows\<close>

datatype win_call = WinReturns int | WinBlocked | WinSleep "int option"

text \<open>
  Up to the call that sleeps: for ever, or for a number of microseconds. \<open>mutex\<close> is the argument, \<open>own\<close>
  the member, \<open>t\<close> the calling thread.
\<close>

definition WinCondition_wait ::
  "nat \<Rightarrow> WinMutex option \<Rightarrow> WinMutex option \<Rightarrow> int \<Rightarrow> bool \<Rightarrow> win_call res" where
  "WinCondition_wait t mutex own millisecond timeout =
     (case (if mutex \<noteq> None then mutex else own) of
        None \<Rightarrow> Inr (WinReturns (-1))
      | Some pmutex \<Rightarrow>
          if \<not> waitable (wmMutexType pmutex) then Inr (WinReturns (-1))
          else if timeout \<and> millisecond < 0 then Inr (WinReturns (-1))
          else if millisecond = 0 then Inr (WinReturns 0)
          else
            (case wmMutex pmutex of
               None \<Rightarrow> Inl NullDeref
             | Some m \<Rightarrow>
                 bnd (std_lock t m) (\<lambda>lck.
                   case lck of
                     None \<Rightarrow> Inr WinBlocked
                   | Some _ \<Rightarrow> Inr (WinSleep (if millisecond < 0 then None else Some millisecond)))))"

text \<open>What it answers once the sleep is over; \<open>notified\<close> tells \<open>no_timeout\<close> from \<open>timeout\<close>.\<close>

definition WinCondition_answer :: "int \<Rightarrow> bool \<Rightarrow> bool \<Rightarrow> int" where
  "WinCondition_answer millisecond timeout notified =
     (if millisecond < 0 then 0
      else if timeout then (if notified then 0 else -1)
      else if notified \<or> \<not> notified then 1 else 0)"

lemma WinCondition_wait_free:
  assumes "wmMutex w = Some m" and "s_holder m = None" and "waitable (wmMutexType w)" and "ms \<noteq> 0"
  shows "WinCondition_wait t (Some w) own ms False = Inr (WinSleep (if ms < 0 then None else Some ms))"
  using assms by (simp add: WinCondition_wait_def std_lock_def)

text \<open>
  POSIX wants the caller to hold the mutex; here a caller that holds it locks a \<open>std::mutex\<close> twice. A
  timeout is a number of milliseconds there and of microseconds here; and a wait that is not asked to
  report its timeout answers 1, the truth of \<open>no_timeout || timeout\<close>, where POSIX answers an error.
\<close>

lemma WinCondition_wait_held:
  assumes "wm_inv w" and "holder (mMutex (as_posix w)) = Some t" and "waitable (wmMutexType w)" and "ms \<noteq> 0"
  shows "WinCondition_wait t (Some w) own ms False = Inl Undefined"
    and "ms < 0 \<Longrightarrow> Condition_wait now usec (Some (as_posix w)) ms False Condition_new = Inr (Forever (as_posix w))"
proof -
  obtain k where k: "wmMutex w = Some k" "s_kind k = StdMutex"
    using assms(1,3) by (auto simp: wm_inv_def waitable_def WinMutex_new_def)
  with assms(2) have h: "s_holder k = Some t" by (simp add: as_posix_def)
  show "WinCondition_wait t (Some w) own ms False = Inl Undefined"
    using assms(3,4) k h by (simp add: WinCondition_wait_def std_lock_def)
  have ty: "mMutexType (as_posix w) = wmMutexType w" using k by (simp add: as_posix_def)
  show "ms < 0 \<Longrightarrow> Condition_wait now usec (Some (as_posix w)) ms False Condition_new = Inr (Forever (as_posix w))"
    using assms(3) ty by (simp add: Condition_wait_def Condition_new_def getMutexType_def)
qed

text \<open>So the gate of \<open>syncondLock\<close> is undefined on Windows as soon as a caller finds it closed.\<close>

definition win_runTask :: "nat \<Rightarrow> WinMutex \<Rightarrow> syncondLock \<Rightarrow> (win_call + syncondLock) option res" where
  "win_runTask t own s =
     bnd (WinMutex_lock t own) (\<lambda>r.
       case r of
         None \<Rightarrow> Inr None
       | Some own \<Rightarrow>
           if \<not> mEnable s then bnd (WinCondition_wait t None (Some own) (-1) False) (\<lambda>c. Inr (Some (Inl c)))
           else bnd (WinMutex_unlock t own) (\<lambda>_. Inr (Some (Inr (s\<lparr>gRan := Suc (gRan s), mEnable := False\<rparr>)))))"

lemma win_gate:
  "win_runTask t (WinMutex_new PTHREAD_MUTEX_TIMED_NP) s =
    (if mEnable s then Inr (Some (Inr (runTask s))) else Inl Undefined)"
  by (simp add: win_runTask_def win_defs std_lock_def std_unlock_def WinCondition_wait_def waitable_def runTask_def)

subsection \<open>Semaphores on Windows and Apple\<close>

datatype sem_os = SemWindows | SemApple

definition LONG_MAX :: int where "LONG_MAX = 2 ^ 31 - 1"

text \<open>\<open>None\<close> is the exit of the process: the system refuses the initial count.\<close>

definition os_Semaphore_new :: "sem_os \<Rightarrow> int \<Rightarrow> Semaphore option" where
  "os_Semaphore_new os initCount =
     (if initCount < 0 \<or> os = SemWindows \<and> LONG_MAX < initCount then None
      else Some \<lparr>mSemaphore = nat initCount, sCount = word_of_int initCount\<rparr>)"

text \<open>The wait of the system; its answer is 0 only when a permit was taken.\<close>

definition os_take :: "answer \<Rightarrow> Semaphore \<Rightarrow> (bool \<times> Semaphore) option" where
  "os_take a s =
     (case a of
        Taken \<Rightarrow> if mSemaphore s = 0 then None
                 else Some (True, s\<lparr>mSemaphore := mSemaphore s - 1\<rparr>)
      | _ \<Rightarrow> Some (False, s))"

definition count_taken :: "bool \<times> Semaphore \<Rightarrow> bool \<times> Semaphore" where
  "count_taken r = (fst r, if fst r then (snd r)\<lparr>sCount := sCount (snd r) - 1\<rparr> else snd r)"

text \<open>
  \<open>wait(void)\<close>: Windows repeats whatever is no \<open>WAIT_OBJECT_0\<close>; Apple's call without a timeout only
  returns with a permit.
\<close>

primrec os_wait_void :: "answer list \<Rightarrow> Semaphore \<Rightarrow> (bool \<times> Semaphore) option" where
  "os_wait_void [] s = None"
| "os_wait_void (a # as) s =
     (case os_take a s of
        None \<Rightarrow> None
      | Some (rc, s) \<Rightarrow> if \<not> rc then os_wait_void as s else Some (True, s\<lparr>sCount := sCount s - 1\<rparr>))"

definition os_wait_ms :: "answer \<Rightarrow> Semaphore \<Rightarrow> (bool \<times> Semaphore) option" where
  "os_wait_ms a s = map_option count_taken (os_take a s)"

definition os_tryWait :: "Semaphore \<Rightarrow> bool \<times> Semaphore" where
  "os_tryWait s = count_taken (if mSemaphore s = 0 then (False, s) else (True, s\<lparr>mSemaphore := mSemaphore s - 1\<rparr>))"

text \<open>
  \<open>ReleaseSemaphore\<close> takes a signed count, at least 1, and refuses to exceed the maximum; the counter
  has been raised already.
\<close>

definition os_post :: "sem_os \<Rightarrow> 32 word \<Rightarrow> Semaphore \<Rightarrow> bool \<times> Semaphore" where
  "os_post os count s =
     (if count = 0 then (True, s)
      else
        let s = s\<lparr>sCount := sCount s + count\<rparr> in
        case os of
          SemWindows \<Rightarrow>
            if 0 < sint count \<and> int (mSemaphore s) + sint count \<le> LONG_MAX
            then (True, s\<lparr>mSemaphore := mSemaphore s + nat (sint count)\<rparr>) else (False, s)
        | SemApple \<Rightarrow> (True, sem_posts (unat count) s))"

definition os_getValue :: "Semaphore \<Rightarrow> int" where
  "os_getValue s = sint (sCount s)"

definition os_call :: "sem_os \<Rightarrow> sem_op \<Rightarrow> Semaphore \<Rightarrow> (bool \<times> Semaphore) option" where
  "os_call os op s =
     (case op of
        SWait as \<Rightarrow> os_wait_void as s
      | SWaitMs ms a \<Rightarrow> os_wait_ms a s
      | STry \<Rightarrow> Some (os_tryWait s)
      | SPost n \<Rightarrow> Some (os_post os n s))"

subsection \<open>The counter is the value\<close>

definition sem_exact :: "Semaphore \<Rightarrow> bool" where
  "sem_exact s \<longleftrightarrow> sCount s = word_of_nat (mSemaphore s)"

lemma os_take_exact:
  assumes "os_take a s = Some (b, s')" and "sem_exact s"
  shows "if b then sem_exact (s'\<lparr>sCount := sCount s' - 1\<rparr>) else s' = s"
  using assms
  by (cases a; cases "mSemaphore s") (auto simp: os_take_def sem_exact_def split: if_splits)

lemma os_wait_void_exact:
  "os_wait_void as s = Some (b, s') \<Longrightarrow> sem_exact s \<Longrightarrow> b \<and> sem_exact s'"
proof (induction as arbitrary: s)
  case (Cons a as)
  then obtain rc t where t: "os_take a s = Some (rc, t)" by (auto split: option.splits)
  from os_take_exact [OF this Cons.prems(2)] Cons t show ?case by (cases rc) auto
qed simp

lemma os_post_exact:
  assumes "sem_exact s"
  shows "os_post os n s = (b, s') \<Longrightarrow> b \<Longrightarrow> sem_exact s'"
proof -
  have n: "0 < sint n \<Longrightarrow> word_of_nat (nat (sint n)) = n" by simp
  show "os_post os n s = (b, s') \<Longrightarrow> b \<Longrightarrow> sem_exact s'"
    using assms n
    by (auto simp: os_post_def sem_exact_def sem_posts_fields Let_def split: if_splits sem_os.splits)
qed

text \<open>
  A call keeps the counter equal to the number of permits, unless it is a post that Windows refuses:
  that raises the counter and adds no permit. On Linux an interrupted wait breaks it.
\<close>

lemma os_call_exact:
  assumes "os_call os op s = Some (b, s')" and "sem_exact s"
  shows "sem_exact s' \<or> (\<exists>n. op = SPost n \<and> os = SemWindows \<and> \<not> b \<and> mSemaphore s' = mSemaphore s)"
proof (cases op)
  case (SWait as)
  then show ?thesis using assms os_wait_void_exact by (auto simp: os_call_def)
next
  case (SWaitMs ms a)
  then obtain c t where t: "os_take a s = Some (c, t)" "s' = snd (count_taken (c, t))"
    using assms(1) by (auto simp: os_call_def os_wait_ms_def)
  show ?thesis using os_take_exact [OF t(1) assms(2)] t(2) assms(2) by (cases c) (auto simp: count_taken_def)
next
  case STry
  then show ?thesis using assms
    by (cases "mSemaphore s") (auto simp: os_call_def os_tryWait_def count_taken_def sem_exact_def)
next
  case (SPost n)
  then have p: "os_post os n s = (b, s')" using assms(1) by (simp add: os_call_def)
  show ?thesis
  proof (cases b)
    case True
    then show ?thesis using os_post_exact [OF assms(2) p] by simp
  next
    case False
    then show ?thesis using p SPost
      by (auto simp: os_post_def Let_def split: if_splits sem_os.splits)
  qed
qed

lemma os_new_exact: "os_Semaphore_new os n = Some s \<Longrightarrow> sem_exact s"
  by (auto simp: os_Semaphore_new_def sem_exact_def split: if_splits)

lemma os_post_refused:
  "os_post SemWindows 1 \<lparr>mSemaphore = nat LONG_MAX, sCount = word_of_int LONG_MAX\<rparr> =
    (False, \<lparr>mSemaphore = nat LONG_MAX, sCount = word_of_int (- (2 ^ 31))\<rparr>)"
  by (simp add: os_post_def LONG_MAX_def)

text \<open>Without a permit, \<open>wait(0)\<close> says true on Linux and false on the other systems.\<close>

lemma wait_zero_differs:
  "mSemaphore s = 0 \<Longrightarrow> wait_ms 0 a s = Some (True, s) \<and> os_wait_ms TimedOut s = Some (False, s)"
  by (simp add: wait_ms_def os_wait_ms_def os_take_def count_taken_def)

definition Semaphore_delete :: "nat \<Rightarrow> Semaphore \<Rightarrow> unit res" where
  "Semaphore_delete waiters s = (if 0 < waiters then Inl Undefined else Inr ())"

end
