(* ===== verification/Looper_Windows.thy ===== *)
theory Looper_Windows
  imports Msg_Looper Wait_Platforms
begin

text \<open>
  \<open>MsgQueue::next\<close> on Windows. \<open>Condition::wait\<close> locks the mutex itself there, so \<open>next\<close> unlocks \<open>mLock\<close>
  before it waits and locks it again behind the wait: it reads \<open>mBlocked\<close>, and goes to sleep, in
  sections of their own. Clients and the queue are those of \<open>Msg_Looper\<close>; only the positions of the loop
  thread differ. What it does outside \<open>next\<close> is \<open>consumer_step\<close>, on the state as that function knows it
  (\<open>view\<close>).
\<close>

datatype wnpc =
    WLoop
  | WTop int
  | WTest
  | WWait int
  | WSleep int nat
  | WRelock int
  | WHave ptr
  | WExit

record winsys =
  wS :: sys
  wPos :: wnpc

fun pos_pc :: "wnpc \<Rightarrow> cpc" where
  "pos_pc WLoop = CLoop"
| "pos_pc (WHave p) = CHave p"
| "pos_pc WExit = CExit"
| "pos_pc _ = CTop 0"

fun pc_pos :: "cpc \<Rightarrow> wnpc" where
  "pc_pos CLoop = WLoop"
| "pc_pos (CHave p) = WHave p"
| "pc_pos (CTop t) = WTop t"
| "pc_pos _ = WExit"

definition view :: "winsys \<Rightarrow> sys" where
  "view s = (wS s)\<lparr>pc := pos_pc (wPos s)\<rparr>"

definition unview :: "sys \<Rightarrow> winsys" where
  "unview t = \<lparr>wS = t, wPos = pc_pos (pc t)\<rparr>"

text \<open>A broadcast reaches the threads that sleep, which is why \<open>WSleep\<close> remembers their number.\<close>

definition win_next :: "winsys \<Rightarrow> winsys res" where
  "win_next s =
     (let q = que (wS s) in
      case wPos s of
        WTop t \<Rightarrow>
          if mQuit q then Inr (s\<lparr>wPos := WExit\<rparr>)
          else (let t = (if mNotEnqueMsg q then 0 else t) in
                Inr (s\<lparr>wPos := (if t = -1 then WTest else WWait t)\<rparr>))
      | WTest \<Rightarrow> Inr (s\<lparr>wPos := (if mBlocked q then WWait (-1) else WRelock (-1))\<rparr>)
      | WWait t \<Rightarrow> Inr (s\<lparr>wPos := (if t = 0 then WRelock 0 else WSleep t (mWait q))\<rparr>)
      | WSleep t _ \<Rightarrow> Inr (s\<lparr>wPos := (if t = -1 then WTest else WRelock t)\<rparr>)
      | WRelock t \<Rightarrow>
          bnd (after_scan (if t = -1 then next_scan (clock (wS s)) t q else next_timed (clock (wS s)) t q) (view s))
            (\<lambda>t. Inr (unview t))
      | _ \<Rightarrow> bnd (consumer_step (view s)) (\<lambda>t. Inr (unview t)))"

definition win_client :: "cop \<Rightarrow> winsys \<Rightarrow> winsys res" where
  "win_client op s = bnd (client_op op (view s)) (\<lambda>t. Inr (s\<lparr>wS := t\<rparr>))"

inductive win_sys_step :: "winsys \<Rightarrow> winsys res \<Rightarrow> bool" where
  consumer: "win_sys_step s (win_next s)"
| client: "allowed op (view s) \<Longrightarrow> win_sys_step s (win_client op s)"

definition win_start :: "winsys \<Rightarrow> bool" where
  "win_start s \<longleftrightarrow> (\<exists>name n now. 0 \<le> n \<and> s = \<lparr>wS = sys_init name n now, wPos = WLoop\<rparr>)"

text \<open>\<open>WWait\<close> is the decision of \<open>Condition::wait\<close> when nobody else holds \<open>mLock\<close>.\<close>

lemma WWait_is_wait:
  "WinCondition_wait t (Some (WinMutex_new PTHREAD_MUTEX_TIMED_NP)) own ms False =
    Inr (if ms = 0 then WinReturns 0 else WinSleep (if ms < 0 then None else Some ms))"
  by (simp add: WinCondition_wait_def WinMutex_new_def waitable_def std_lock_def)

subsection \<open>No fault, and nothing early\<close>

definition winv :: "winsys \<Rightarrow> bool" where
  "winv s \<longleftrightarrow> sys_inv (view s)"

definition at_rest :: "cpc \<Rightarrow> bool" where
  "at_rest c \<longleftrightarrow> c = CLoop \<or> c = CExit \<or> (\<exists>t. c = CTop t)"

lemma sys_inv_at_rest: "sys_inv (s\<lparr>pc := c\<rparr>) \<Longrightarrow> at_rest c \<Longrightarrow> at_rest d \<Longrightarrow> sys_inv (s\<lparr>pc := d\<rparr>)"
  by (auto simp: sys_inv_def pc_inv_def live_at_def at_rest_def)

lemma view_simps [simp]:
  "que (view s) = que (wS s)" "clock (view s) = clock (wS s)" "pc (view s) = pos_pc (wPos s)"
  "held (view s) = held (wS s)" "delivered (view s) = delivered (wS s)" "mExit (view s) = mExit (wS s)"
  by (simp_all add: view_def)

lemma pc_of_scan: "after_scan r s = Inr t \<Longrightarrow> pc t = CExit \<or> (\<exists>p. pc t = CHave p) \<or> (\<exists>k. pc t = CTop k)"
proof -
  assume "after_scan r s = Inr t"
  then obtain out q where r: "r = Inr (out, q)" "after_scan (Inr (out, q)) s = Inr t"
    by (cases r) (auto simp: after_scan_def)
  then show ?thesis by (cases out) (auto simp: after_scan_def bnd_eq_Inr_iff split: if_splits)
qed

lemma winv_unview:
  assumes "sys_inv t" and "pc t = CExit \<or> pc t = CLoop \<or> (\<exists>p. pc t = CHave p) \<or> (\<exists>k. pc t = CTop k)"
  shows "winv (unview t)"
proof -
  have e: "t\<lparr>pc := pc t\<rparr> = t" by simp
  have "sys_inv (t\<lparr>pc := CTop 0\<rparr>)" if "\<exists>k. pc t = CTop k"
    using sys_inv_at_rest [where s = t and c = "pc t" and d = "CTop 0"] assms(1) that unfolding e by (auto simp: at_rest_def)
  moreover have "sys_inv (t\<lparr>pc := pos_pc (pc_pos (pc t))\<rparr>)" if "\<nexists>k. pc t = CTop k"
  proof -
    have "pos_pc (pc_pos (pc t)) = pc t" using assms(2) that by auto
    with assms(1) e show ?thesis by simp
  qed
  ultimately show ?thesis by (cases "\<exists>k. pc t = CTop k") (auto simp: winv_def view_def unview_def)
qed

lemma winv_move:
  "winv s \<Longrightarrow> at_rest (pos_pc (wPos s)) \<Longrightarrow> at_rest (pos_pc w) \<Longrightarrow> winv (s\<lparr>wPos := w\<rparr>)"
  using sys_inv_at_rest [where s = "wS s" and c = "pos_pc (wPos s)" and d = "pos_pc w"] by (simp add: winv_def view_def)

lemma win_next_inv:
  assumes inv: "winv s"
  shows "\<exists>s'. win_next s = Inr s' \<and> winv s'"
proof -
  have v: "sys_inv (view s)" using inv by (simp add: winv_def)
  have turn: "\<exists>s'. bnd (consumer_step (view s)) (\<lambda>t. Inr (unview t)) = Inr s' \<and> winv s'"
    if p: "wPos s = WLoop \<or> wPos s = WExit \<or> (\<exists>p. wPos s = WHave p)"
  proof -
    obtain t where t: "consumer_step (view s) = Inr t" "sys_inv t" using consumer_step_inv [OF v] by blast
    have "pc t = CExit \<or> pc t = CLoop \<or> (\<exists>p. pc t = CHave p) \<or> (\<exists>k. pc t = CTop k)"
      using t(1) p by (auto simp: consumer_step_def bnd_eq_Inr_iff split: if_splits)
    with winv_unview [OF t(2)] t(1) show ?thesis by simp
  qed
  show ?thesis
  proof (cases "wPos s")
    case (WRelock t)
    let ?r = "if t = -1 then next_scan (clock (wS s)) t (que (wS s)) else next_timed (clock (wS s)) t (que (wS s))"
    have "?r = next_scan (clock (view s)) t (que (view s)) \<or> ?r = Inr (NReturn 0, que (view s))"
      by (simp add: next_timed_def)
    from after_scan_inv [OF v _ this] obtain u where u: "after_scan ?r (view s) = Inr u" "sys_inv u"
      using WRelock by (auto simp: live_at_def)
    from winv_unview [OF u(2)] pc_of_scan [OF u(1)] u(1) WRelock show ?thesis by (auto simp: win_next_def)
  qed (use turn winv_move [OF inv] in \<open>auto simp: win_next_def at_rest_def Let_def\<close>)
qed

lemma client_op_pc: "client_op op s = Inr t \<Longrightarrow> pc t = pc s"
  by (cases op) (auto simp: client_op_def bnd_eq_Inr_iff Let_def split: prod.splits if_splits)

lemma win_client_inv: "winv s \<Longrightarrow> allowed op (view s) \<Longrightarrow> \<exists>s'. win_client op s = Inr s' \<and> winv s'"
proof -
  assume "winv s" and al: "allowed op (view s)"
  then obtain t where t: "client_op op (view s) = Inr t" "sys_inv t"
    using client_op_inv [of "view s" op] by (auto simp: winv_def)
  have "view (s\<lparr>wS := t\<rparr>) = t" using client_op_pc [OF t(1)] by (simp add: view_def)
  with t show ?thesis by (simp add: win_client_def winv_def)
qed

interpretation wlp: safe_system win_start win_sys_step winv
proof (unfold_locales, goal_cases)
  case (1 s)
  then obtain name n now where s: "0 \<le> n" "s = \<lparr>wS = sys_init name n now, wPos = WLoop\<rparr>"
    by (auto simp: win_start_def)
  then have "view s = sys_init name n now" by (simp add: view_def sys_init_def)
  with sys_inv_init [OF s(1)] show ?case by (simp add: winv_def)
next
  case (2 s r)
  from 2(2,1) show ?case by cases (auto dest: win_next_inv win_client_inv)
qed


subsection \<open>A lost wakeup\<close>

primrec run_win :: "cop option list \<Rightarrow> winsys \<Rightarrow> winsys res" where
  "run_win [] s = Inr s"
| "run_win (x # xs) s =
     (case x of
        None \<Rightarrow> bnd (win_next s) (run_win xs)
      | Some op \<Rightarrow> if allowed op (view s) then bnd (win_client op s) (run_win xs) else Inl AssertFail)"

lemma win_sys_stepI:
  "win_next s = Inr t \<Longrightarrow> win_sys_step s (Inr t)"
  "allowed op (view s) \<Longrightarrow> win_client op s = Inr t \<Longrightarrow> win_sys_step s (Inr t)"
  by (metis win_sys_step.intros)+

lemma run_win_reach:
  "run_win xs s = Inr s' \<Longrightarrow> reach win_start win_sys_step s \<Longrightarrow> reach win_start win_sys_step s'"
proof (induction xs arbitrary: s)
  case (Cons x xs)
  then obtain t where t: "win_sys_step s (Inr t)" "run_win xs t = Inr s'"
    by (cases x) (auto simp: bnd_eq_Inr_iff split: if_splits intro: win_sys_stepI)
  from Cons.IH [OF t(2) reach_step [OF Cons.prems(2) t(1)]] show ?case .
qed simp

definition win_init :: winsys where
  "win_init = \<lparr>wS = sys_init ''q'' 9 1, wPos = WLoop\<rparr>"

text \<open>The loop thread reads \<open>mBlocked\<close>; a client sends, or quits; the loop thread goes to sleep.\<close>

definition lost_send :: "cop option list" where
  "lost_send = [None, None, None, Some OpNew, Some (OpWrite 1 idle_msg), Some (OpEnqueue 1 1), None]"

definition lost_quit :: "cop option list" where
  "lost_quit = [None, None, None, Some (OpQuitQueue True), Some (OpQuitFlags True), None]"

lemmas win_run_simps = win_init_def win_next_def win_client_def view_def unview_def run_simps

lemma lost_send_run:
  "\<exists>s. run_win lost_send win_init = Inr s \<and> wPos s = WSleep (-1) 1 \<and> mWait (que (wS s)) = 1 \<and>
    clock (wS s) = 1 \<and> waiting (que (wS s)) = [1] \<and> qwhen (que (wS s)) 1 = 1"
  by (simp add: lost_send_def win_run_simps waiting_def qwhen_def msg_at_def makeInUse_def)

lemma lost_quit_run:
  "\<exists>s. run_win lost_quit win_init = Inr s \<and> wPos s = WSleep (-1) 1 \<and> mWait (que (wS s)) = 1 \<and>
    mNotEnqueMsg (que (wS s)) \<and> mExit (wS s)"
  by (simp add: lost_quit_def win_run_simps quit_def notifyAll_mWait_def)

lemma win_init_reach: "reach win_start win_sys_step win_init"
  unfolding win_start_def win_init_def
  by (rule reach_init) (intro exI [of _ "''q''"] exI [of _ "9 :: int"] exI [of _ "1 :: 64 word"], simp)


text \<open>C7: On Windows a wakeup can be lost, which \<open>no_lost_wakeup\<close> excludes for POSIX: between reading
  \<open>mBlocked\<close> and going to sleep the loop thread does not hold \<open>mLock\<close>. A message sent there, or a safe
  quit, broadcasts to nobody; then the thread sleeps without a timeout and without a broadcast to
  come, although a message is due, or although the looper was told to end.\<close>
theorem windows_lost_wakeup:
  "(\<exists>s e p. reach win_start win_sys_step s \<and> wPos s = WSleep (-1) e \<and> e = mWait (que (wS s)) \<and>
      waiting (que (wS s)) = [p] \<and> qwhen (que (wS s)) p \<le> clock (wS s)) \<and>
    (\<exists>s e. reach win_start win_sys_step s \<and> wPos s = WSleep (-1) e \<and> e = mWait (que (wS s)) \<and>
      mNotEnqueMsg (que (wS s)) \<and> mExit (wS s))"
proof
  obtain s where s: "run_win lost_send win_init = Inr s" "wPos s = WSleep (-1) 1" "mWait (que (wS s)) = 1"
    "clock (wS s) = 1" "waiting (que (wS s)) = [1]" "qwhen (que (wS s)) 1 = 1"
    using lost_send_run by blast
  with run_win_reach [OF s(1) win_init_reach] show "\<exists>s e p. reach win_start win_sys_step s \<and>
      wPos s = WSleep (-1) e \<and> e = mWait (que (wS s)) \<and> waiting (que (wS s)) = [p] \<and>
      qwhen (que (wS s)) p \<le> clock (wS s)"
    by (intro exI [of _ s] exI [of _ "1 :: nat"]) simp
  obtain s where s: "run_win lost_quit win_init = Inr s" "wPos s = WSleep (-1) 1" "mWait (que (wS s)) = 1"
    "mNotEnqueMsg (que (wS s))" "mExit (wS s)"
    using lost_quit_run by blast
  with run_win_reach [OF s(1) win_init_reach] show "\<exists>s e. reach win_start win_sys_step s \<and>
      wPos s = WSleep (-1) e \<and> e = mWait (que (wS s)) \<and> mNotEnqueMsg (que (wS s)) \<and> mExit (wS s)"
    by (intro exI [of _ s] exI [of _ "1 :: nat"]) simp
qed

end
