(* ===== verification/Lock_Free_Aba.thy ===== *)
theory Lock_Free_Aba
  imports Lock_Free_Queue
begin

text \<open>
  The free list of \<open>LockFreeQueue.hpp\<close> with several producers. \<open>pop_free\<close> is cut into its reads (\<open>pop_load\<close>:
  the head and the node behind it) and its exchange (\<open>pop_cas\<close>, which compares the head only); what
  \<open>enqueue\<close> does with the node it got is \<open>enqueue_node\<close>. Between the two halves other threads may run.
\<close>

definition pop_load :: "'a QueueCAS \<Rightarrow> ptr \<times> ptr" where
  "pop_load q = (free_list q, qnext (nodes q (free_list q)))"

definition pop_cas :: "ptr \<times> ptr \<Rightarrow> 'a QueueCAS \<Rightarrow> bool \<times> 'a QueueCAS" where
  "pop_cas r q = (if free_list q = fst r then (True, q\<lparr>free_list := snd r\<rparr>) else (False, q))"

definition enqueue_node :: "ptr \<Rightarrow> 'a \<Rightarrow> 'a QueueCAS \<Rightarrow> bool \<times> 'a QueueCAS" where
  "enqueue_node new_node x q =
     (case enqueue_loop new_node (set_node new_node (Node_new (Some x)) q) of
        None \<Rightarrow> (False, q)
      | Some (old_tail, q) \<Rightarrow> (let (b, q) = cas q in (True, if b then q\<lparr>qtail := new_node\<rparr> else q)))"

text \<open>Run without interruption, the parts are the whole.\<close>

lemma pop_free_parts:
  "pop_free q = (if free_list q = 0 then (0, q) else (fst (pop_load q), snd (pop_cas (pop_load q) q)))"
  by (simp add: pop_free_def pop_load_def pop_cas_def)

lemma enqueue_parts:
  assumes "free_list q \<noteq> 0" and "enqueue_result x q \<noteq> None"
  shows "enqueue x q = enqueue_node (fst (pop_load q)) x (snd (pop_cas (pop_load q) q))"
proof -
  let ?p = "free_list q" and ?q = "q\<lparr>free_list := qnext (nodes q (free_list q))\<rparr>"
  have a: "allocate (Some x) q = (?p, set_node ?p (Node_new (Some x)) ?q)"
    using assms(1) by (simp add: allocate_def pop_free_def)
  have "enqueue_loop ?p (set_node ?p (Node_new (Some x)) ?q) \<noteq> None"
    using assms a by (auto simp: enqueue_result_def)
  then show ?thesis using assms(1) a
    by (auto simp: enqueue_def enqueue_result_def enqueue_node_def pop_load_def pop_cas_def split: prod.splits)
qed

text \<open>
  Producer 1 reads the head A of the free list and the node B behind it. Producer 2 puts 7 and 8 into A
  and B; the consumer takes both, which gives A back, now in front of other nodes, and leaves B as the
  dummy of the queue. The exchange of producer 1 finds A again and succeeds: the free list is B, a node
  of the queue. Producer 1 puts 3 into A; the next \<open>enqueue\<close> is given the dummy itself.
\<close>

definition aba_start :: "nat QueueCAS" where
  "aba_start = QueueCAS_new 4 (\<lambda>_. True)"

definition aba_others :: "(nat option \<times> nat option) \<times> nat QueueCAS" where
  "aba_others =
     (let q = snd (enqueue 8 (snd (enqueue 7 aba_start)));
          (x, q) = dequeue_once q;
          (y, q) = dequeue_once q
      in ((x, y), q))"

definition aba_run :: "bool \<times> bool \<times> bool \<times> nat QueueCAS" where
  "aba_run =
     (let r = pop_load aba_start;
          (b, q) = pop_cas r (snd aba_others);
          (c, q) = enqueue_node (fst r) 3 q;
          (d, q) = enqueue 4 q
      in (b, c, d, q))"

lemmas aba_eval = aba_start_def pop_load_def pop_cas_def enqueue_node_def dequeue_once_def lf_eval eval_nat_numeral


text \<open>With several producers the pool hands out a node that is in use (the ABA problem): in the schedule
  above the late exchange and both later calls of \<open>enqueue\<close> report success, and then the queue says
  that it is empty - the elements 3 and 4 are lost.\<close>
theorem pool_aba_loses:
  "\<exists>q. aba_run = (True, True, True, q) \<and> fst aba_others = (Some 7, Some 8) \<and>
    fst (pop_load aba_start) = free_list (snd aba_others) \<and> fst (dequeue q) = None \<and> dump q = []"
  by (simp add: aba_run_def aba_others_def dequeue_def dump_def aba_eval)

text \<open>The same calls one after the other lose nothing.\<close>

lemma without_aba: "dump (snd (enqueue 4 (snd (enqueue 3 (snd aba_others))))) = [3, 4]"
  by (simp add: aba_others_def dump_def aba_eval)

end
