(* ===== verification/Lock_Free_Producers.thy ===== *)
theory Lock_Free_Producers
  imports Lock_Free_Spsc
begin

text \<open>
  Any number of producers on the linked queue of \<open>inc/os/LockFreeQueue.hpp\<close>, while nobody dequeues.
  Each call of \<open>enqueue\<close> runs through the positions of \<open>Lock_Free_Spsc\<close>, one access to a shared field
  per step; here the slow path of \<open>allocate\<close> is cut as well: take the mutex of the pool, \<open>pop_free\<close>
  again, \<open>expand\<close> with one step per node that is pushed (nobody else knows the node before its
  exchange goes through, and that exchange finds the head that was stored in it), \<open>pop_free\<close> once
  more. The other producers go on popping meanwhile.
\<close>

subsection \<open>The threads\<close>

datatype phase = Fast | Locked | Growing nat | Grown

record 'a mpsys =
  mpq :: "'a QueueCAS"
  pos :: "nat \<Rightarrow> 'a ppc"
  phase :: "nat \<Rightarrow> phase"
  mtx :: "nat option"
  linked :: "(nat \<times> 'a) list"
  stored :: "nat \<Rightarrow> 'a list"
  refused :: "(nat \<times> 'a) list"

text \<open>
  \<open>linked\<close> records who linked which element, in the order of the links; \<open>stored t\<close> the elements for
  which a call of thread \<open>t\<close> has returned true, \<open>refused\<close> those for which a call returned false.
\<close>

definition unlock :: "nat \<Rightarrow> 'a mpsys \<Rightarrow> 'a mpsys" where
  "unlock t s = s\<lparr>mtx := None, phase := (phase s)(t := Fast)\<rparr>"

text \<open>\<open>allocate\<close> after \<open>pop_free\<close> has returned null.\<close>

definition slow_step :: "nat \<Rightarrow> 'a \<Rightarrow> 'a mpsys \<Rightarrow> 'a mpsys" where
  "slow_step t x s =
     (case phase s t of
        Fast \<Rightarrow>
          if mtx s = None then s\<lparr>mtx := Some t, phase := (phase s)(t := Locked), pos := (pos s)(t := PPop x)\<rparr>
          else s
      | Locked \<Rightarrow> s\<lparr>phase := (phase s)(t := Growing (pool_size (mpq s) * 2 - pool_size (mpq s)))\<rparr>
      | Growing 0 \<Rightarrow> s\<lparr>phase := (phase s)(t := Grown), pos := (pos s)(t := PPop x)\<rparr>
      | Growing (Suc k) \<Rightarrow> s\<lparr>mpq := expand_loop 1 (mpq s), phase := (phase s)(t := Growing k)\<rparr>
      | Grown \<Rightarrow> (unlock t s)\<lparr>pos := (pos s)(t := PIdle), refused := refused s @ [(t, x)]\<rparr>)"

definition view :: "nat \<Rightarrow> 'a mpsys \<Rightarrow> 'a lfsys" where
  "view t s = \<lparr>lfq = mpq s, ppc = pos s t, cpc = CIdle, tries = 0, sent = [], got = []\<rparr>"

text \<open>The element of a call that has linked its node and still swings the tail.\<close>

definition pend :: "'a QueueCAS \<Rightarrow> 'a ppc \<Rightarrow> 'a list" where
  "pend q c = (case c of PSwing p t \<Rightarrow> [the (elem (nodes q p))] | _ \<Rightarrow> [])"

definition fast_step :: "nat \<Rightarrow> bool \<Rightarrow> 'a mpsys \<Rightarrow> 'a mpsys" where
  "fast_step t b s =
     (let u = spsc_enqueue_step b (view t s) in
      s\<lparr>mpq := lfq u, pos := (pos s)(t := ppc u), linked := linked s @ map (Pair t) (sent u),
        stored := (stored s)(t := stored s t @ pend (mpq s) (pos s t))\<rparr>)"

definition enqueue_step :: "nat \<Rightarrow> bool \<Rightarrow> 'a mpsys \<Rightarrow> 'a mpsys" where
  "enqueue_step t b s =
     (case pos s t of
        PGrow x \<Rightarrow> slow_step t x s
      | PInit x p \<Rightarrow> if phase s t = Fast then fast_step t b s else unlock t s
      | _ \<Rightarrow> fast_step t b s)"

inductive mp_step :: "'a mpsys \<Rightarrow> 'a mpsys res \<Rightarrow> bool" where
  mp_call: "pos s t = PIdle \<Longrightarrow> mp_step s (Inr (s\<lparr>pos := (pos s)(t := PPop x)\<rparr>))"
| mp_run: "mp_step s (Inr (enqueue_step t b s))"

inductive_cases mp_stepE [elim]: "mp_step s r"

definition mp_start :: "'a mpsys \<Rightarrow> bool" where
  "mp_start s \<longleftrightarrow> (\<exists>n. 0 < n \<and> s = \<lparr>mpq = QueueCAS_new n (\<lambda>_. True), pos = (\<lambda>_. PIdle), phase = (\<lambda>_. Fast),
     mtx = None, linked = [], stored = (\<lambda>_. []), refused = []\<rparr>)"

subsection \<open>The invariant\<close>

text \<open>A node that was the last one: the tail is there or further on.\<close>

definition behind :: "'a QueueCAS \<Rightarrow> ptr \<Rightarrow> ptr list \<Rightarrow> bool" where
  "behind q t ds \<longleftrightarrow> (\<exists>xs ys. ds = xs @ t # ys \<and> qtail q \<in> set (t # ys))"

text \<open>What a thread knows about its own node, and about what it has read.\<close>

definition own_node :: "'a QueueCAS \<Rightarrow> 'a ppc \<Rightarrow> ptr list \<Rightarrow> ptr list \<Rightarrow> bool" where
  "own_node q c ds fs \<longleftrightarrow>
     (\<forall>p\<in>set (p_own c). 0 < p \<and> p < nbrk q \<and> p \<notin> set ds \<and> p \<notin> set fs \<and>
        ((\<exists>x. c = PInit x p) \<or> elem (nodes q p) \<noteq> None \<and> qnext (nodes q p) = 0))"

definition has_read :: "'a QueueCAS \<Rightarrow> 'a ppc \<Rightarrow> ptr list \<Rightarrow> ptr list \<Rightarrow> bool" where
  "has_read q c ds fs \<longleftrightarrow>
     (case c of
        PPopNext x f \<Rightarrow> 0 < f \<and> f < nbrk q
      | PPopCas x f n \<Rightarrow> 0 < f \<and> f < nbrk q \<and> (f \<in> set fs \<longrightarrow> n = qnext (nodes q f))
      | PVersion p t \<Rightarrow> behind q t ds
      | PNext p t v \<Rightarrow> behind q t ds
      | PCheck p t v n \<Rightarrow> behind q t ds \<and> (n \<noteq> 0 \<longrightarrow> n = qnext (nodes q t))
      | PCheckVersion p t v n \<Rightarrow> behind q t ds \<and> (n \<noteq> 0 \<longrightarrow> n = qnext (nodes q t))
      | PLink p t \<Rightarrow> behind q t ds
      | PHelp p t n \<Rightarrow> behind q t ds \<and> n = qnext (nodes q t) \<and> n \<noteq> 0
      | PSwing p t \<Rightarrow> behind q t ds \<and> p = qnext (nodes q t) \<and> p \<noteq> 0 \<and> p \<in> set ds
      | _ \<Rightarrow> True)"

definition t_inv :: "'a QueueCAS \<Rightarrow> 'a ppc \<Rightarrow> ptr list \<Rightarrow> ptr list \<Rightarrow> bool" where
  "t_inv q c ds fs \<longleftrightarrow> own_node q c ds fs \<and> has_read q c ds fs"

definition mp_at :: "'a QueueCAS \<Rightarrow> (nat \<Rightarrow> 'a ppc) \<Rightarrow> (nat \<times> 'a) list \<Rightarrow> (nat \<Rightarrow> 'a list) \<Rightarrow> ptr list \<Rightarrow> ptr list \<Rightarrow> bool" where
  "mp_at q ps l st ds fs \<longleftrightarrow>
     lfs_shape q ds fs [] \<and> (\<forall>t. t_inv q (ps t) ds fs) \<and>
     (\<forall>t u. t \<noteq> u \<longrightarrow> set (p_own (ps t)) \<inter> set (p_own (ps u)) = {}) \<and>
     map (\<lambda>a. the (elem (nodes q a))) (tl ds) = map snd l \<and>
     (\<forall>t. map snd (filter (\<lambda>e. fst e = t) l) = st t @ pend q (ps t))"

definition mp_inv :: "'a mpsys \<Rightarrow> bool" where
  "mp_inv s \<longleftrightarrow> (\<exists>ds fs. mp_at (mpq s) (pos s) (linked s) (stored s) ds fs)"

lemma behind_in: "behind q t ds \<Longrightarrow> t \<in> set ds"
  by (auto simp: behind_def)

lemma behind_tail: "lfs_shape q ds fs os \<Longrightarrow> behind q (qtail q) ds"
  using shape_tail_in [of q ds fs os] by (auto simp: behind_def in_set_conv_decomp)

lemma npath_end: "npath n p (xs @ t # ys) \<Longrightarrow> qnext (n t) = 0 \<Longrightarrow> ys = []"
  by (induction xs arbitrary: p) (cases ys; auto)+

lemma behind_last:
  assumes "lfs_shape q ds fs os" and "behind q t ds" and "qnext (nodes q t) = 0"
  shows "t = last ds \<and> qtail q = last ds"
proof -
  obtain xs ys where ds: "ds = xs @ t # ys" "qtail q \<in> set (t # ys)" using assms(2) by (auto simp: behind_def)
  then have "ys = []" using assms(1,3) npath_end [of "nodes q" "qhead q" xs t ys] by (simp add: lfs_shape_def)
  then show ?thesis using ds by simp
qed

text \<open>What a thread knows stays true when another one writes.\<close>

lemma t_inv_stable:
  assumes "t_inv q c ds fs" and "nbrk q \<le> nbrk q'"
    and "\<And>a. a \<in> set ds \<Longrightarrow> qnext (nodes q a) \<noteq> 0 \<Longrightarrow> qnext (nodes q' a) = qnext (nodes q a)"
    and "\<And>a. a \<in> set fs' \<Longrightarrow> a < nbrk q \<Longrightarrow> a \<in> set fs \<and> qnext (nodes q' a) = qnext (nodes q a)"
    and "\<And>t. behind q t ds \<Longrightarrow> behind q' t ds'"
    and "\<And>a. a \<in> set (p_own c) \<Longrightarrow> nodes q' a = nodes q a \<and> a \<notin> set ds' \<and> a \<notin> set fs'"
    and "set ds \<subseteq> set ds'"
  shows "t_inv q' c ds' fs'"
proof -
  have "own_node q' c ds' fs'"
    unfolding own_node_def
  proof
    fix p
    assume p: "p \<in> set (p_own c)"
    have "nodes q' p = nodes q p" "p \<notin> set ds'" "p \<notin> set fs'" using assms(6) [OF p] by simp_all
    moreover have "0 < p" "p < nbrk q'" using assms(1,2) p by (auto simp: t_inv_def own_node_def)
    ultimately show "0 < p \<and> p < nbrk q' \<and> p \<notin> set ds' \<and> p \<notin> set fs' \<and>
        ((\<exists>x. c = PInit x p) \<or> elem (nodes q' p) \<noteq> None \<and> qnext (nodes q' p) = 0)"
      using assms(1) p by (simp add: t_inv_def own_node_def)
  qed
  moreover have nx: "qnext (nodes q' t) = qnext (nodes q t)" if "behind q t ds" "qnext (nodes q t) \<noteq> 0" for t
    using assms(3) [OF behind_in [OF that(1)] that(2)] .
  have "has_read q' c ds' fs'"
    using assms(1,2,7) by (cases c) (auto simp: t_inv_def has_read_def nx dest: assms(4) intro: assms(5))
  ultimately show ?thesis by (simp add: t_inv_def)
qed

lemma pend_stable:
  assumes "t_inv q c ds fs" and "\<And>a. a \<in> set ds \<Longrightarrow> elem (nodes q' a) = elem (nodes q a)"
  shows "pend q' c = pend q c"
  using assms by (cases c) (auto simp: t_inv_def has_read_def pend_def)

text \<open>One step of thread \<open>t\<close>: what it must show about itself and about what it wrote.\<close>

lemma mp_at_step:
  assumes at: "mp_at q ps l st ds fs"
    and shape: "lfs_shape q' ds' fs' []" and own: "t_inv q' c ds' fs'"
    and excl: "set (p_own c) \<subseteq> set (p_own (ps t)) \<union> set fs"
    and brk: "nbrk q \<le> nbrk q'"
    and nxt: "\<And>a. a \<in> set ds \<Longrightarrow> qnext (nodes q a) \<noteq> 0 \<Longrightarrow> qnext (nodes q' a) = qnext (nodes q a)"
    and free: "\<And>a. a \<in> set fs' \<Longrightarrow> a < nbrk q \<Longrightarrow> a \<in> set fs \<and> qnext (nodes q' a) = qnext (nodes q a)"
    and beh: "\<And>t. behind q t ds \<Longrightarrow> behind q' t ds'"
    and el: "\<And>a. a \<in> set ds \<Longrightarrow> elem (nodes q' a) = elem (nodes q a)"
    and oth: "\<And>u a. u \<noteq> t \<Longrightarrow> a \<in> set (p_own (ps u)) \<Longrightarrow> nodes q' a = nodes q a \<and> a \<notin> set ds' \<and> a \<notin> set fs'"
    and sub: "set ds \<subseteq> set ds'"
    and l: "map (\<lambda>a. the (elem (nodes q' a))) (tl ds') = map snd (l @ map (Pair t) new)"
    and h: "st t @ pend q (ps t) @ new = st' @ pend q' c"
  shows "mp_at q' (ps(t := c)) (l @ map (Pair t) new) (st(t := st')) ds' fs'"
proof -
  have ti: "t_inv q (ps u) ds fs" and hist: "map snd (filter (\<lambda>e. fst e = u) l) = st u @ pend q (ps u)" for u
    using at by (auto simp: mp_at_def)
  have others: "t_inv q' (ps u) ds' fs'" "pend q' (ps u) = pend q (ps u)" if "u \<noteq> t" for u
    using t_inv_stable [OF ti brk nxt free beh oth [OF that] sub] pend_stable [OF ti el] that by blast+
  have "set (p_own c) \<inter> set (p_own (ps u)) = {}" if "u \<noteq> t" for u
    using excl ti [of u] at that unfolding mp_at_def t_inv_def own_node_def by blast
  then have "set (p_own ((ps(t := c)) v)) \<inter> set (p_own ((ps(t := c)) u)) = {}" if "v \<noteq> u" for u v
    using at that by (auto simp: mp_at_def)
  moreover have "map snd (filter (\<lambda>e. fst e = u) (l @ map (Pair t) new)) =
      (st(t := st')) u @ pend q' ((ps(t := c)) u)" for u
    using hist [of u] h others(2) by (cases "u = t") (simp_all add: filter_map comp_def)
  ultimately show ?thesis using shape own others(1) l unfolding mp_at_def by simp
qed

subsection \<open>The steps\<close>

text \<open>A step that writes nothing shared.\<close>

lemma mp_at_move:
  assumes "mp_at q ps l st ds fs" and "t_inv q c ds fs" and "set (p_own c) \<subseteq> set (p_own (ps t))"
    and "st t @ pend q (ps t) = st' @ pend q c"
  shows "mp_at q (ps(t := c)) l (st(t := st')) ds fs"
proof -
  have "t_inv q (ps u) ds fs" for u using assms(1) by (simp add: mp_at_def)
  then have out: "a \<notin> set ds \<and> a \<notin> set fs" if "a \<in> set (p_own (ps u))" for a u
    using that unfolding t_inv_def own_node_def by blast
  have "mp_at q (ps(t := c)) (l @ map (Pair t) []) (st(t := st')) ds fs"
    by (rule mp_at_step [OF assms(1)]) (use assms out in \<open>auto simp: mp_at_def\<close>)
  then show ?thesis by simp
qed

lemma mp_atD:
  assumes "mp_at q ps l st ds fs"
  shows "lfs_shape q ds fs []" "t_inv q (ps t) ds fs"
    "t \<noteq> u \<Longrightarrow> a \<in> set (p_own (ps u)) \<Longrightarrow> a \<notin> set (p_own (ps t))"
    "a \<in> set (p_own (ps u)) \<Longrightarrow> a \<notin> set ds \<and> a \<notin> set fs \<and> a < nbrk q"
    "map (\<lambda>a. the (elem (nodes q a))) (tl ds) = map snd l"
  using assms unfolding mp_at_def t_inv_def own_node_def by blast+

text \<open>A step that leaves the queue as it is and changes the node of the thread, or the free list.\<close>

lemma mp_at_pop:
  assumes at: "mp_at q ps l st ds fs" and c: "ps t = PPopCas x f n" and f: "free_list q = f"
  shows "\<exists>gs. mp_at (q\<lparr>free_list := n\<rparr>) (ps(t := PInit x f)) l (st(t := st t)) ds gs"
proof -
  note D = mp_atD [OF at]
  have "t_inv q (PPopCas x f n) ds fs" using D(2) [of t] c by simp
  then have pos: "0 < f" "f < nbrk q" and n: "f \<in> set fs \<Longrightarrow> n = qnext (nodes q f)" by (auto simp: t_inv_def own_node_def has_read_def p_own_def)
  from shape_pop [OF D(1)] obtain gs where gs: "fs = f # gs"
    "lfs_shape (q\<lparr>free_list := n\<rparr>) ds gs [f]" using f pos n by auto
  then have own: "f \<notin> set ds" "f \<notin> set gs" "lfs_shape (q\<lparr>free_list := n\<rparr>) ds gs []"
    by (auto simp: lfs_shape_def)
  have "mp_at (q\<lparr>free_list := n\<rparr>) (ps(t := PInit x f)) (l @ map (Pair t) []) (st(t := st t)) ds gs"
    by (rule mp_at_step [OF at own(3)])
      (use own pos c gs(1) D(4,5) in \<open>auto simp: t_inv_def own_node_def has_read_def p_own_def pend_def behind_def\<close>)
  then show ?thesis by auto
qed

lemma mp_at_expand:
  assumes at: "mp_at q ps l st ds fs"
  shows "\<exists>gs. mp_at (expand_loop 1 q) ps l st ds gs"
proof -
  note D = mp_atD [OF at]
  let ?q = "expand_loop 1 q"
  obtain gs where gs: "lfs_shape ?q ds (gs @ fs) []" "length gs = 1"
    using shape_expand_loop [OF D(1), of 1] by blast
  have q: "nbrk ?q = Suc (nbrk q)" "free_list ?q = nbrk q" "qtail ?q = qtail q" by (simp_all add: push_free_def)
  have same: "nodes ?q a = nodes q a" if "a < nbrk q" for a using that by (simp add: push_free_def)
  obtain g where "gs = [g]" using gs(2) by (cases gs) auto
  then have sh: "lfs_shape ?q ds (nbrk q # fs) []" using gs(1) q(2) by (auto simp: lfs_shape_def)
  have lt: "a < nbrk q" if "a \<in> set ds \<or> a \<in> set fs" for a using D(1) that by (auto simp: lfs_shape_def)
  have bh: "behind ?q v ds" if "behind q v ds" for v using that q(3) by (simp add: behind_def)
  have new: "nbrk q \<notin> set (p_own (ps u))" for u using D(4) by blast
  have ti: "t_inv ?q (ps 0) ds (nbrk q # fs)"
    by (rule t_inv_stable [OF D(2)]) (use q lt same bh D(4) in auto)
  have el: "map (\<lambda>a. the (elem (nodes ?q a))) (tl ds) = map (\<lambda>a. the (elem (nodes q a))) (tl ds)"
    using same lt by (intro map_cong refl) (auto dest: in_set_tlD)
  have "mp_at ?q (ps(0 := ps 0)) (l @ map (Pair 0) []) (st(0 := st 0)) ds (nbrk q # fs)"
    by (rule mp_at_step [OF at sh ti])
      (use q same lt bh D(4) new el D(5) pend_stable [OF D(2), of ?q] in \<open>auto simp del: expand_loop.simps\<close>)
  then show ?thesis by auto
qed

lemma mp_at_init:
  assumes at: "mp_at q ps l st ds fs" and c: "ps t = PInit x p"
  shows "mp_at (set_node p (Node_new (Some x)) q) (ps(t := PTail p)) l (st(t := st t)) ds fs"
proof -
  note D = mp_atD [OF at]
  have "p \<in> set (p_own (ps t))" using c by (simp add: p_own_def)
  then have p: "p \<notin> set ds" "p \<notin> set fs" "0 < p" "p < nbrk q"
    using D(4) D(2) [of t] by (auto simp: t_inv_def own_node_def has_read_def p_own_def)
  have oth: "p \<notin> set (p_own (ps u))" if "u \<noteq> t" for u
    using D(3) [OF that [symmetric]] \<open>p \<in> set (p_own (ps t))\<close> by blast
  have "mp_at (set_node p (Node_new (Some x)) q) (ps(t := PTail p)) (l @ map (Pair t) []) (st(t := st t)) ds fs"
  proof (rule mp_at_step [OF at shape_own [OF D(1) p(1,2)]])
    show "map (\<lambda>a. the (elem (nodes (set_node p (Node_new (Some x)) q) a))) (tl ds) = map snd (l @ map (Pair t) [])"
      using D(5) p(1) by (auto dest: in_set_tlD intro!: trans [OF map_cong D(5)])
  qed (use p c oth D(4) in \<open>auto simp: t_inv_def own_node_def has_read_def p_own_def pend_def behind_def Node_new_def\<close>)
  then show ?thesis by simp
qed

lemma mp_at_link:
  assumes at: "mp_at q ps l st ds fs" and c: "ps t = PLink p a" and z: "qnext (nodes q a) = 0"
  shows "mp_at (set_node a ((nodes q a)\<lparr>qnext := p\<rparr>) q) (ps(t := PSwing p a))
    (l @ [(t, the (elem (nodes q p)))]) (st(t := st t)) (ds @ [p]) fs"
proof -
  note D = mp_atD [OF at]
  let ?q = "set_node a ((nodes q a)\<lparr>qnext := p\<rparr>) q"
  have "p \<in> set (p_own (ps t))" using c by (simp add: p_own_def)
  then have p: "p \<notin> set ds" "p \<notin> set fs" "0 < p" "p < nbrk q" "elem (nodes q p) \<noteq> None" "qnext (nodes q p) = 0"
    using D(4) D(2) [of t] c by (auto simp: t_inv_def own_node_def has_read_def p_own_def)
  have b: "behind q a ds" using D(2) [of t] c by (simp add: t_inv_def has_read_def)
  have a: "a = last ds" "qtail q = last ds" "a \<in> set ds"
    using behind_last [OF D(1) b z] behind_in [OF b] by auto
  have oth: "p \<notin> set (p_own (ps u))" if "u \<noteq> t" for u
    using D(3) [OF that [symmetric]] \<open>p \<in> set (p_own (ps t))\<close> by blast
  have "lfs_shape q ds fs [p]" using D(1) p by (simp add: lfs_shape_def)
  from shape_link [OF this p(6,5) a(2)] have sh: "lfs_shape ?q (ds @ [p]) fs []" using a(1) by simp
  have bh: "behind ?q v (ds @ [p])" if "behind q v ds" for v using that by (fastforce simp: behind_def)
  have "mp_at ?q (ps(t := PSwing p a)) (l @ map (Pair t) [the (elem (nodes q p))]) (st(t := st t)) (ds @ [p]) fs"
  proof (rule mp_at_step [OF at sh])
    show "map (\<lambda>b. the (elem (nodes ?q b))) (tl (ds @ [p])) = map snd (l @ map (Pair t) [the (elem (nodes q p))])"
    proof -
      have "elem (nodes ?q b) = elem (nodes q b)" for b by simp
      then show ?thesis using D(5) a(3) by (cases ds) simp_all
    qed
    show "t_inv ?q (PSwing p a) (ds @ [p]) fs" using bh [OF b] p(3) by (simp add: t_inv_def own_node_def has_read_def p_own_def)
    show "nodes ?q v = nodes q v \<and> v \<notin> set (ds @ [p]) \<and> v \<notin> set fs" if "u \<noteq> t" "v \<in> set (p_own (ps u))" for u v
      using D(4) [OF that(2)] oth [OF that(1)] that(2) a(3) by auto
    show "v \<in> set fs \<and> qnext (nodes ?q v) = qnext (nodes q v)" if "v \<in> set fs" for v
      using that D(1) a(3) by (auto simp: lfs_shape_def)
  qed (use p c z a(3) bh in \<open>auto simp: p_own_def pend_def\<close>)
  then show ?thesis by simp
qed

lemma mp_at_tail:
  assumes at: "mp_at q ps l st ds fs" and z: "qnext (nodes q (qtail q)) \<noteq> 0" and c: "t_inv q c ds fs"
    and own: "set (p_own c) \<subseteq> set (p_own (ps t))" and h: "st t @ pend q (ps t) = st' @ pend q c"
  shows "mp_at (q\<lparr>qtail := qnext (nodes q (qtail q))\<rparr>) (ps(t := c)) l (st(t := st')) ds fs"
proof -
  note D = mp_atD [OF at]
  let ?q = "q\<lparr>qtail := qnext (nodes q (qtail q))\<rparr>"
  have tl: "qnext (nodes q (qtail q)) = last ds" using shape_tail_next [OF D(1) z] by blast
  have bh: "behind ?q v ds" if "behind q v ds" for v
  proof -
    obtain xs ys where "ds = xs @ v # ys" using \<open>behind q v ds\<close> by (auto simp: behind_def)
    moreover from this have "last ds \<in> set (v # ys)" by simp
    ultimately show ?thesis unfolding behind_def tl by fastforce
  qed
  have "mp_at ?q (ps(t := c)) (l @ map (Pair t) []) (st(t := st')) ds fs"
  proof (rule mp_at_step [OF at])
    show "lfs_shape ?q ds fs []" using shape_tail [OF D(1)] by (simp add: tl)
    show "t_inv ?q c ds fs" by (rule t_inv_stable [OF c]) (use own D(4) bh in auto)
    have "pend ?q c = pend q c" by (simp add: pend_def cong: ppc.case_cong)
    then show "st t @ pend q (ps t) @ [] = st' @ pend ?q c" using h by simp
  qed (use own D(4,5) bh in auto)
  then show ?thesis by simp
qed

subsection \<open>Every step keeps it\<close>

lemma free_list_in_mp:
  assumes "mp_at q ps l st ds fs" and "free_list q \<noteq> 0"
  shows "0 < free_list q \<and> free_list q < nbrk q"
  using shape_pop [OF mp_atD(1) [OF assms(1)] assms(2)] by (fastforce simp: lfs_shape_def)

lemma mp_invI: "mp_at (mpq s) (pos s) (linked s) (stored s) ds fs \<Longrightarrow> mp_inv s"
  unfolding mp_inv_def by blast

text \<open>What a step of the thread's view is, and what is left to show.\<close>

lemma fast_write:
  assumes "spsc_enqueue_step b (view t s) = (view t s)\<lparr>lfq := q, ppc := c, sent := new\<rparr>"
    and "mp_at q ((pos s)(t := c)) (linked s @ map (Pair t) new) ((stored s)(t := stored s t @ pend (mpq s) (pos s t))) ds fs"
  shows "mp_inv (fast_step t b s)"
  using assms by (intro mp_invI) (simp add: fast_step_def Let_def)

lemma fast_move:
  assumes "spsc_enqueue_step b (view t s) = (view t s)\<lparr>ppc := c\<rparr>"
    and "mp_at (mpq s) (pos s) (linked s) (stored s) ds fs" and "t_inv (mpq s) c ds fs"
    and "set (p_own c) \<subseteq> set (p_own (pos s t))" and "pend (mpq s) c = []"
  shows "mp_inv (fast_step t b s)"
proof (rule fast_write)
  show "spsc_enqueue_step b (view t s) = (view t s)\<lparr>lfq := mpq s, ppc := c, sent := []\<rparr>"
    using assms(1) by (simp add: view_def)
  show "mp_at (mpq s) ((pos s)(t := c)) (linked s @ map (Pair t) []) ((stored s)(t := stored s t @ pend (mpq s) (pos s t))) ds fs"
    using mp_at_move [OF assms(2-4), of "stored s t @ pend (mpq s) (pos s t)"] assms(5) by simp
qed

lemmas seen = t_inv_def own_node_def has_read_def p_own_def pend_def
lemmas step_of = spsc_enqueue_step_def view_def Let_def

lemma pop_step_inv:
  assumes at: "mp_at (mpq s) (pos s) (linked s) (stored s) ds fs" and c: "pos s t = PPopCas x f n"
  shows "mp_inv (fast_step t b s)"
proof (cases "free_list (mpq s) = f \<and> b")
  case True
  from mp_at_pop [OF at c] True obtain gs where
    "mp_at ((mpq s)\<lparr>free_list := n\<rparr>) ((pos s)(t := PInit x f)) (linked s) ((stored s)(t := stored s t)) ds gs" by blast
  then show ?thesis using c True by (intro fast_write [where new = "[]"]) (auto simp: step_of pend_def)
next
  case False
  then show ?thesis using c free_list_in_mp [OF at]
    by (cases "free_list (mpq s) = 0") (auto simp: step_of seen intro!: fast_move [OF _ at])
qed

lemma link_step_inv:
  assumes at: "mp_at (mpq s) (pos s) (linked s) (stored s) ds fs" and c: "pos s t = PLink p a"
  shows "mp_inv (fast_step t b s)"
proof (cases "qnext (nodes (mpq s) a) = 0 \<and> b")
  case True
  then show ?thesis using c mp_at_link [OF at c]
    by (intro fast_write [where new = "[the (elem (nodes (mpq s) p))]"]) (auto simp: step_of pend_def)
next
  case False
  then show ?thesis using c mp_atD(2) [OF at, of t]
    by (intro fast_move [OF _ at]) (auto simp: step_of seen)
qed

text \<open>The two exchanges of the tail.\<close>

lemma tail_step_inv:
  fixes e :: "'a ppc" and s :: "'a mpsys"
  assumes at: "mp_at (mpq s) (pos s) (linked s) (stored s) ds fs"
    and c: "pos s t = PHelp p a n \<and> e = PTail p \<or> pos s t = PSwing p a \<and> e = PIdle \<and> n = p"
  shows "mp_inv (fast_step t b s)"
proof -
  let ?q = "mpq s"
  have ti: "t_inv ?q (pos s t) ds fs" by (rule mp_atD(2) [OF at])
  have n: "n = qnext (nodes ?q a)" "n \<noteq> 0" and c': "t_inv ?q e ds fs" "set (p_own e) \<subseteq> set (p_own (pos s t))" "pend ?q e = []"
    using ti c by (auto simp: seen)
  have step: "spsc_enqueue_step b (view t s) =
      (view t s)\<lparr>lfq := (if qtail ?q = a \<and> b then ?q\<lparr>qtail := n\<rparr> else ?q), ppc := e\<rparr>"
    using c by (auto simp: step_of)
  show ?thesis
  proof (cases "qtail ?q = a \<and> b")
    case True
    then have "qnext (nodes ?q (qtail ?q)) = n" "qnext (nodes ?q (qtail ?q)) \<noteq> 0" using n by simp_all
    from mp_at_tail [OF at this(2) c'(1,2), of "stored s t @ pend ?q (pos s t)"] this(1) c'(3) show ?thesis
      using step True by (intro fast_write [where new = "[]"]) (auto simp: view_def)
  next
    case False
    then have "spsc_enqueue_step b (view t s) = (view t s)\<lparr>ppc := e\<rparr>" using step by (auto simp: view_def)
    then show ?thesis by (rule fast_move [OF _ at c'])
  qed
qed

lemma fast_step_inv:
  assumes at: "mp_at (mpq s) (pos s) (linked s) (stored s) ds fs" and g: "\<And>x. pos s t \<noteq> PGrow x"
  shows "mp_inv (fast_step t b s)"
proof -
  let ?q = "mpq s"
  have ti: "t_inv ?q (pos s t) ds fs" by (rule mp_atD(2) [OF at])
  note move = fast_move [OF _ at]
  show ?thesis
  proof (cases "pos s t")
    case PIdle
    then show ?thesis by (intro move) (auto simp: step_of seen)
  next
    case (PPop x)
    then show ?thesis using free_list_in_mp [OF at]
      by (cases "free_list ?q = 0") (auto simp: step_of seen intro!: move)
  next
    case (PPopCas x f n)
    then show ?thesis by (rule pop_step_inv [OF at])
  next
    case (PGrow x)
    then show ?thesis using g by simp
  next
    case (PInit x p)
    then show ?thesis using mp_at_init [OF at PInit]
      by (intro fast_write [where new = "[]"]) (auto simp: step_of pend_def)
  next
    case (PTail p)
    then show ?thesis using ti behind_tail [OF mp_atD(1) [OF at]] by (intro move) (auto simp: step_of seen)
  next
    case (PCheck p a v n)
    then show ?thesis using ti by (cases "qtail ?q = a") (auto simp: step_of seen intro!: move)
  next
    case (PCheckVersion p a v n)
    then show ?thesis using ti
      by (cases "version (nodes ?q a) = v"; cases "n = 0") (auto simp: step_of seen intro!: move)
  next
    case (PLink p a)
    then show ?thesis by (rule link_step_inv [OF at])
  next
    case (PHelp p a n)
    then show ?thesis by (intro tail_step_inv [OF at]) simp
  next
    case (PSwing p a)
    then show ?thesis by (intro tail_step_inv [OF at]) simp
  qed (use ti in \<open>intro move, auto simp: step_of seen\<close>)+
qed

lemma slow_step_inv:
  assumes at: "mp_at (mpq s) (pos s) (linked s) (stored s) ds fs" and c: "pos s t = PGrow x"
  shows "mp_inv (slow_step t x s)"
proof -
  have mv: "mp_at (mpq s) ((pos s)(t := e)) (linked s) (stored s) ds fs" if "e = PPop x \<or> e = PIdle" for e
    using mp_at_move [OF at, of e t "stored s t"] c that by (auto simp: seen)
  have ex: "\<exists>gs. mp_at (expand_loop 1 (mpq s)) (pos s) (linked s) (stored s) ds gs" by (rule mp_at_expand [OF at])
  show ?thesis
  proof (cases "phase s t")
    case (Growing k)
    then show ?thesis using mv ex by (cases k) (auto simp: slow_step_def mp_inv_def simp del: expand_loop.simps)
  qed (use at mv in \<open>auto simp: slow_step_def unlock_def mp_inv_def\<close>)
qed

lemma mp_step_inv:
  assumes "mp_inv s" and "mp_step s r"
  shows "\<exists>s'. r = Inr s' \<and> mp_inv s'"
  using assms(2)
proof cases
  case (mp_call t x)
  obtain ds fs where at: "mp_at (mpq s) (pos s) (linked s) (stored s) ds fs" using assms(1) by (auto simp: mp_inv_def)
  have "mp_at (mpq s) ((pos s)(t := PPop x)) (linked s) ((stored s)(t := stored s t)) ds fs"
    using mp_call by (intro mp_at_move [OF at]) (auto simp: seen)
  then show ?thesis using mp_call(1) by (auto simp: mp_inv_def)
next
  case (mp_run t b)
  obtain ds fs where at: "mp_at (mpq s) (pos s) (linked s) (stored s) ds fs" using assms(1) by (auto simp: mp_inv_def)
  have "mp_inv (unlock t s)" using assms(1) by (simp add: mp_inv_def unlock_def)
  then show ?thesis using mp_run fast_step_inv [OF at, of t b] slow_step_inv [OF at, of t]
    by (cases "pos s t") (auto simp: enqueue_step_def)
qed

lemma mp_start_inv:
  assumes "mp_start s"
  shows "mp_inv s"
proof -
  obtain n where n: "0 < n" and s: "s = \<lparr>mpq = QueueCAS_new n (\<lambda>_. True), pos = (\<lambda>_. PIdle), phase = (\<lambda>_. Fast),
     mtx = None, linked = [], stored = (\<lambda>_. []), refused = []\<rparr>" using assms by (auto simp: mp_start_def)
  obtain d fs where "lf_rel (QueueCAS_new n (\<lambda>_. True) :: 'a QueueCAS) d [] fs"
    using lf_rel_new [OF n, of "\<lambda>_. True"] by auto
  then have "lfs_shape (QueueCAS_new n (\<lambda>_. True) :: 'a QueueCAS) [d] fs []"
    using npath_nonzero by (fastforce simp: lf_rel_def lfs_shape_def)
  then show ?thesis unfolding mp_inv_def mp_at_def by (auto simp: s seen)
qed

interpretation mps: safe_system mp_start mp_step mp_inv
  by unfold_locales (auto intro: mp_start_inv mp_step_inv)

lemma shape_dump:
  assumes "lfs_shape q ds fs os"
  shows "dump q = map (\<lambda>a. the (elem (nodes q a))) (tl ds)"
  using way_dump [OF assms, of CIdle] by (simp add: way_def)

text \<open>C9: Any number of producers, interleaved at every access to a shared field and with exchanges that may
  fail at any time, while nobody dequeues: no two producers ever hold the same node, and the queue holds
  exactly the elements that were linked, in the order of the links; the elements of each thread among
  them are those its calls have reported as stored, in the order of the calls (and the one it has just
  linked). What a call refused is not in the queue on account of that call.\<close>
theorem LockFreeQueue_producers:
  assumes "reach mp_start mp_step s"
  shows "(\<forall>r. mp_step s r \<longrightarrow> ok r) \<and>
    (\<forall>t u. t \<noteq> u \<longrightarrow> set (p_own (pos s t)) \<inter> set (p_own (pos s u)) = {}) \<and>
    dump (mpq s) = map snd (linked s) \<and>
    (\<forall>t. map snd (filter (\<lambda>e. fst e = t) (linked s)) =
      stored s t @ (case pos s t of PSwing p a \<Rightarrow> [the (elem (nodes (mpq s) p))] | _ \<Rightarrow> []))"
proof -
  obtain ds fs where at: "mp_at (mpq s) (pos s) (linked s) (stored s) ds fs"
    using mps.reach_inv [OF assms] by (auto simp: mp_inv_def)
  have "ok r" if "mp_step s r" for r using mps.reach_no_fault [OF assms that] by auto
  then show ?thesis using at shape_dump [OF mp_atD(1) [OF at]] unfolding mp_at_def pend_def by simp
qed

text \<open>A schedule names the threads in the order of their steps; all exchanges that can go through do.\<close>

primrec run_mp :: "nat list \<Rightarrow> 'a mpsys \<Rightarrow> 'a mpsys" where
  "run_mp [] s = s"
| "run_mp (t # ts) s = run_mp ts (enqueue_step t True s)"

lemma run_mp_reach: "reach mp_start mp_step s \<Longrightarrow> reach mp_start mp_step (run_mp ts s)"
  by (induction ts arbitrary: s) (auto intro: reach_step mp_run)

definition two_calls :: "nat \<Rightarrow> nat mpsys" where
  "two_calls n = \<lparr>mpq = QueueCAS_new n (\<lambda>_. True), pos = (\<lambda>_. PIdle)(0 := PPop 7, 1 := PPop 8),
     phase = (\<lambda>_. Fast), mtx = None, linked = [], stored = (\<lambda>_. []), refused = []\<rparr>"

lemma two_calls_reach: "0 < n \<Longrightarrow> reach mp_start mp_step (two_calls n)"
proof -
  assume "0 < n"
  then have "reach mp_start mp_step \<lparr>mpq = QueueCAS_new n (\<lambda>_. True), pos = (\<lambda>_. PIdle),
     phase = (\<lambda>_. Fast), mtx = None, linked = [], stored = (\<lambda>_. []), refused = []\<rparr>"
    by (intro reach_init) (auto simp: mp_start_def)
  from reach_step [OF this mp_call, of 0 7] have "reach mp_start mp_step \<lparr>mpq = QueueCAS_new n (\<lambda>_. True),
     pos = (\<lambda>_. PIdle)(0 := PPop 7), phase = (\<lambda>_. Fast), mtx = None, linked = [], stored = (\<lambda>_. []),
     refused = []\<rparr>" by simp
  from reach_step [OF this mp_call, of 1 8] show ?thesis by (simp add: two_calls_def)
qed

definition rivals :: "nat list" where
  "rivals = concat (replicate 16 [0, 1]) @ replicate 8 1"

theorem LockFreeQueue_producers_witness:
  "reach mp_start mp_step (run_mp rivals (two_calls 4)) \<and>
    dump (mpq (run_mp rivals (two_calls 4))) = [7, 8]"
proof -
  have "linked (run_mp rivals (two_calls 4)) = [(0, 7), (1, 8)]" by code_simp
  with LockFreeQueue_producers [OF run_mp_reach [OF two_calls_reach]] run_mp_reach [OF two_calls_reach]
  show ?thesis by (metis (no_types, lifting) list.simps(8,9) snd_conv zero_less_numeral)
qed

text \<open>
  A call can be refused although the pool grows: while thread 0 is in \<open>expand\<close>, thread 1 takes the node
  that thread 0 has pushed. Thread 0 finds the free list empty once more, and its element is dropped.
\<close>

definition thief :: "nat list" where
  "thief = [0, 0, 0, 0, 0, 0, 1, 1, 1] @ replicate 5 0"

lemma enqueue_refuses:
  "refused (run_mp thief (two_calls 1)) = [(0, 7)] \<and> pos (run_mp thief (two_calls 1)) 0 = PIdle \<and>
    pool_size (mpq (run_mp thief (two_calls 1))) = 2 \<and> mtx (run_mp thief (two_calls 1)) = None"
  by code_simp

end
