(* ===== verification/File_Sync.thy ===== *)
theory File_Sync
  imports Cpp_File
begin

text \<open>
  What reaches the device: \<open>File::syncfile\<close> of \<open>src/os/File.cpp\<close> against the buffers it goes through. A stream
  keeps what was written in a buffer of the library until it is flushed (\<open>fflush\<close>, a change of the
  position, or whenever the library likes); the system keeps it in its cache until \<open>fsync\<close>. \<open>fwrite\<close> of the
  class flushes, \<open>fprintf\<close> does not, and \<open>syncfile\<close> calls \<open>fsync\<close> alone. The Windows branch does the same with
  \<open>FlushFileBuffers\<close>.
\<close>

record sfile =
  pending :: "(nat \<times> string) list"
  cached :: string
  device :: string

definition written :: "sfile \<Rightarrow> string" where
  "written s = fold (\<lambda>(p, bs). write_at p bs) (pending s) (cached s)"

definition lib_write :: "nat \<Rightarrow> string \<Rightarrow> sfile \<Rightarrow> sfile" where
  "lib_write p bs s = s\<lparr>pending := pending s @ [(p, bs)]\<rparr>"

definition lib_fflush :: "sfile \<Rightarrow> sfile" where
  "lib_fflush s = s\<lparr>pending := [], cached := written s\<rparr>"

definition sys_fsync :: "sfile \<Rightarrow> sfile" where
  "sys_fsync s = s\<lparr>device := cached s\<rparr>"

text \<open>The operations on an open file; \<open>fseek\<close> flushes. \<open>p\<close> is \<open>mWritePos\<close>.\<close>

definition sync_fwrite :: "nat \<Rightarrow> string \<Rightarrow> sfile \<Rightarrow> sfile" where
  "sync_fwrite p bs s = lib_fflush (lib_write p bs (lib_fflush s))"

definition sync_fprintf :: "nat \<Rightarrow> string \<Rightarrow> sfile \<Rightarrow> sfile" where
  "sync_fprintf p bs s = lib_write p bs (lib_fflush s)"

definition syncfile :: "ptr \<Rightarrow> sfile \<Rightarrow> sfile" where
  "syncfile fp s = (if fp \<noteq> 0 then sys_fsync s else s)"

lemmas sync_defs = syncfile_def sys_fsync_def sync_fwrite_def sync_fprintf_def lib_fflush_def lib_write_def written_def

text \<open>What \<open>fwrite\<close> wrote is on the device after \<open>syncfile\<close>, and so is everything before it.\<close>

lemma syncfile_fwrite:
  "fp \<noteq> 0 \<Longrightarrow> device (syncfile fp (sync_fwrite p bs s)) = write_at p bs (written s)"
  "fp \<noteq> 0 \<Longrightarrow> written (syncfile fp (sync_fwrite p bs s)) = write_at p bs (written s)"
  by (simp_all add: sync_defs)

text \<open>
  What \<open>fprintf\<close> wrote is not, unless the library happens to flush: the device has what was written before.
  With a flush in front of \<open>fsync\<close> it would be.
\<close>

lemma syncfile_fprintf:
  "fp \<noteq> 0 \<Longrightarrow> device (syncfile fp (sync_fprintf p bs s)) = written s"
  "fp \<noteq> 0 \<Longrightarrow> written (syncfile fp (sync_fprintf p bs s)) = write_at p bs (written s)"
  "fp \<noteq> 0 \<Longrightarrow> device (syncfile fp (lib_fflush (sync_fprintf p bs s))) = write_at p bs (written s)"
  by (simp_all add: sync_defs)

lemma syncfile_loses_line:
  "device (syncfile 3 (sync_fprintf 0 ''line'' \<lparr>pending = [], cached = [], device = []\<rparr>)) = []"
  by (simp add: sync_defs)

end
