(* ===== verification/Base_Macros.thy ===== *)
theory Base_Macros
  imports Base_Prelude
begin

text \<open>
  The memory macros of \<open>inc/base/Macro.h\<close>, as they expand in C++ and in C, and its \<open>deleter\<close>. A heap maps an
  address to what made the block there: \<open>delete\<close> on a block of \<open>new[]\<close>, and the like, is undefined. A macro
  argument is text: \<open>deleteArray\<close> works on the variable itself, which the model passes and returns.
\<close>

datatype block = NewObject | NewArray nat | Malloc nat

type_synonym blocks = "ptr \<Rightarrow> block option"

definition release :: "(block \<Rightarrow> bool) \<Rightarrow> ptr \<Rightarrow> blocks \<Rightarrow> blocks res" where
  "release fits p H =
     (if p = 0 then Inr H
      else case H p of None \<Rightarrow> Inl Dangling | Some b \<Rightarrow> if fits b then Inr (H(p := None)) else Inl Undefined)"

definition is_array :: "block \<Rightarrow> bool" where
  "is_array b = (case b of NewArray _ \<Rightarrow> True | _ \<Rightarrow> False)"

definition is_object :: "block \<Rightarrow> bool" where
  "is_object b = (case b of NewObject \<Rightarrow> True | _ \<Rightarrow> False)"

definition is_malloc :: "block \<Rightarrow> bool" where
  "is_malloc b = (case b of Malloc _ \<Rightarrow> True | _ \<Rightarrow> False)"

text \<open>\<open>p\<close> is the address the allocator chooses.\<close>

definition newObject :: "ptr \<Rightarrow> blocks \<Rightarrow> ptr \<times> blocks" where
  "newObject p H = (p, H(p := Some NewObject))"

definition newArray :: "ptr \<Rightarrow> nat \<Rightarrow> blocks \<Rightarrow> ptr \<times> blocks" where
  "newArray p n H = (p, H(p := Some (NewArray n)))"

definition deleteArray :: "ptr \<Rightarrow> blocks \<Rightarrow> (ptr \<times> blocks) res" where
  "deleteArray p H = (if p \<noteq> 0 then bnd (release is_array p H) (\<lambda>H. Inr (0, H)) else Inr (p, H))"

text \<open>
  In C the size is the text \<open>sizeof(T) * n\<close>, where \<open>n\<close> is what was written between the commas: for a sum
  \<open>a + b\<close> only \<open>a\<close> is multiplied.
\<close>

datatype cexp = CNum nat | CAdd nat nat

definition malloc_bytes :: "nat \<Rightarrow> cexp \<Rightarrow> nat" where
  "malloc_bytes sizeof_T n = (case n of CNum k \<Rightarrow> sizeof_T * k | CAdd a b \<Rightarrow> sizeof_T * a + b)"

definition newArray_C :: "ptr \<Rightarrow> nat \<Rightarrow> cexp \<Rightarrow> blocks \<Rightarrow> ptr \<times> blocks" where
  "newArray_C p sizeof_T n H = (p, H(p := Some (Malloc (malloc_bytes sizeof_T n))))"

definition deleteArray_C :: "ptr \<Rightarrow> blocks \<Rightarrow> (ptr \<times> blocks) res" where
  "deleteArray_C p H = (if p \<noteq> 0 then bnd (release is_malloc p H) (\<lambda>H. Inr (0, H)) else Inr (p, H))"

text \<open>\<open>deleter\<close>: its parameter is a copy, the caller's pointer stays.\<close>

definition deleter :: "ptr \<Rightarrow> blocks \<Rightarrow> blocks res" where
  "deleter p H = (if p \<noteq> 0 then release is_object p H else Inr H)"

lemmas macro_defs = release_def newObject_def newArray_def newArray_C_def deleteArray_def deleteArray_C_def
  deleter_def is_array_def is_object_def is_malloc_def

text \<open>Arrays come and go in pairs, and a second \<open>deleteArray\<close> of the same variable does nothing.\<close>

lemma deleteArray_newArray:
  assumes "p \<noteq> 0" and "H p = None" and "newArray p n H = (v, H')"
  shows "deleteArray v H' = Inr (0, H)" "deleteArray 0 H = Inr (0, H)"
  using assms by (auto simp: macro_defs fun_upd_idem_iff)

lemma deleteArray_C_newArray_C:
  assumes "p \<noteq> 0" and "H p = None" and "newArray_C p k n H = (v, H')"
  shows "deleteArray_C v H' = Inr (0, H)"
  using assms by (auto simp: macro_defs fun_upd_idem_iff)

text \<open>A deleter called twice with the same pointer frees twice, and it does not fit arrays.\<close>

lemma deleter_twice:
  assumes "p \<noteq> 0" and "newObject p H = (v, H')"
  shows "\<exists>H''. deleter v H' = Inr H'' \<and> deleter v H'' = Inl Dangling"
  using assms by (auto simp: macro_defs)

lemma deleter_array:
  assumes "p \<noteq> 0" and "newArray p n H = (v, H')"
  shows "deleter v H' = Inl Undefined"
  using assms by (auto simp: macro_defs)

text \<open>The size that the macro asks for is too small for a sum, as soon as the elements have two bytes.\<close>

lemma newArray_C_short:
  assumes "1 < k" and "0 < b"
  shows "malloc_bytes k (CAdd a b) < k * (a + b)" "malloc_bytes k (CNum n) = k * n"
  using assms by (simp_all add: malloc_bytes_def add_mult_distrib2)

end
