(* ===== verification/Spec2Isabelle.thy ===== *)
theory Spec2Isabelle
  imports Looper_Thread Circular_Queue Lock_Free_Spsc Conditions Dir_Listing Asset_Files
    Thread_Pool Thread_Windows Coroutine_Stack Timer_Task Time_Util Log_Print
    Looper_Lifetime Sample_Input Looper_Windows Lock_Free_Aba Lock_Free_Producers File_Sync Base_Macros
begin

text \<open>
  A verification library for BaseCoreLib: an Android-style message looper and the base classes it
  ships with (locks, queues, threads, coroutines, files). All paths below are relative to
  \<open>src/BaseCoreLib/\<close>. Where the code has a branch per system, a component's theory models the POSIX
  branch; the Windows (and Apple) branches that behave differently have theories of their own.

  \<^bold>\<open>The program and its model\<close>

  \<^item> \<open>Base_Prelude\<close>: results (a \<open>fault\<close> or a value), their sequencing \<open>bnd\<close>, machine integers at
    their width, the lemma collections. A null or dangling pointer, a write behind an array, an
    assertion that fails, what POSIX leaves undefined and an endless walk are values of \<open>fault\<close>.
  \<^item> \<open>Step_System\<close>: systems of threads as step relations, \<open>reach\<close>, and the locale \<open>safe_system\<close>, an
    invariant that every step keeps without a fault. Every concurrent component interprets it.
    \<open>Decimal_Text\<close>: numbers printed and read in decimal. \<open>Base_Macros\<close> (\<open>Macro.h\<close>): the memory macros.
  \<^item> \<open>Msg_Heap\<close> (\<open>Message.h\<close>, \<open>Message.cpp\<close>): messages as objects at addresses, linked by \<open>mNext\<close>.
    \<open>Msg_Queue\<close> (\<open>MessageQueue.cpp\<close>): every operation on the pointer structure, one definition per
    critical section. \<open>Msg_Queue_Inv\<close>, \<open>Msg_Queue_All\<close>: the ownership invariant \<open>queue_rel\<close>, kept by
    all of them. \<open>Timed_Queue\<close>: the abstract queue, a stable sort by delivery time.
    \<open>Msg_Queue_Spec\<close>: the operations refine it. \<open>Msg_Handler\<close> (\<open>MessageHandler.cpp\<close>): sending, posting,
    dispatching. \<open>Msg_Looper\<close> (\<open>MessageLooper.cpp\<close>): the loop thread against any number of clients.
    \<open>Looper_Windows\<close>: the same loop with \<open>next\<close> as Windows compiles it, which waits without the lock.
    \<open>Looper_Lifetime\<close>: the references that keep a looper alive, its destruction, the static mutex.
    \<open>Looper_Thread\<close> (\<open>LooperThread.cpp\<close>): the owner of a looper and its worker thread.
    \<open>Sample_Program\<close> (\<open>test_looper.cpp\<close>): a thread that sends numbered messages and quits, composed of
    pool, queue, handler, loop thread and clock. \<open>Sample_Memory\<close>: the texts it sends, from \<open>malloc\<close> to
    \<open>freeMem\<close>; \<open>Sample_Input\<close>: the dialogues that ask for the numbers of each half,
    and the way from the answers to the log.
    \<open>Timer_Task\<close> (\<open>TimerTask.cpp\<close>): timers, a client of handler, queue and loop thread.
    \<open>Time_Util\<close> (\<open>TimeUtil.cpp\<close>): the clocks that the times of messages come from. \<open>Log_Print\<close>
    (\<open>Logger.cpp\<close>): the buffer and the levels of the logger.
  \<^item> \<open>Fifo_Queue\<close>: the locale of a bounded queue; \<open>Circular_Queue\<close> (\<open>CircularQueue.hpp\<close>: the blocking
    queue and the ring of one producer and one consumer) and \<open>Lock_Free_Queue\<close>
    (\<open>LockFreeQueue.hpp\<close>) provide it. \<open>Lock_Free_Spsc\<close>: the same code with one producer and one
    consumer, interleaved at every access to a shared field. \<open>Lock_Free_Producers\<close>: any number of
    producers without a consumer, the growth of the pool included. \<open>Lock_Free_Aba\<close>: the node pool with
    two producers and nodes that come back.
  \<^item> \<open>Lock_Guards\<close> (\<open>Mutex.hpp\<close>, \<open>AutoMutex.hpp\<close>), \<open>Semaphores\<close> (\<open>Semaphore.hpp\<close>, \<open>SemSyncLock.hpp\<close>),
    \<open>Conditions\<close> (\<open>Condition.hpp\<close>, \<open>CondSyncLock.hpp\<close>): the locks, their guards, the deadlines of
    timed waits. \<open>Lock_Platforms\<close>: the mutex on Windows against the one on POSIX, \<open>TryLockGuard\<close>, the
    destructors. \<open>Wait_Platforms\<close>: \<open>Condition::wait\<close> on Windows, semaphores on Windows and Apple.
    \<open>Thread_Base\<close> (\<open>ThreadBase.cpp\<close>): starting, joining, detaching a thread; \<open>Thread_Windows\<close>: the same with
    \<open>std::thread\<close> and a promise.
    \<open>Thread_Pool\<close> (\<open>SimpleFixedThreadpool.hpp\<close>): submission, workers, shutdown. \<open>Coroutines\<close>
    (\<open>SimpleCoroutine.cpp\<close>): the list, the random scheduler and the states of coroutines;
    \<open>Coroutine_Stack\<close>: the entry on a coroutine's own stack, instruction by instruction.
  \<^item> \<open>C_Stdio\<close>: streams and a disk, as the C library documents them. \<open>Get_Line\<close> and \<open>Cpp_File\<close>
    (\<open>File.cpp\<close>: \<open>my_getline\<close> and the class \<open>File\<close>), \<open>File_Sync\<close> (what its \<open>syncfile\<close> brings to the
    device), \<open>File_Util\<close> and \<open>Dir_Listing\<close> (\<open>FileUtil\<close> in
    \<open>File.cpp\<close> and the C functions of \<open>FileUtil.cpp\<close>), \<open>Asset_Files\<close> (\<open>AssetFile.cpp\<close>,
    \<open>CAssetFile.cpp\<close>).

  \<^bold>\<open>What the lemmas show\<close>

  The queue theories show that sending and taking out messages is a stable sort by time, that no
  message is lost, leaked, freed twice or delivered early, and that no wakeup is lost, over every
  interleaving of the loop thread with clients that respect ownership; loopers live exactly as long as
  something refers to them; and the whole sample program prints its messages in order, each once, and
  frees every parameter once, and the text behind it is never read after that. The circular queues, the
  ring and the lock-free queue are first-in first-out, the latter with any number of producers as long as
  nobody dequeues. Locks exclude, deadlines are exact, the pool runs
  each task once, coroutines never run when finished or freed. Files read back what was written,
  whole-file reads and directory listings are exact for every length and every depth. Where the code
  does not do this, the theorem states what it does instead: which line lengths overrun the buffer
  of \<open>my_getline\<close>, what \<open>removeAllMessages\<close> and the handlers that take \<open>this\<close> free too early, how a
  thread's start can fault, which wakeup is lost on Windows, when the pool of the lock-free queue hands
  out a node in use or refuses a call, for which inputs the dialogue of the sample program runs for
  ever, what \<open>syncfile\<close> leaves in a buffer, and which callers the destructor of the gate cuts off.

  \<^bold>\<open>Bounds and fuel\<close>

  Integers with a width are words, or carry their bounds as hypotheses. Loops over linked lists take
  the number of allocated objects as fuel; the invariants bound the length of the list by it, so the
  fault \<open>Diverge\<close> is excluded by the same theorems. Loops over files and directories are total
  functions with a termination proof. The retry loops of the lock-free queue take the list of
  outcomes of the exchanges; the dialogue of the sample program is a partial function, \<open>None\<close> when it
  runs for ever; the recursion of \<open>coro_select\<close> is two levels deep, as in the code.

  \<^bold>\<open>Not modelled\<close>

  What the library logs (the logger itself is modelled); how a \<open>float\<close> rounds; memory orders weaker than
  interleaving, and several consumers of the lock-free queue, or several producers beside a consumer,
  beyond the two races shown: the queue is not safe there; allocation failure; \<open>setjmp\<close> and \<open>longjmp\<close>
  (the change of who runs); the call that sets the priority of a thread; what the kernel and the device
  do after \<open>fsync\<close>; the prompts of \<open>test_looper.cpp\<close>, its dumps of the queue and the timer resolution it
  asks of Windows; the export, namespace and type macros of \<open>Macro.h\<close> and \<open>Uncopyable.hpp\<close>, which have no
  behaviour; the vendored \<open>spdlog\<close>.
\<close>

end
